(* ===== verification/Locker_Prelude.thy ===== *)
theory Locker_Prelude
  imports
    Main
    "HOL-Library.AList"
    "HOL-Library.Monad_Syntax"
    "HOL-Library.Multiset"
    "HOL-Library.Word"
begin

text \<open>
  What every component of the development shares: the bytes and strings of Go, the values
  an \<open>interface{}\<close> of the program can hold, Go maps as association lists, and the generic
  lemmas about them.

  A Go string is a sequence of bytes, so it is a \<open>string\<close> (a list of 8-bit \<open>char\<close>s). A Go
  map is an association list with distinct keys; its iteration order, which Go leaves
  unspecified, is never read off the list: wherever the code ranges over a map, the model
  takes the order as an argument.
\<close>

section \<open>Collections of facts\<close>

named_theorems gmap_simps \<open>lookup and update laws of Go maps\<close>
named_theorems inv_intros \<open>operations preserve their component's invariant\<close>

section \<open>Bytes and dynamically typed values\<close>

type_synonym byte = "8 word"

text \<open>
  The values an \<open>interface{}\<close> of this program holds: what \<open>encoding/json\<close> decodes into one.
  Numbers are \<open>float64\<close> in Go; the model keeps those whose value is an integer.
\<close>

datatype gval =
    GNil
  | GBool bool
  | GNum int
  | GStr string
  | GArr "gval list"
  | GObj "(string \<times> gval) list"

section \<open>Go maps\<close>

type_synonym ('k, 'v) gmap = "('k \<times> 'v) list"

definition gm_keys :: "('k, 'v) gmap \<Rightarrow> 'k list" where
  "gm_keys m = map fst m"

definition gm_wf :: "('k, 'v) gmap \<Rightarrow> bool" where
  "gm_wf m \<longleftrightarrow> distinct (gm_keys m)"

definition gm_get :: "('k, 'v) gmap \<Rightarrow> 'k \<Rightarrow> 'v option" where
  "gm_get m k = map_of m k"

definition gm_set :: "'k \<Rightarrow> 'v \<Rightarrow> ('k, 'v) gmap \<Rightarrow> ('k, 'v) gmap" where
  "gm_set k v m = AList.update k v m"

definition gm_del :: "'k \<Rightarrow> ('k, 'v) gmap \<Rightarrow> ('k, 'v) gmap" where
  "gm_del k m = AList.delete k m"

text \<open>\<open>m[k] = append(m[k], v)\<close>: a missing key reads as the nil slice.\<close>

definition gm_append :: "'k \<Rightarrow> 'v \<Rightarrow> ('k, 'v list) gmap \<Rightarrow> ('k, 'v list) gmap" where
  "gm_append k v m =
     gm_set k ((case gm_get m k of None \<Rightarrow> [] | Some vs \<Rightarrow> vs) @ [v]) m"

lemma gm_wf_empty [simp, inv_intros]: "gm_wf []"
  by (simp add: gm_wf_def gm_keys_def)

lemma gm_wf_set [inv_intros]: "gm_wf m \<Longrightarrow> gm_wf (gm_set k v m)"
  by (simp add: gm_wf_def gm_keys_def gm_set_def distinct_update)

lemma gm_wf_del [inv_intros]: "gm_wf m \<Longrightarrow> gm_wf (gm_del k m)"
  by (simp add: gm_wf_def gm_keys_def gm_del_def distinct_delete)

lemma gm_wf_append [inv_intros]: "gm_wf m \<Longrightarrow> gm_wf (gm_append k v m)"
  by (simp add: gm_append_def gm_wf_set)

lemma gm_get_empty [simp, gmap_simps]: "gm_get [] k = None"
  by (simp add: gm_get_def)

lemma gm_get_set [gmap_simps]: "gm_get (gm_set k v m) k' = (if k' = k then Some v else gm_get m k')"
  by (simp add: gm_get_def gm_set_def update_conv')

lemma gm_get_del [gmap_simps]: "gm_get (gm_del k m) k' = (if k' = k then None else gm_get m k')"
  by (simp add: gm_get_def gm_del_def delete_conv')

lemma gm_get_append [gmap_simps]:
  "gm_get (gm_append k v m) k' =
     (if k' = k then Some ((case gm_get m k of None \<Rightarrow> [] | Some vs \<Rightarrow> vs) @ [v])
      else gm_get m k')"
  by (simp add: gm_append_def gm_get_set)

lemma set_gm_keys_set [gmap_simps]: "set (gm_keys (gm_set k v m)) = insert k (set (gm_keys m))"
  by (simp add: gm_keys_def gm_set_def dom_update)

lemma set_gm_keys_append [gmap_simps]:
  "set (gm_keys (gm_append k v m)) = insert k (set (gm_keys m))"
  by (simp add: gm_append_def set_gm_keys_set)

lemma set_gm_keys_del [gmap_simps]: "set (gm_keys (gm_del k m)) = set (gm_keys m) - {k}"
  by (auto simp: gm_keys_def gm_del_def delete_keys)

lemma gm_get_None_iff: "gm_get m k = None \<longleftrightarrow> k \<notin> set (gm_keys m)"
  by (simp add: gm_get_def gm_keys_def map_of_eq_None_iff)

lemma gm_get_Some_iff: "gm_wf m \<Longrightarrow> gm_get m k = Some v \<longleftrightarrow> (k, v) \<in> set m"
  by (simp add: gm_get_def gm_wf_def gm_keys_def)

lemma length_gm_keys [simp]: "length (gm_keys m) = length m"
  by (simp add: gm_keys_def)

lemma card_gm_keys: "gm_wf m \<Longrightarrow> card (set (gm_keys m)) = length m"
  by (metis distinct_card gm_wf_def length_gm_keys)

lemma length_gm_set:
  "gm_wf m \<Longrightarrow> length (gm_set k v m) = (if k \<in> set (gm_keys m) then length m else Suc (length m))"
  by (metis card_gm_keys card_insert_if finite_set gm_wf_set set_gm_keys_set)

lemma length_gm_del:
  "gm_wf m \<Longrightarrow> length (gm_del k m) = (if k \<in> set (gm_keys m) then length m - 1 else length m)"
  by (metis Diff_empty Diff_insert0 card_Diff_singleton card_gm_keys gm_wf_del set_gm_keys_del)

section \<open>Lists in Go maps\<close>

definition gl :: "('k, 'v list) gmap \<Rightarrow> 'k \<Rightarrow> 'v list" where
  "gl m k = (case gm_get m k of None \<Rightarrow> [] | Some vs \<Rightarrow> vs)"

lemma gl_empty [simp]: "gl [] k = []"
  by (simp add: gl_def)

lemma gl_append [simp]: "gl (gm_append k v m) k' = (if k' = k then gl m k @ [v] else gl m k')"
  by (simp add: gl_def gm_get_append)

text \<open>No key is mapped to the empty slice.\<close>

definition gm_full :: "('k, 'v list) gmap \<Rightarrow> bool" where
  "gm_full m \<longleftrightarrow> (\<forall>k. gm_get m k \<noteq> Some [])"

lemma gm_full_empty [simp, inv_intros]: "gm_full []"
  by (simp add: gm_full_def)

lemma gm_full_append [inv_intros]: "gm_full m \<Longrightarrow> gm_full (gm_append k v m)"
  by (simp add: gm_full_def gm_get_append)

lemma gm_full_get: "gm_full m \<Longrightarrow> gm_get m k = (if gl m k = [] then None else Some (gl m k))"
  by (auto simp: gm_full_def gl_def split: option.splits)

text \<open>One answer is returned as itself, several as a list.\<close>

definition collapse :: "gval list \<Rightarrow> gval" where
  "collapse vals = (if length vals = 1 then vals ! 0 else GArr vals)"

definition collapse_all :: "(string, gval list) gmap \<Rightarrow> (string, gval) gmap" where
  "collapse_all resp = map (\<lambda>(rid, vals). (rid, collapse vals)) resp"

lemma gm_get_collapse: "gm_get (collapse_all resp) rid = map_option collapse (gm_get resp rid)"
  by (simp add: collapse_all_def gm_get_def map_of_map)

lemma gm_wf_collapse [inv_intros]: "gm_wf m \<Longrightarrow> gm_wf (collapse_all m)"
  by (simp add: gm_wf_def gm_keys_def collapse_all_def comp_def split_beta)

section \<open>Sums over updated lists\<close>

lemma sum_list_update_add:
  fixes f :: "'a \<Rightarrow> 'b::comm_monoid_add"
  assumes "i < length xs"
  shows "sum_list (map f (xs[i := x])) + f (xs ! i) = sum_list (map f xs) + f x"
proof -
  have "sum_list (map f xs) = sum_list (map f (take i xs)) + (f (xs ! i) + sum_list (map f (drop (Suc i) xs)))"
    by (subst id_take_nth_drop [OF assms]) simp
  then show ?thesis using assms by (simp add: upd_conv_take_nth_drop ac_simps)
qed

end
