(* ===== verification/LRU_Cache.thy ===== *)
theory LRU_Cache
  imports Locker_Prelude
begin

text \<open>
  The proxy's LRU cache (\<open>mains/proxy.go\<close>, \<open>cacheEntry\<close>, \<open>LRUCache\<close> and its methods): a map
  from keys to entries that are linked into a doubly linked list, most recently used first.

  The entries live in an explicit heap, because the methods update them through pointers
  that may alias (the entry, its neighbours, the head, the tail). An address is a \<open>nat\<close>, a
  nil pointer is \<open>None\<close>, and every method returns an \<open>option\<close>: \<open>None\<close> is the run-time panic
  of a nil dereference. Every method holds the mutex from its first line to its return, so a
  method is one atomic function of the state.

  The second half gives the abstract specification (a list of keys and values, most recent
  first), the representation invariant \<open>lru_ok\<close>, and the refinement of every method, collected
  in the locale \<open>lru_store\<close>, whose clients are the components that use a cache.
\<close>

section \<open>The code\<close>

type_synonym addr = nat

record 'v cacheEntry =
  ce_value :: 'v
  ce_next :: "addr option"
  ce_prev :: "addr option"
  ce_key :: string

type_synonym 'v entries = "addr \<Rightarrow> 'v cacheEntry option"

record 'v LRUCache =
  lru_capacity :: int
  lru_map :: "(string, addr) gmap"
  lru_head :: "addr option"
  lru_tail :: "addr option"
  lru_heap :: "'v entries"
  lru_fresh :: addr

definition NewLRUCache :: "int \<Rightarrow> 'v LRUCache" where
  "NewLRUCache capacity =
     \<lparr>lru_capacity = capacity, lru_map = [], lru_head = None, lru_tail = None,
      lru_heap = (\<lambda>_. None), lru_fresh = 0\<rparr>"

text \<open>Reading and writing through a pointer: \<open>None\<close> when there is no entry behind it.\<close>

definition set_next :: "'v entries \<Rightarrow> addr \<Rightarrow> addr option \<Rightarrow> 'v entries option" where
  "set_next h a n = map_option (\<lambda>e. h(a \<mapsto> e\<lparr>ce_next := n\<rparr>)) (h a)"

definition set_prev :: "'v entries \<Rightarrow> addr \<Rightarrow> addr option \<Rightarrow> 'v entries option" where
  "set_prev h a p = map_option (\<lambda>e. h(a \<mapsto> e\<lparr>ce_prev := p\<rparr>)) (h a)"

definition set_value :: "'v entries \<Rightarrow> addr \<Rightarrow> 'v \<Rightarrow> 'v entries option" where
  "set_value h a v = map_option (\<lambda>e. h(a \<mapsto> e\<lparr>ce_value := v\<rparr>)) (h a)"

text \<open>\<open>if p != nil { p.next = n }\<close> and \<open>if p != nil { p.prev = q }\<close>\<close>

definition set_next_opt :: "'v entries \<Rightarrow> addr option \<Rightarrow> addr option \<Rightarrow> 'v entries option" where
  "set_next_opt h p n = (case p of None \<Rightarrow> Some h | Some a \<Rightarrow> set_next h a n)"

definition set_prev_opt :: "'v entries \<Rightarrow> addr option \<Rightarrow> addr option \<Rightarrow> 'v entries option" where
  "set_prev_opt h p q = (case p of None \<Rightarrow> Some h | Some a \<Rightarrow> set_prev h a q)"

definition moveToHead :: "'v LRUCache \<Rightarrow> addr \<Rightarrow> 'v LRUCache option" where
  "moveToHead c entry =
     (if lru_head c = Some entry then Some c
      else do {
        e0 \<leftarrow> lru_heap c entry;
        h1 \<leftarrow> set_next_opt (lru_heap c) (ce_prev e0) (ce_next e0);
        e1 \<leftarrow> h1 entry;
        h2 \<leftarrow> set_prev_opt h1 (ce_next e1) (ce_prev e1);
        e2 \<leftarrow> h2 entry;
        let tail1 = (if lru_tail c = Some entry then ce_prev e2 else lru_tail c);
        h3 \<leftarrow> set_next h2 entry (lru_head c);
        h4 \<leftarrow> set_prev h3 entry None;
        h5 \<leftarrow> set_prev_opt h4 (lru_head c) (Some entry);
        Some (c\<lparr>lru_heap := h5, lru_head := Some entry,
                lru_tail := (case tail1 of None \<Rightarrow> Some entry | Some t \<Rightarrow> Some t)\<rparr>)
      })"

text \<open>The unexported \<open>evict\<close>; the empty key and no value when the list is empty.\<close>

definition evict :: "'v LRUCache \<Rightarrow> ((string \<times> 'v option) \<times> 'v LRUCache) option" where
  "evict c =
     (case lru_tail c of
        None \<Rightarrow> Some (('''', None), c)
      | Some evicted \<Rightarrow> do {
          e \<leftarrow> lru_heap c evicted;
          let m = gm_del (ce_key e) (lru_map c);
          (if lru_head c = lru_tail c
           then Some ((ce_key e, Some (ce_value e)),
                      c\<lparr>lru_map := m, lru_head := None, lru_tail := None\<rparr>)
           else do {
             t \<leftarrow> ce_prev e;
             h \<leftarrow> set_next (lru_heap c) t None;
             Some ((ce_key e, Some (ce_value e)),
                   c\<lparr>lru_map := m, lru_tail := Some t, lru_heap := h\<rparr>)
           })
        })"

definition cache_Get :: "string \<Rightarrow> 'v LRUCache \<Rightarrow> ('v option \<times> 'v LRUCache) option" where
  "cache_Get key c =
     (case gm_get (lru_map c) key of
        Some entry \<Rightarrow> do {
          c' \<leftarrow> moveToHead c entry;
          e \<leftarrow> lru_heap c' entry;
          Some (Some (ce_value e), c')
        }
      | None \<Rightarrow> Some (None, c))"

definition cache_Put :: "string \<Rightarrow> 'v \<Rightarrow> 'v LRUCache \<Rightarrow> 'v LRUCache option" where
  "cache_Put key value c =
     (case gm_get (lru_map c) key of
        Some entry \<Rightarrow> do {
          h \<leftarrow> set_value (lru_heap c) entry value;
          moveToHead (c\<lparr>lru_heap := h\<rparr>) entry
        }
      | None \<Rightarrow> do {
          let a = lru_fresh c;
          let h0 = (lru_heap c)(a \<mapsto>
            \<lparr>ce_value = value, ce_next = None, ce_prev = None, ce_key = key\<rparr>);
          let c0 = c\<lparr>lru_map := gm_set key a (lru_map c), lru_fresh := Suc a, lru_heap := h0\<rparr>;
          c1 \<leftarrow> (case lru_head c0 of
             None \<Rightarrow> Some (c0\<lparr>lru_head := Some a, lru_tail := Some a\<rparr>)
           | Some b \<Rightarrow> do {
               h1 \<leftarrow> set_next h0 a (Some b);
               h2 \<leftarrow> set_prev h1 b (Some a);
               Some (c0\<lparr>lru_heap := h2, lru_head := Some a\<rparr>)
             });
          (if lru_capacity c1 < int (length (lru_map c1))
           then map_option snd (evict c1)
           else Some c1)
        })"

definition cache_Has :: "string \<Rightarrow> 'v LRUCache \<Rightarrow> bool" where
  "cache_Has key c \<longleftrightarrow> gm_get (lru_map c) key \<noteq> None"

definition cache_Evict :: "'v LRUCache \<Rightarrow> ((string \<times> 'v option) \<times> 'v LRUCache) option" where
  "cache_Evict c = (if lru_tail c = None then Some (('''', None), c) else evict c)"

section \<open>The abstract cache\<close>

text \<open>
  What a cache promises: a list of keys with their values, most recently used first, of at
  most \<open>capacity\<close> entries.
\<close>

type_synonym 'v lru_list = "(string \<times> 'v) list"

definition abs_get :: "string \<Rightarrow> 'v lru_list \<Rightarrow> 'v option \<times> 'v lru_list" where
  "abs_get k xs =
     (case map_of xs k of None \<Rightarrow> (None, xs) | Some v \<Rightarrow> (Some v, (k, v) # AList.delete k xs))"

definition abs_put :: "int \<Rightarrow> string \<Rightarrow> 'v \<Rightarrow> 'v lru_list \<Rightarrow> 'v lru_list" where
  "abs_put cap k v xs =
     (if k \<in> fst ` set xs then (k, v) # AList.delete k xs
      else if cap < int (Suc (length xs)) then butlast ((k, v) # xs)
      else (k, v) # xs)"

definition abs_evict :: "'v lru_list \<Rightarrow> (string \<times> 'v option) \<times> 'v lru_list" where
  "abs_evict xs =
     (if xs = [] then (('''', None), []) else ((fst (last xs), Some (snd (last xs))), butlast xs))"

text \<open>The entries met by following \<open>next\<close> from the head, and what they hold.\<close>

fun walk :: "'v entries \<Rightarrow> addr option \<Rightarrow> nat \<Rightarrow> addr list" where
  "walk h p 0 = []"
| "walk h None (Suc n) = []"
| "walk h (Some a) (Suc n) = a # walk h (Option.bind (h a) ce_next) n"

definition kv_at :: "'v entries \<Rightarrow> addr \<Rightarrow> string \<times> 'v" where
  "kv_at h a = (ce_key (the (h a)), ce_value (the (h a)))"

definition contents :: "'v LRUCache \<Rightarrow> 'v lru_list" where
  "contents c = map (kv_at (lru_heap c)) (walk (lru_heap c) (lru_head c) (length (lru_map c)))"

text \<open>A segment of the doubly linked list, from the neighbour \<open>p\<close> before it to \<open>n\<close> after it.\<close>

fun dseg :: "'v entries \<Rightarrow> addr option \<Rightarrow> addr list \<Rightarrow> addr option \<Rightarrow> bool" where
  "dseg h p [] n = True"
| "dseg h p (a # as) n =
     (\<exists>e. h a = Some e \<and> ce_prev e = p \<and> ce_next e = (if as = [] then n else Some (hd as)) \<and>
          dseg h (Some a) as n)"

definition first_or :: "addr list \<Rightarrow> addr option \<Rightarrow> addr option" where
  "first_or as n = (if as = [] then n else Some (hd as))"

definition last_or :: "addr list \<Rightarrow> addr option \<Rightarrow> addr option" where
  "last_or as p = (if as = [] then p else Some (last as))"

definition lru_linked :: "'v LRUCache \<Rightarrow> addr list \<Rightarrow> bool" where
  "lru_linked c ps \<longleftrightarrow>
     distinct ps \<and> dseg (lru_heap c) None ps None \<and>
     lru_head c = first_or ps None \<and> lru_tail c = last_or ps None \<and>
     gm_wf (lru_map c) \<and> length (lru_map c) = length ps \<and>
     distinct (map (fst \<circ> kv_at (lru_heap c)) ps) \<and>
     (\<forall>k a. gm_get (lru_map c) k = Some a \<longleftrightarrow> a \<in> set ps \<and> fst (kv_at (lru_heap c) a) = k) \<and>
     (\<forall>a. lru_fresh c \<le> a \<longrightarrow> lru_heap c a = None)"

definition lru_ok :: "'v LRUCache \<Rightarrow> bool" where
  "lru_ok c \<longleftrightarrow> (\<exists>ps. lru_linked c ps) \<and> int (length (lru_map c)) \<le> max 0 (lru_capacity c)"

section \<open>Segments of the list\<close>

lemma first_or_simps [simp]:
  "first_or [] n = n" "first_or (a # as) n = Some a"
  by (simp_all add: first_or_def)

lemma last_or_simps [simp]:
  "last_or [] p = p" "last_or (as @ [a]) p = Some a" "last_or (a # as) p = last_or as (Some a)"
  by (simp_all add: last_or_def)

lemma first_or_append: "first_or (as @ bs) n = first_or as (first_or bs n)"
  by (cases as) simp_all

lemma last_or_append [simp]: "last_or (as @ bs) p = last_or bs (last_or as p)"
  by (induction as arbitrary: p) simp_all

lemma dseg_Cons:
  "dseg h p (a # as) n \<longleftrightarrow>
     (\<exists>e. h a = Some e \<and> ce_prev e = p \<and> ce_next e = first_or as n) \<and> dseg h (Some a) as n"
  by (cases as) auto

declare dseg.simps(2) [simp del]

lemma dseg_append:
  "dseg h p (as @ bs) n \<longleftrightarrow> dseg h p as (first_or bs n) \<and> dseg h (last_or as p) bs n"
  by (induction as arbitrary: p) (auto simp: dseg_Cons first_or_append)

lemma dseg_cong: "\<forall>a \<in> set as. h a = h' a \<Longrightarrow> dseg h p as n = dseg h' p as n"
  by (induction as arbitrary: p) (auto simp: dseg_Cons)

lemma dseg_mapped: "dseg h p as n \<Longrightarrow> a \<in> set as \<Longrightarrow> h a \<noteq> None"
  by (induction as arbitrary: p) (auto simp: dseg_Cons)

text \<open>Two heaps with the same entries up to their links.\<close>

definition same_kv :: "'v entries \<Rightarrow> 'v entries \<Rightarrow> bool" where
  "same_kv h h' \<longleftrightarrow> (\<forall>a. (h a = None \<longleftrightarrow> h' a = None) \<and> kv_at h a = kv_at h' a)"

lemma same_kv_refl [simp]: "same_kv h h"
  by (simp add: same_kv_def)

lemma set_next_same_kv: "set_next h a n = Some h' \<Longrightarrow> same_kv h h'"
  by (auto simp: set_next_def same_kv_def kv_at_def split: if_splits)

lemma set_prev_same_kv: "set_prev h a n = Some h' \<Longrightarrow> same_kv h h'"
  by (auto simp: set_prev_def same_kv_def kv_at_def split: if_splits)

lemma set_next_other: "set_next h a n = Some h' \<Longrightarrow> b \<noteq> a \<Longrightarrow> h' b = h b"
  by (auto simp: set_next_def)

lemma set_prev_other: "set_prev h a n = Some h' \<Longrightarrow> b \<noteq> a \<Longrightarrow> h' b = h b"
  by (auto simp: set_prev_def)

text \<open>Relinking the two ends of a segment.\<close>

lemma dseg_set_next_last:
  assumes "dseg h p (as @ [a]) n" and "a \<notin> set as"
  shows "\<exists>h'. set_next h a m = Some h' \<and> dseg h' p (as @ [a]) m"
proof -
  from assms(1) obtain e where e: "h a = Some e" "ce_prev e = last_or as p"
    and as: "dseg h p as (Some a)"
    by (auto simp: dseg_append dseg_Cons)
  from assms(2) have "dseg (h(a \<mapsto> e\<lparr>ce_next := m\<rparr>)) p as (Some a) = dseg h p as (Some a)"
    by (intro dseg_cong) auto
  with e as show ?thesis
    by (simp add: set_next_def dseg_append dseg_Cons)
qed

lemma dseg_set_prev_first:
  assumes "dseg h p (a # as) n" and "a \<notin> set as"
  shows "\<exists>h'. set_prev h a q = Some h' \<and> dseg h' q (a # as) n"
proof -
  from assms(1) obtain e where e: "h a = Some e" "ce_next e = first_or as n"
    and as: "dseg h (Some a) as n"
    by (auto simp: dseg_Cons)
  from assms(2) have "dseg (h(a \<mapsto> e\<lparr>ce_prev := q\<rparr>)) (Some a) as n = dseg h (Some a) as n"
    by (intro dseg_cong) auto
  with e as show ?thesis
    by (simp add: set_prev_def dseg_Cons)
qed

lemma walk_dseg: "dseg h p as None \<Longrightarrow> walk h (first_or as None) (length as) = as"
proof (induction as arbitrary: p)
  case (Cons a as)
  then obtain e where "h a = Some e" "ce_next e = first_or as None" "dseg h (Some a) as None"
    by (auto simp: dseg_Cons)
  with Cons.IH show ?case by simp
qed simp

lemma contents_linked: "lru_linked c ps \<Longrightarrow> contents c = map (kv_at (lru_heap c)) ps"
  unfolding contents_def lru_linked_def by (metis walk_dseg)

section \<open>Unlinking an entry and linking it in front\<close>

lemma set_next_opt_same_kv: "set_next_opt h p n = Some h' \<Longrightarrow> same_kv h h'"
  by (auto simp: set_next_opt_def intro: set_next_same_kv split: option.splits)

lemma set_prev_opt_same_kv: "set_prev_opt h p n = Some h' \<Longrightarrow> same_kv h h'"
  by (auto simp: set_prev_opt_def intro: set_prev_same_kv split: option.splits)

text \<open>The predecessor's \<open>next\<close> skips \<open>a\<close>; then the successor's \<open>prev\<close> does.\<close>

lemma unlink_next:
  assumes d: "dseg h None (xs @ a # ys) None" "distinct (xs @ a # ys)" and e: "h a = Some e"
  shows "\<exists>h1. set_next_opt h (ce_prev e) (ce_next e) = Some h1 \<and> h1 a = Some e \<and>
              dseg h1 None xs (first_or ys None) \<and> dseg h1 (Some a) ys None"
proof (cases xs rule: rev_cases)
  case Nil
  with d e show ?thesis by (auto simp: dseg_Cons set_next_opt_def)
next
  case (snoc zs b)
  from d e snoc have links: "ce_prev e = Some b" "ce_next e = first_or ys None"
    and segs: "dseg h None (zs @ [b]) (Some a)" "dseg h (Some a) ys None"
    by (auto simp: dseg_append dseg_Cons)
  from d snoc have "b \<notin> set zs" "b \<noteq> a" "b \<notin> set ys" by auto
  from dseg_set_next_last [OF segs(1) this(1)] obtain h1
    where h1: "set_next h b (first_or ys None) = Some h1" "dseg h1 None (zs @ [b]) (first_or ys None)"
    by blast
  have "dseg h1 (Some a) ys None = dseg h (Some a) ys None"
    using set_next_other [OF h1(1)] \<open>b \<notin> set ys\<close> by (intro dseg_cong) metis
  with h1 links segs snoc e set_next_other [OF h1(1)] \<open>b \<noteq> a\<close> show ?thesis
    by (auto simp: set_next_opt_def)
qed

lemma unlink_prev:
  assumes segs: "dseg h1 None xs (first_or ys None)" "dseg h1 (Some a) ys None"
    and d: "distinct (xs @ a # ys)" and e: "h1 a = Some e" "ce_next e = first_or ys None"
      "ce_prev e = last_or xs None"
  shows "\<exists>h2. set_prev_opt h1 (ce_next e) (ce_prev e) = Some h2 \<and> h2 a = Some e \<and>
              dseg h2 None (xs @ ys) None"
proof (cases ys)
  case Nil
  with segs e show ?thesis by (simp add: set_prev_opt_def)
next
  case (Cons b zs)
  from d Cons have "b \<notin> set zs" "b \<noteq> a" "b \<notin> set xs" by auto
  from dseg_set_prev_first [OF segs(2) [unfolded Cons] this(1)] obtain h2
    where h2: "set_prev h1 b (ce_prev e) = Some h2" "dseg h2 (ce_prev e) (b # zs) None"
    by blast
  have "dseg h2 None xs (first_or ys None) = dseg h1 None xs (first_or ys None)"
    using set_prev_other [OF h2(1)] \<open>b \<notin> set xs\<close> by (intro dseg_cong) metis
  with h2 segs e Cons set_prev_other [OF h2(1)] \<open>b \<noteq> a\<close> show ?thesis
    by (auto simp: set_prev_opt_def dseg_append)
qed

lemma link_front:
  assumes d: "dseg h None zs None" "distinct (a # zs)" and e: "h a = Some e"
  shows "\<exists>h3 h4 h5. set_next h a (first_or zs None) = Some h3 \<and> set_prev h3 a None = Some h4 \<and>
            set_prev_opt h4 (first_or zs None) (Some a) = Some h5 \<and> dseg h5 None (a # zs) None"
proof -
  let ?h3 = "h(a \<mapsto> e\<lparr>ce_next := first_or zs None\<rparr>)"
  let ?h4 = "h(a \<mapsto> e\<lparr>ce_next := first_or zs None, ce_prev := None\<rparr>)"
  have h34: "set_next h a (first_or zs None) = Some ?h3" "set_prev ?h3 a None = Some ?h4"
    using e by (simp_all add: set_next_def set_prev_def)
  have "dseg ?h4 None zs None = dseg h None zs None"
    using d(2) by (intro dseg_cong) auto
  with d(1) have seg: "dseg ?h4 None zs None" by simp
  show ?thesis
  proof (cases zs)
    case Nil
    with h34 show ?thesis by (simp add: set_prev_opt_def dseg_Cons)
  next
    case (Cons b ws)
    from d(2) Cons have "b \<notin> set ws" "b \<noteq> a" by auto
    from dseg_set_prev_first [OF seg [unfolded Cons] this(1)] obtain h5
      where h5: "set_prev ?h4 b (Some a) = Some h5" "dseg h5 (Some a) (b # ws) None"
      unfolding Cons by blast
    with h34 Cons set_prev_other [OF h5(1)] \<open>b \<noteq> a\<close> show ?thesis
      by (auto simp: set_prev_opt_def dseg_Cons)
  qed
qed

lemma moveToHead_relinks:
  assumes d: "dseg (lru_heap c) None (xs @ a # ys) None" "distinct (xs @ a # ys)"
    and hd: "lru_head c = first_or (xs @ a # ys) None"
    and tl: "lru_tail c = last_or (xs @ a # ys) None"
  shows "\<exists>h. moveToHead c a =
           Some (c\<lparr>lru_heap := h, lru_head := Some a, lru_tail := last_or (a # xs @ ys) None\<rparr>) \<and>
         dseg h None (a # xs @ ys) None \<and> same_kv (lru_heap c) h"
proof (cases xs)
  case Nil
  with hd tl have "moveToHead c a = Some c"
      "c = c\<lparr>lru_heap := lru_heap c, lru_head := Some a, lru_tail := last_or (a # xs @ ys) None\<rparr>"
    by (simp_all add: moveToHead_def)
  with Nil d(1) show ?thesis by (metis append_Nil same_kv_refl)
next
  case (Cons x zs)
  with d hd have ne: "lru_head c = Some x" "x \<noteq> a" by auto
  from d(1) obtain e where e: "lru_heap c a = Some e" "ce_next e = first_or ys None"
      "ce_prev e = last_or xs None"
    by (auto simp: dseg_append dseg_Cons)
  from unlink_next [OF d e(1)] obtain h1
    where h1: "set_next_opt (lru_heap c) (ce_prev e) (ce_next e) = Some h1" "h1 a = Some e"
      "dseg h1 None xs (first_or ys None)" "dseg h1 (Some a) ys None"
    by blast
  from unlink_prev [OF h1(3,4) d(2) h1(2) e(2,3)] obtain h2
    where h2: "set_prev_opt h1 (ce_next e) (ce_prev e) = Some h2" "h2 a = Some e"
      "dseg h2 None (xs @ ys) None"
    by blast
  from d(2) have "distinct (a # xs @ ys)" by auto
  from link_front [OF h2(3) this h2(2)] obtain h3 h4 h5
    where h5: "set_next h2 a (lru_head c) = Some h3" "set_prev h3 a None = Some h4"
      "set_prev_opt h4 (lru_head c) (Some a) = Some h5" "dseg h5 None (a # xs @ ys) None"
    using Cons ne by auto
  have tail: "(case (if lru_tail c = Some a then ce_prev e else lru_tail c) of
                 None \<Rightarrow> Some a | Some t \<Rightarrow> Some t) = last_or (a # xs @ ys) None"
  proof (cases ys rule: rev_cases)
    case Nil
    with tl e(3) Cons show ?thesis by (simp add: last_or_def)
  next
    case (snoc ws b)
    with tl d(2) show ?thesis by simp
  qed
  have hd_ne: "lru_head c \<noteq> Some a" using ne by simp
  have "same_kv (lru_heap c) h5"
    using set_next_opt_same_kv [OF h1(1)] set_prev_opt_same_kv [OF h2(1)]
      set_next_same_kv [OF h5(1)] set_prev_same_kv [OF h5(2)] set_prev_opt_same_kv [OF h5(3)]
    by (simp add: same_kv_def)
  moreover have "moveToHead c a =
      Some (c\<lparr>lru_heap := h5, lru_head := Some a, lru_tail := last_or (a # xs @ ys) None\<rparr>)"
    by (simp only: moveToHead_def hd_ne if_False e(1) h1(1,2) h2(1,2) h5(1-3) bind.bind_lunit
        Let_def tail)
  ultimately show ?thesis using h5(4) by blast
qed

section \<open>The representation invariant under relinking\<close>

lemma same_kv_at: "same_kv h h' \<Longrightarrow> kv_at h' a = kv_at h a"
  by (simp add: same_kv_def)

lemma lru_linked_permute:
  assumes l: "lru_linked c ps" and kv: "same_kv (lru_heap c) h"
    and d: "dseg h None qs None" and m: "mset qs = mset ps"
  shows "lru_linked (c\<lparr>lru_heap := h, lru_head := first_or qs None, lru_tail := last_or qs None\<rparr>) qs"
proof -
  have kv': "kv_at h = kv_at (lru_heap c)"
    using kv by (auto simp: same_kv_def)
  have "distinct (map (fst \<circ> kv_at h) qs)"
    using l m unfolding lru_linked_def kv' by (metis mset_eq_imp_distinct_iff mset_map)
  with l kv d m kv' show ?thesis
    by (auto simp: lru_linked_def same_kv_def mset_eq_imp_distinct_iff [OF m]
        mset_eq_setD [OF m] mset_eq_length [OF m])
qed

lemma moveToHead_linked:
  assumes "lru_linked c (xs @ a # ys)"
  shows "\<exists>c'. moveToHead c a = Some c' \<and> lru_linked c' (a # xs @ ys) \<and>
           same_kv (lru_heap c) (lru_heap c') \<and> lru_map c' = lru_map c \<and>
           lru_capacity c' = lru_capacity c"
proof -
  from assms have "dseg (lru_heap c) None (xs @ a # ys) None" "distinct (xs @ a # ys)"
      "lru_head c = first_or (xs @ a # ys) None" "lru_tail c = last_or (xs @ a # ys) None"
    by (simp_all add: lru_linked_def)
  from moveToHead_relinks [OF this] obtain h
    where h: "moveToHead c a =
        Some (c\<lparr>lru_heap := h, lru_head := Some a, lru_tail := last_or (a # xs @ ys) None\<rparr>)"
      "dseg h None (a # xs @ ys) None" "same_kv (lru_heap c) h"
    by blast
  from lru_linked_permute [OF assms h(3,2)] h(1,3) show ?thesis by simp
qed

lemma gm_get_linked:
  "lru_linked c ps \<Longrightarrow>
     gm_get (lru_map c) k = Some a \<longleftrightarrow> a \<in> set ps \<and> fst (kv_at (lru_heap c) a) = k"
  by (simp add: lru_linked_def)

lemma gm_get_linked_None:
  assumes "lru_linked c ps"
  shows "gm_get (lru_map c) k = None \<longleftrightarrow> k \<notin> fst ` set (contents c)"
proof -
  have "gm_get (lru_map c) k = None \<longleftrightarrow> (\<forall>a. gm_get (lru_map c) k \<noteq> Some a)" by auto
  also have "\<dots> \<longleftrightarrow> k \<notin> fst ` set (contents c)"
    using assms by (auto simp: gm_get_linked [OF assms] contents_linked [OF assms])
  finally show ?thesis .
qed

lemma distinct_contents: "lru_linked c ps \<Longrightarrow> distinct (map fst (contents c))"
  using contents_linked [of c ps] by (simp add: lru_linked_def)

lemma length_contents: "lru_linked c ps \<Longrightarrow> length (contents c) = length (lru_map c)"
  using contents_linked [of c ps] by (simp add: lru_linked_def)

lemma gm_get_linked_split:
  assumes "lru_linked c ps" and "gm_get (lru_map c) k = Some a"
  obtains xs ys where "ps = xs @ a # ys"
    and "contents c = map (kv_at (lru_heap c)) xs @ (k, snd (kv_at (lru_heap c) a)) #
                      map (kv_at (lru_heap c)) ys"
    and "k \<notin> fst ` set (map (kv_at (lru_heap c)) (xs @ ys))"
proof -
  from assms have a: "a \<in> set ps" "fst (kv_at (lru_heap c) a) = k"
    by (auto simp: gm_get_linked)
  from split_list [OF a(1)] obtain xs ys where ps: "ps = xs @ a # ys" by blast
  have "(k, snd (kv_at (lru_heap c) a)) = kv_at (lru_heap c) a" using a(2) by auto
  moreover have "distinct (map (fst \<circ> kv_at (lru_heap c)) ps)"
    using assms(1) by (simp add: lru_linked_def)
  ultimately show ?thesis
    using that ps a(2) contents_linked [OF assms(1)] by fastforce
qed

lemma delete_split:
  assumes "k \<notin> fst ` set (xs @ ys)"
  shows "AList.delete k (xs @ (k, v) # ys) = xs @ ys"
proof -
  from assms have "\<forall>p \<in> set (xs @ ys). k \<noteq> fst p" by auto
  then have "filter (\<lambda>p. k \<noteq> fst p) (xs @ ys) = xs @ ys" by (simp add: filter_id_conv)
  then show ?thesis by (simp add: AList.delete_eq case_prod_unfold)
qed

lemma map_of_split: "k \<notin> fst ` set (xs @ ys) \<Longrightarrow> map_of (xs @ (k, v) # ys) k = Some v"
proof (induction xs)
  case (Cons x xs)
  then show ?case by (cases x) auto
qed simp

lemma abs_get_split:
  "k \<notin> fst ` set (xs @ ys) \<Longrightarrow> abs_get k (xs @ (k, v) # ys) = (Some v, (k, v) # xs @ ys)"
  by (simp only: abs_get_def map_of_split delete_split option.case not_False_eq_True)

lemma abs_put_split:
  "k \<notin> fst ` set (xs @ ys) \<Longrightarrow> abs_put cap k v (xs @ (k, w) # ys) = (k, v) # xs @ ys"
  by (simp add: abs_put_def delete_split [simplified])

section \<open>Refinement of the methods\<close>

lemma lru_linked_New: "lru_linked (NewLRUCache cap) []"
  by (simp add: lru_linked_def NewLRUCache_def)

lemma lru_ok_New [inv_intros]: "lru_ok (NewLRUCache cap)"
  using lru_linked_New [of cap] by (auto simp: lru_ok_def NewLRUCache_def)

lemma contents_New [simp]: "contents (NewLRUCache cap) = []"
  by (simp add: contents_def NewLRUCache_def)

lemma capacity_New [simp]: "lru_capacity (NewLRUCache cap) = cap"
  by (simp add: NewLRUCache_def)

lemma cache_Has_contents: "lru_linked c ps \<Longrightarrow> cache_Has k c \<longleftrightarrow> k \<in> fst ` set (contents c)"
  using gm_get_linked_None [of c ps k] by (simp add: cache_Has_def)

lemma cache_Get_linked:
  assumes l: "lru_linked c ps"
  shows "\<exists>c' ps'. cache_Get k c = Some (fst (abs_get k (contents c)), c') \<and>
           contents c' = snd (abs_get k (contents c)) \<and> lru_linked c' ps' \<and>
           length (lru_map c') = length (lru_map c) \<and> lru_capacity c' = lru_capacity c"
proof (cases "gm_get (lru_map c) k")
  case None
  then have "map_of (contents c) k = None"
    using gm_get_linked_None [OF l] by (simp add: map_of_eq_None_iff)
  with None l show ?thesis by (auto simp: cache_Get_def abs_get_def)
next
  case (Some a)
  let ?kv = "kv_at (lru_heap c)"
  from gm_get_linked_split [OF l Some] obtain xs ys where s: "ps = xs @ a # ys"
      "contents c = map ?kv xs @ (k, snd (?kv a)) # map ?kv ys"
      "k \<notin> fst ` set (map ?kv (xs @ ys))"
    by blast
  from moveToHead_linked [OF l [unfolded s(1)]] obtain c' where c': "moveToHead c a = Some c'"
      "lru_linked c' (a # xs @ ys)" "same_kv (lru_heap c) (lru_heap c')"
      "lru_map c' = lru_map c" "lru_capacity c' = lru_capacity c"
    by blast
  from c'(2) obtain e where e: "lru_heap c' a = Some e" by (auto simp: lru_linked_def dseg_Cons)
  have val: "ce_value e = snd (?kv a)"
    using same_kv_at [OF c'(3), of a] e by (simp add: kv_at_def)
  have ka: "?kv a = (k, snd (?kv a))"
    using Some gm_get_linked [OF l] by (metis prod.collapse)
  have "contents c' = (k, snd (?kv a)) # map ?kv (xs @ ys)"
    using contents_linked [OF c'(2)] same_kv_at [OF c'(3)] ka by simp
  moreover have "abs_get k (contents c) = (Some (snd (?kv a)), (k, snd (?kv a)) # map ?kv (xs @ ys))"
    using abs_get_split [of k "map ?kv xs" "map ?kv ys"] s(2,3) by simp
  ultimately show ?thesis
    using Some c' e val by (auto simp: cache_Get_def)
qed

lemma evict_linked:
  assumes l: "lru_linked c (qs @ [t])"
  shows "\<exists>c'. evict c = Some ((fst (kv_at (lru_heap c) t), Some (snd (kv_at (lru_heap c) t))), c') \<and>
           lru_linked c' qs \<and> contents c' = butlast (contents c) \<and>
           length (lru_map c') = length (lru_map c) - 1 \<and> lru_capacity c' = lru_capacity c"
proof -
  let ?kv = "kv_at (lru_heap c)" and ?m = "gm_del (fst (kv_at (lru_heap c) t)) (lru_map c)"
  from l obtain e where e: "lru_heap c t = Some e" "ce_prev e = last_or qs None"
      and d: "dseg (lru_heap c) None qs (Some t)"
    by (auto simp: lru_linked_def dseg_append dseg_Cons)
  have kt: "?kv t = (ce_key e, ce_value e)" using e by (simp add: kv_at_def)
  have "gm_get (lru_map c) (ce_key e) = Some t"
    using gm_get_linked [OF l, of "ce_key e" t] kt by simp
  then have in_map: "ce_key e \<in> set (gm_keys (lru_map c))"
    by (metis gm_get_None_iff option.discI)
  have map': "gm_wf ?m" "length ?m = length qs"
    "\<forall>k a. gm_get ?m k = Some a \<longleftrightarrow> a \<in> set qs \<and> fst (?kv a) = k"
    using l in_map kt
    by (auto simp: lru_linked_def gm_wf_del length_gm_del gm_get_del image_iff)
  have tl: "lru_tail c = Some t" using l by (simp add: lru_linked_def)
  show ?thesis
  proof (cases qs rule: rev_cases)
    case Nil
    let ?c = "c\<lparr>lru_map := ?m, lru_head := None, lru_tail := None\<rparr>"
    have "evict c = Some ((ce_key e, Some (ce_value e)), ?c)"
      using l Nil e(1) kt by (simp add: evict_def tl lru_linked_def)
    moreover have "lru_linked ?c []"
      using l map' Nil by (auto simp: lru_linked_def)
    ultimately show ?thesis
      using contents_linked [OF l] contents_linked [of ?c "[]"] kt map'(2) Nil l
      by (auto simp: lru_linked_def)
  next
    case (snoc ws b)
    from l snoc have "b \<notin> set ws" by (simp add: lru_linked_def)
    from dseg_set_next_last [OF d [unfolded snoc] this] obtain h
      where h: "set_next (lru_heap c) b None = Some h" "dseg h None qs None"
      unfolding snoc by blast
    let ?c = "c\<lparr>lru_map := ?m, lru_tail := Some b, lru_heap := h\<rparr>"
    have "lru_head c \<noteq> Some t"
      using l snoc by (cases ws) (auto simp: lru_linked_def)
    then have "evict c = Some ((ce_key e, Some (ce_value e)), ?c)"
      using e h(1) kt snoc by (simp add: evict_def tl)
    moreover have "lru_linked ?c qs"
      using l map' h snoc set_next_same_kv [OF h(1)]
      by (auto simp: lru_linked_def same_kv_def first_or_append comp_def)
    ultimately show ?thesis
      using contents_linked [OF l] contents_linked [of ?c qs] kt map'(2) l
        same_kv_at [OF set_next_same_kv [OF h(1)]]
      by (auto simp: lru_linked_def)
  qed
qed

text \<open>Overwriting the value of an entry.\<close>

lemma dseg_set_value: "h a = Some e \<Longrightarrow> dseg (h(a \<mapsto> e\<lparr>ce_value := v\<rparr>)) p as n = dseg h p as n"
  by (induction as arbitrary: p) (auto simp: dseg_Cons)

lemma set_value_linked:
  assumes l: "lru_linked c (xs @ a # ys)"
  shows "\<exists>h. set_value (lru_heap c) a v = Some h \<and>
           lru_linked (c\<lparr>lru_heap := h\<rparr>) (xs @ a # ys) \<and>
           kv_at h = (kv_at (lru_heap c))(a := (fst (kv_at (lru_heap c) a), v))"
proof -
  from l obtain e where e: "lru_heap c a = Some e"
    by (auto simp: lru_linked_def dseg_append dseg_Cons)
  let ?h = "(lru_heap c)(a \<mapsto> e\<lparr>ce_value := v\<rparr>)"
  have kv: "kv_at ?h = (kv_at (lru_heap c))(a := (fst (kv_at (lru_heap c) a), v))"
    using e by (auto simp: kv_at_def fun_eq_iff)
  then have fsts: "fst \<circ> kv_at ?h = fst \<circ> kv_at (lru_heap c)"
    by (auto simp: fun_eq_iff)
  then have "\<And>b. fst (kv_at ?h b) = fst (kv_at (lru_heap c) b)"
    by (metis comp_apply)
  with l e fsts dseg_set_value [of "lru_heap c" a e v] have "lru_linked (c\<lparr>lru_heap := ?h\<rparr>) (xs @ a # ys)"
    by (auto simp: lru_linked_def)
  with kv e show ?thesis by (auto simp: set_value_def)
qed

text \<open>A new entry in front of the list, before any eviction.\<close>

lemma push_front_heap:
  assumes "dseg h None ps None" and "a \<notin> set ps" "distinct ps" and "h a = Some e"
    and "ce_prev e = None" "ce_next e = None"
  shows "case ps of
      [] \<Rightarrow> dseg h None [a] None
    | b # bs \<Rightarrow> \<exists>h1 h2. set_next h a (Some b) = Some h1 \<and> set_prev h1 b (Some a) = Some h2 \<and>
                 dseg h2 None (a # ps) None \<and> same_kv h h2"
proof (cases ps)
  case Nil
  with assms show ?thesis by (simp add: dseg_Cons)
next
  case (Cons b bs)
  let ?h1 = "h(a \<mapsto> e\<lparr>ce_next := Some b\<rparr>)"
  have h1: "set_next h a (Some b) = Some ?h1" using assms(4) by (simp add: set_next_def)
  have "dseg ?h1 None ps None = dseg h None ps None"
    using assms(2) by (intro dseg_cong) auto
  with assms(1) Cons have seg: "dseg ?h1 None (b # bs) None" by simp
  then obtain h2 where h2: "set_prev ?h1 b (Some a) = Some h2" "dseg h2 (Some a) (b # bs) None"
    using dseg_set_prev_first [OF seg] Cons assms(3) by auto
  have "h2 a = ?h1 a"
    using set_prev_other [OF h2(1)] assms(2) Cons by auto
  with h2(2) assms(5) Cons have "dseg h2 None (a # ps) None"
    by (simp add: dseg_Cons)
  moreover have "same_kv h h2"
    using set_next_same_kv [OF h1] set_prev_same_kv [OF h2(1)] by (simp add: same_kv_def)
  ultimately show ?thesis using h1 h2(1) Cons by auto
qed

lemma cache_Put_old:
  assumes l: "lru_linked c ps" and g: "gm_get (lru_map c) k = Some a"
  shows "\<exists>c' ps'. cache_Put k v c = Some c' \<and> contents c' = abs_put (lru_capacity c) k v (contents c) \<and>
           lru_linked c' ps' \<and> length (lru_map c') = length (lru_map c) \<and>
           lru_capacity c' = lru_capacity c"
proof -
  let ?kv = "kv_at (lru_heap c)"
  from gm_get_linked_split [OF l g] obtain xs ys where s: "ps = xs @ a # ys"
      "contents c = map ?kv xs @ (k, snd (?kv a)) # map ?kv ys"
      "k \<notin> fst ` set (map ?kv (xs @ ys))"
    by blast
  from set_value_linked [OF l [unfolded s(1)]] obtain h where h: "set_value (lru_heap c) a v = Some h"
      "lru_linked (c\<lparr>lru_heap := h\<rparr>) (xs @ a # ys)" "kv_at h = ?kv(a := (fst (?kv a), v))"
    by blast
  from moveToHead_linked [OF h(2)] obtain c' where c':
      "moveToHead (c\<lparr>lru_heap := h\<rparr>) a = Some c'" "lru_linked c' (a # xs @ ys)"
      "same_kv h (lru_heap c')" "lru_map c' = lru_map c" "lru_capacity c' = lru_capacity c"
    by auto
  have "fst (?kv a) = k" using g gm_get_linked [OF l] by blast
  moreover have "a \<notin> set (xs @ ys)" using l s(1) by (auto simp: lru_linked_def)
  ultimately have "contents c' = (k, v) # map ?kv (xs @ ys)"
    using contents_linked [OF c'(2)] same_kv_at [OF c'(3)] h(3) by auto
  with abs_put_split [of k "map ?kv xs" "map ?kv ys"] s(2,3)
  have "contents c' = abs_put (lru_capacity c) k v (contents c)" by simp
  with g h(1) c' show ?thesis by (auto simp: cache_Put_def)
qed

lemma new_kv_at: "kv_at (h(a \<mapsto> \<lparr>ce_value = v, ce_next = n, ce_prev = p, ce_key = k\<rparr>)) = (kv_at h)(a := (k, v))"
  by (auto simp: kv_at_def)

text \<open>An entry linked in front of the list, in whatever way the links are set.\<close>

lemma linked_in_front:
  assumes l: "lru_linked c ps" and g: "gm_get (lru_map c) k = None" and h: "dseg h None (lru_fresh c # ps) None"
      "same_kv ((lru_heap c)(lru_fresh c \<mapsto> \<lparr>ce_value = v, ce_next = None, ce_prev = None, ce_key = k\<rparr>)) h"
  shows "lru_linked (c\<lparr>lru_map := gm_set k (lru_fresh c) (lru_map c), lru_fresh := Suc (lru_fresh c), lru_heap := h,
        lru_head := Some (lru_fresh c), lru_tail := last_or (lru_fresh c # ps) None\<rparr>) (lru_fresh c # ps)"
proof -
  let ?a = "lru_fresh c" and ?m = "gm_set k (lru_fresh c) (lru_map c)"
  have fresh: "?a \<notin> set ps" using l dseg_mapped by (fastforce simp: lru_linked_def)
  have knew: "k \<notin> set (gm_keys (lru_map c))" using g gm_get_None_iff [of "lru_map c" k] by simp
  have m: "gm_wf ?m" "length ?m = Suc (length (lru_map c))"
    using l knew by (simp_all add: lru_linked_def gm_wf_set length_gm_set)
  have d: "distinct ps" using l by (simp add: lru_linked_def)
  have kva: "fst (kv_at h ?a) = k"
    using same_kv_at [OF h(2), of ?a] by (simp add: new_kv_at)
  have old: "kv_at h b = kv_at (lru_heap c) b" "fst (kv_at (lru_heap c) b) \<noteq> k"
    if b: "b \<in> set ps" for b
  proof -
    have "b \<noteq> ?a" using b fresh by blast
    then show "kv_at h b = kv_at (lru_heap c) b"
      by (simp only: same_kv_at [OF h(2)] new_kv_at fun_upd_other not_False_eq_True)
    show "fst (kv_at (lru_heap c) b) \<noteq> k"
      using gm_get_linked [OF l, of k b] g b by simp
  qed
  then have keys: "map (fst \<circ> kv_at h) ps = map (fst \<circ> kv_at (lru_heap c)) ps" by simp
  have iff: "gm_get ?m j = Some b \<longleftrightarrow> b \<in> set (?a # ps) \<and> fst (kv_at h b) = j" for j b
  proof (cases "j = k")
    case True
    with kva old show ?thesis by (auto simp: gm_get_set)
  next
    case False
    with kva old gm_get_linked [OF l, of j b] show ?thesis by (auto simp: gm_get_set)
  qed
  have "k \<notin> (fst \<circ> kv_at (lru_heap c)) ` set ps"
  proof
    assume "k \<in> (fst \<circ> kv_at (lru_heap c)) ` set ps"
    then obtain b where "b \<in> set ps" "fst (kv_at (lru_heap c) b) = k"
      by (elim imageE) simp
    with old(2) show False by simp
  qed
  moreover have "distinct (map (fst \<circ> kv_at (lru_heap c)) ps)"
    using l by (simp only: lru_linked_def)
  ultimately have "distinct (map (fst \<circ> kv_at h) (?a # ps))"
    unfolding list.map distinct.simps keys by (simp only: set_map kva comp_apply [of fst "kv_at h"] not_False_eq_True simp_thms)
  moreover have "h b = None" if "Suc ?a \<le> b" for b
    using h(2) l that by (auto simp: same_kv_def lru_linked_def)
  ultimately show ?thesis
    using iff m d fresh h(1) l unfolding lru_linked_def by simp
qed

lemma push_front_linked:
  assumes l: "lru_linked c ps" and g: "gm_get (lru_map c) k = None"
  shows "\<exists>c1. cache_Put k v c =
             (if lru_capacity c < int (Suc (length (lru_map c)))
              then map_option snd (evict c1) else Some c1) \<and>
           lru_linked c1 (lru_fresh c # ps) \<and> contents c1 = (k, v) # contents c \<and>
           length (lru_map c1) = Suc (length (lru_map c)) \<and> lru_capacity c1 = lru_capacity c"
proof -
  let ?a = "lru_fresh c" and ?m = "gm_set k (lru_fresh c) (lru_map c)"
  let ?e = "\<lparr>ce_value = v, ce_next = None, ce_prev = None, ce_key = k\<rparr>"
  let ?h0 = "(lru_heap c)(?a \<mapsto> ?e)"
  have fresh: "?a \<notin> set ps" using l dseg_mapped by (fastforce simp: lru_linked_def)
  have knew: "k \<notin> set (gm_keys (lru_map c))" using g gm_get_None_iff [of "lru_map c" k] by simp
  have m: "gm_wf ?m" "length ?m = Suc (length (lru_map c))"
    using l knew by (simp_all add: lru_linked_def gm_wf_set length_gm_set)
  have "dseg ?h0 None ps None = dseg (lru_heap c) None ps None"
    using fresh by (intro dseg_cong) auto
  with l have d: "dseg ?h0 None ps None" "distinct ps" by (simp_all add: lru_linked_def)
  have kv0: "kv_at ?h0 = (kv_at (lru_heap c))(?a := (k, v))" by (rule new_kv_at)
  note linked = linked_in_front [OF l g, where v = v]
  have con: "contents c1 = (k, v) # contents c"
    if "lru_linked c1 (?a # ps)" "same_kv ?h0 (lru_heap c1)" for c1
    using contents_linked [OF that(1)] contents_linked [OF l] same_kv_at [OF that(2)] kv0 fresh
    by auto
  show ?thesis
  proof (cases ps)
    case Nil
    let ?c1 = "c\<lparr>lru_map := ?m, lru_fresh := Suc ?a, lru_heap := ?h0,
        lru_head := Some ?a, lru_tail := last_or (?a # ps) None\<rparr>"
    have "lru_linked ?c1 (?a # ps)"
      using linked [of ?h0] Nil by (simp add: dseg_Cons)
    moreover have "lru_head c = None" using l Nil by (simp add: lru_linked_def)
    ultimately show ?thesis
      using g m(2) Nil con [of ?c1] by (intro exI [of _ ?c1]) (simp add: cache_Put_def Let_def)
  next
    case (Cons b bs)
    obtain h1 h2 where h: "set_next ?h0 ?a (Some b) = Some h1" "set_prev h1 b (Some ?a) = Some h2"
        "dseg h2 None (?a # ps) None" "same_kv ?h0 h2"
      using push_front_heap [OF d(1) fresh d(2), of ?e] Cons by auto
    let ?c1 = "c\<lparr>lru_map := ?m, lru_fresh := Suc ?a, lru_heap := h2,
        lru_head := Some ?a, lru_tail := last_or (?a # ps) None\<rparr>"
    have ends: "lru_head c = Some b" "lru_tail c = last_or (?a # ps) None"
      using l Cons by (simp_all add: lru_linked_def)
    have "c\<lparr>lru_map := ?m, lru_fresh := Suc ?a, lru_heap := h2, lru_head := Some ?a\<rparr> = ?c1"
      using ends(2) by (cases c) simp
    with ends(1) g m(2) h linked [OF h(3,4)] con [of ?c1] show ?thesis
      by (intro exI [of _ ?c1]) (simp add: cache_Put_def Let_def)
  qed
qed

lemma cache_Put_new:
  assumes l: "lru_linked c ps" and g: "gm_get (lru_map c) k = None"
  shows "\<exists>c' ps'. cache_Put k v c = Some c' \<and> contents c' = abs_put (lru_capacity c) k v (contents c) \<and>
           lru_linked c' ps' \<and> lru_capacity c' = lru_capacity c \<and>
           (lru_capacity c < int (Suc (length (lru_map c))) \<longrightarrow>
              length (lru_map c') = length (lru_map c)) \<and>
           length (lru_map c') \<le> Suc (length (lru_map c))"
proof -
  from push_front_linked [OF l g, of v] obtain c1 where c1:
      "cache_Put k v c = (if lru_capacity c < int (Suc (length (lru_map c)))
         then map_option snd (evict c1) else Some c1)"
      "lru_linked c1 (lru_fresh c # ps)" "contents c1 = (k, v) # contents c"
      "length (lru_map c1) = Suc (length (lru_map c))" "lru_capacity c1 = lru_capacity c"
    by blast
  have new: "k \<notin> fst ` set (contents c)" "length (contents c) = length (lru_map c)"
    using g gm_get_linked_None [OF l] length_contents [OF l] by simp_all
  obtain qs t where qt: "lru_fresh c # ps = qs @ [t]" by (metis list.distinct(1) rev_exhaust)
  from evict_linked [OF c1(2) [unfolded qt]] obtain c2 where c2:
      "map_option snd (evict c1) = Some c2" "lru_linked c2 qs" "contents c2 = butlast (contents c1)"
      "length (lru_map c2) = length (lru_map c)" "lru_capacity c2 = lru_capacity c"
    using c1(4,5) by auto
  show ?thesis
  proof (cases "lru_capacity c < int (Suc (length (lru_map c)))")
    case True
    with c1(1) c2 c1(3) new show ?thesis by (auto simp: abs_put_def)
  next
    case False
    with c1 new show ?thesis by (auto simp: abs_put_def)
  qed
qed

lemma abs_get_keys: "fst ` set (snd (abs_get k xs)) = fst ` set xs"
  by (force simp: abs_get_def delete_conv' AList.delete_eq map_of_eq_None_iff
      dest: map_of_SomeD split: option.splits)

text \<open>The methods on a well-formed cache: none panics, each does what the abstract cache does.\<close>

lemma lru_ok_Get:
  assumes "lru_ok c"
  shows "\<exists>c'. cache_Get k c = Some (fst (abs_get k (contents c)), c') \<and>
           contents c' = snd (abs_get k (contents c)) \<and> lru_ok c' \<and>
           lru_capacity c' = lru_capacity c"
  using assms cache_Get_linked unfolding lru_ok_def by metis

lemma lru_ok_Put:
  assumes "lru_ok c"
  shows "\<exists>c'. cache_Put k v c = Some c' \<and> contents c' = abs_put (lru_capacity c) k v (contents c) \<and>
           lru_ok c' \<and> lru_capacity c' = lru_capacity c"
proof -
  from assms obtain ps where l: "lru_linked c ps"
      and len: "int (length (lru_map c)) \<le> max 0 (lru_capacity c)"
    by (auto simp: lru_ok_def)
  show ?thesis
  proof (cases "gm_get (lru_map c) k")
    case None
    from cache_Put_new [OF l None, of v] len show ?thesis
      by (force simp: lru_ok_def)
  next
    case (Some a)
    from cache_Put_old [OF l Some, of v] len show ?thesis
      by (force simp: lru_ok_def)
  qed
qed

lemma lru_ok_Evict:
  assumes "lru_ok c"
  shows "\<exists>c'. cache_Evict c = Some (fst (abs_evict (contents c)), c') \<and>
           contents c' = snd (abs_evict (contents c)) \<and> lru_ok c' \<and>
           lru_capacity c' = lru_capacity c"
proof -
  from assms obtain ps where l: "lru_linked c ps"
      and len: "int (length (lru_map c)) \<le> max 0 (lru_capacity c)"
    by (auto simp: lru_ok_def)
  show ?thesis
  proof (cases ps rule: rev_cases)
    case Nil
    with l have "lru_tail c = None" "contents c = []"
      by (simp_all add: lru_linked_def contents_linked [OF l])
    with assms show ?thesis by (simp add: cache_Evict_def abs_evict_def)
  next
    case (snoc qs t)
    with l have "lru_tail c = Some t" by (simp add: lru_linked_def)
    with evict_linked [OF l [unfolded snoc]] contents_linked [OF l] len snoc show ?thesis
      by (fastforce simp: cache_Evict_def abs_evict_def lru_ok_def)
  qed
qed

lemma lru_ok_Has: "lru_ok c \<Longrightarrow> cache_Has k c \<longleftrightarrow> k \<in> fst ` set (contents c)"
  using cache_Has_contents by (auto simp: lru_ok_def)

lemma lru_ok_contents:
  "lru_ok c \<Longrightarrow> distinct (map fst (contents c)) \<and> int (length (contents c)) \<le> max 0 (lru_capacity c)"
  using distinct_contents length_contents unfolding lru_ok_def by metis

section \<open>Facts about the abstract cache\<close>

text \<open>The keys used more recently than \<open>k\<close>.\<close>

definition ahead :: "string \<Rightarrow> 'v lru_list \<Rightarrow> string set" where
  "ahead k xs = fst ` set (takeWhile (\<lambda>p. fst p \<noteq> k) xs)"

lemma ahead_Cons: "ahead k (p # xs) = (if fst p = k then {} else insert (fst p) (ahead k xs))"
  by (auto simp: ahead_def)

lemma ahead_notin: "k \<notin> ahead k xs"
  by (auto simp: ahead_def dest: set_takeWhileD)

lemma ahead_delete: "j \<noteq> k \<Longrightarrow> ahead k (AList.delete j xs) \<subseteq> ahead k xs"
proof (induction xs)
  case (Cons p xs)
  then show ?case by (cases p) (auto simp: ahead_Cons)
qed simp

lemma map_of_butlast:
  assumes "distinct (map fst xs)" and "map_of xs k = Some v" and "card (ahead k xs) < length xs - 1"
  shows "map_of (butlast xs) k = Some v \<and> ahead k (butlast xs) = ahead k xs"
  using assms
proof (induction xs)
  case (Cons p xs)
  show ?case
  proof (cases "fst p = k")
    case True
    with Cons.prems show ?thesis by (cases xs) (auto simp: ahead_Cons)
  next
    case False
    with Cons.prems have "fst p \<notin> ahead k xs"
      by (auto simp: ahead_def dest!: set_takeWhileD)
    moreover have "finite (ahead k xs)" by (simp add: ahead_def)
    ultimately have "card (ahead k xs) < length xs - 1" and "map_of xs k = Some v" and "xs \<noteq> []"
      using False Cons.prems by (auto simp: ahead_Cons split: if_splits prod.splits)
    with Cons False show ?thesis by (auto simp: ahead_Cons)
  qed
qed simp

text \<open>The operations of a client, and a run of them on the abstract list.\<close>

datatype 'v cache_op = OGet string | OPut string 'v

primrec op_key :: "'v cache_op \<Rightarrow> string" where
  "op_key (OGet j) = j"
| "op_key (OPut j v) = j"

primrec abs_step :: "int \<Rightarrow> 'v cache_op \<Rightarrow> 'v lru_list \<Rightarrow> 'v lru_list" where
  "abs_step cap (OGet j) xs = snd (abs_get j xs)"
| "abs_step cap (OPut j v) xs = abs_put cap j v xs"

lemma ahead_abs_get:
  assumes "map_of xs k = Some v"
  shows "map_of (snd (abs_get j xs)) k = Some v \<and> ahead k (snd (abs_get j xs)) \<subseteq> insert j (ahead k xs) - {k}"
proof (cases "j = k")
  case True
  with assms show ?thesis by (simp add: abs_get_def ahead_Cons)
next
  case False
  with assms ahead_delete [of j k xs] ahead_notin [of k xs] show ?thesis
    by (auto simp: abs_get_def delete_conv' ahead_Cons split: option.splits)
qed

lemma ahead_abs_put:
  assumes d: "distinct (map fst xs)" "int (length xs) \<le> max 0 cap" and k: "map_of xs k = Some v"
    and j: "j \<noteq> k" and room: "card (insert j (ahead k xs)) < nat cap"
  shows "map_of (abs_put cap j w xs) k = Some v \<and>
         ahead k (abs_put cap j w xs) \<subseteq> insert j (ahead k xs) - {k}"
proof (cases "j \<in> fst ` set xs")
  case True
  with k j ahead_delete [of j k xs] ahead_notin [of k xs] show ?thesis
    by (auto simp: abs_put_def delete_conv' ahead_Cons)
next
  case False
  show ?thesis
  proof (cases "cap < int (Suc (length xs))")
    case True
    with d(2) room have len: "length xs = nat cap" by auto
    let ?ys = "(j, w) # xs"
    have "distinct (map fst ?ys)" using d(1) False by auto
    moreover have "map_of ?ys k = Some v" using k j by simp
    moreover have "card (ahead k ?ys) < length ?ys - 1"
      using room len j by (simp add: ahead_Cons)
    ultimately have "map_of (butlast ?ys) k = Some v \<and> ahead k (butlast ?ys) = ahead k ?ys"
      by (rule map_of_butlast)
    with True False j ahead_notin [of k xs] show ?thesis
      by (simp add: abs_put_def ahead_Cons)
  next
    case no_evict: False
    with False k j ahead_notin [of k xs] show ?thesis
      by (auto simp: abs_put_def ahead_Cons)
  qed
qed

section \<open>The interface of a cache\<close>

text \<open>
  What the proxy relies on: each method of a well-formed cache returns (no panic), answers
  and changes the contents as the abstract cache does, and keeps the cache well-formed with
  the same capacity.
\<close>

locale lru_store =
  fixes get :: "string \<Rightarrow> 's \<Rightarrow> ('v option \<times> 's) option"
    and put :: "string \<Rightarrow> 'v \<Rightarrow> 's \<Rightarrow> 's option"
    and has :: "string \<Rightarrow> 's \<Rightarrow> bool"
    and evictl :: "'s \<Rightarrow> ((string \<times> 'v option) \<times> 's) option"
    and ok :: "'s \<Rightarrow> bool"
    and abs :: "'s \<Rightarrow> 'v lru_list"
    and cap :: "'s \<Rightarrow> int"
  assumes abs_wf: "ok s \<Longrightarrow> distinct (map fst (abs s)) \<and> int (length (abs s)) \<le> max 0 (cap s)"
    and get_law: "ok s \<Longrightarrow> \<exists>s'. get k s = Some (fst (abs_get k (abs s)), s') \<and>
           abs s' = snd (abs_get k (abs s)) \<and> ok s' \<and> cap s' = cap s"
    and put_law: "ok s \<Longrightarrow> \<exists>s'. put k v s = Some s' \<and> abs s' = abs_put (cap s) k v (abs s) \<and>
           ok s' \<and> cap s' = cap s"
    and has_law: "ok s \<Longrightarrow> has k s \<longleftrightarrow> k \<in> fst ` set (abs s)"
    and evict_law: "ok s \<Longrightarrow> \<exists>s'. evictl s = Some (fst (abs_evict (abs s)), s') \<and>
           abs s' = snd (abs_evict (abs s)) \<and> ok s' \<and> cap s' = cap s"
begin

text \<open>A run of operations, each answer discarded.\<close>

primrec run :: "'v cache_op list \<Rightarrow> 's \<Rightarrow> 's option" where
  "run [] s = Some s"
| "run (x # xs) s =
     Option.bind (case x of OGet k \<Rightarrow> map_option snd (get k s) | OPut k v \<Rightarrow> put k v s) (run xs)"

lemma step_law:
  assumes "ok s"
  shows "\<exists>s'. (case x of OGet k \<Rightarrow> map_option snd (get k s) | OPut k v \<Rightarrow> put k v s) = Some s' \<and>
           abs s' = abs_step (cap s) x (abs s) \<and> ok s' \<and> cap s' = cap s"
proof (cases x)
  case (OGet k)
  with get_law [OF assms, of k] show ?thesis by auto
next
  case (OPut k v)
  with put_law [OF assms, of k v] show ?thesis by auto
qed

lemma run_law:
  "ok s \<Longrightarrow> \<exists>s'. run ops s = Some s' \<and> abs s' = fold (abs_step (cap s)) ops (abs s) \<and> ok s' \<and>
     cap s' = cap s"
proof (induction ops arbitrary: s)
  case (Cons x xs)
  from step_law [OF Cons.prems, of x] obtain s1 where s1:
      "(case x of OGet k \<Rightarrow> map_option snd (get k s) | OPut k v \<Rightarrow> put k v s) = Some s1"
      "abs s1 = abs_step (cap s) x (abs s)" "ok s1" "cap s1 = cap s"
    by blast
  from Cons.IH [OF s1(3)] s1 show ?case by auto
qed simp

text \<open>
  Recency: an entry survives every run that does not overwrite it and touches fewer other
  keys than there is room for.
\<close>

lemma run_keeps:
  assumes "ok s" and "map_of (abs s) k = Some v" and "ahead k (abs s) \<subseteq> T - {k}" and "finite T"
    and "op_key ` set ops \<subseteq> T" and "\<forall>w. OPut k w \<notin> set ops" and "card (T - {k}) < nat (cap s)"
  shows "\<exists>s'. run ops s = Some s' \<and> map_of (abs s') k = Some v \<and> ok s'"
  using assms
proof (induction ops arbitrary: s)
  case (Cons x xs)
  from step_law [OF Cons.prems(1), of x] obtain s1 where s1:
      "(case x of OGet k \<Rightarrow> map_option snd (get k s) | OPut k v \<Rightarrow> put k v s) = Some s1"
      "abs s1 = abs_step (cap s) x (abs s)" "ok s1" "cap s1 = cap s"
    by blast
  have "map_of (abs s1) k = Some v \<and> ahead k (abs s1) \<subseteq> insert (op_key x) (ahead k (abs s)) - {k}"
  proof (cases x)
    case (OGet j)
    with ahead_abs_get [OF Cons.prems(2), of j] s1(2) show ?thesis by simp
  next
    case (OPut j w)
    with Cons.prems have "j \<noteq> k" and "insert j (ahead k (abs s)) \<subseteq> T - {k}" by auto
    moreover from this(2) Cons.prems(4,7) have "card (insert j (ahead k (abs s))) < nat (cap s)"
      by (meson card_mono finite_Diff le_less_trans)
    ultimately show ?thesis
      using ahead_abs_put [of "abs s" "cap s" k v j w] abs_wf [OF Cons.prems(1)] Cons.prems(2)
        s1(2) OPut by simp
  qed
  with Cons.prems(3,5) have "map_of (abs s1) k = Some v" and "ahead k (abs s1) \<subseteq> T - {k}" by auto
  from Cons.IH [OF s1(3) this Cons.prems(4)] Cons.prems(5-7) s1(1,4) show ?case by auto
qed simp

lemma put_then_get:
  assumes ok: "ok s" and ops: "\<forall>w. OPut k w \<notin> set ops"
    and room: "card (op_key ` set ops - {k}) < nat (cap s)"
  shows "\<exists>s1 s2 s3. put k v s = Some s1 \<and> run ops s1 = Some s2 \<and> get k s2 = Some (Some v, s3)"
proof -
  from put_law [OF ok, of k v] obtain s1 where s1: "put k v s = Some s1"
      "abs s1 = abs_put (cap s) k v (abs s)" "ok s1" "cap s1 = cap s"
    by blast
  from room have "0 < cap s" by simp
  then have "map_of (abs s1) k = Some v" and "ahead k (abs s1) = {}"
    using s1(2) abs_wf [OF ok] by (auto simp: abs_put_def ahead_Cons)
  then obtain s2 where s2: "run ops s1 = Some s2" "map_of (abs s2) k = Some v" "ok s2"
    using run_keeps [OF s1(3), of k v "op_key ` set ops" ops] ops room s1(4) by auto
  with get_law [OF s2(3), of k] s1(1) show ?thesis by (auto simp: abs_get_def)
qed

end

interpretation lru: lru_store cache_Get cache_Put cache_Has cache_Evict lru_ok contents lru_capacity
  by unfold_locales
    (simp_all add: lru_ok_contents lru_ok_Get lru_ok_Put lru_ok_Has lru_ok_Evict)

section \<open>Properties of the cache\<close>

text \<open>Any sequence of calls of the exported methods, with the answers they return.\<close>

datatype 'v cache_call = CGet string | CPut string 'v | CHas string | CEvict

datatype 'v cache_answer = AGet "'v option" | APut | AHas bool | AEvict string "'v option"

primrec call_cache :: "'v cache_call \<Rightarrow> 'v LRUCache \<Rightarrow> ('v cache_answer \<times> 'v LRUCache) option" where
  "call_cache (CGet k) c = map_option (map_prod AGet id) (cache_Get k c)"
| "call_cache (CPut k v) c = map_option (Pair APut) (cache_Put k v c)"
| "call_cache (CHas k) c = Some (AHas (cache_Has k c), c)"
| "call_cache CEvict c = map_option (map_prod (\<lambda>(k, v). AEvict k v) id) (cache_Evict c)"

primrec cache_calls ::
  "'v cache_call list \<Rightarrow> 'v LRUCache \<Rightarrow> ('v cache_answer list \<times> 'v LRUCache) option" where
  "cache_calls [] c = Some ([], c)"
| "cache_calls (x # xs) c = do {
     (r, c') \<leftarrow> call_cache x c;
     (rs, c'') \<leftarrow> cache_calls xs c';
     Some (r # rs, c'')
   }"

primrec abs_call :: "int \<Rightarrow> 'v cache_call \<Rightarrow> 'v lru_list \<Rightarrow> 'v cache_answer \<times> 'v lru_list" where
  "abs_call cap (CGet k) xs = map_prod AGet id (abs_get k xs)"
| "abs_call cap (CPut k v) xs = (APut, abs_put cap k v xs)"
| "abs_call cap (CHas k) xs = (AHas (k \<in> fst ` set xs), xs)"
| "abs_call cap CEvict xs = map_prod (\<lambda>(k, v). AEvict k v) id (abs_evict xs)"

primrec abs_calls ::
  "int \<Rightarrow> 'v cache_call list \<Rightarrow> 'v lru_list \<Rightarrow> 'v cache_answer list \<times> 'v lru_list" where
  "abs_calls cap [] xs = ([], xs)"
| "abs_calls cap (y # ys) xs =
     (let (r, xs') = abs_call cap y xs; (rs, xs'') = abs_calls cap ys xs' in (r # rs, xs''))"

text \<open>The same run without the answers, of \<open>Get\<close> and \<open>Put\<close> only.\<close>

primrec cache_run :: "'v cache_op list \<Rightarrow> 'v LRUCache \<Rightarrow> 'v LRUCache option" where
  "cache_run [] c = Some c"
| "cache_run (x # xs) c =
     Option.bind (case x of OGet k \<Rightarrow> map_option snd (cache_Get k c) | OPut k v \<Rightarrow> cache_Put k v c)
       (cache_run xs)"

lemma cache_run_eq: "cache_run xs = lru.run xs"
  by (induction xs) (auto intro!: ext)

lemma call_cache_refines:
  assumes "lru_ok c"
  shows "\<exists>c'. call_cache x c = Some (fst (abs_call (lru_capacity c) x (contents c)), c') \<and>
           contents c' = snd (abs_call (lru_capacity c) x (contents c)) \<and> lru_ok c' \<and>
           lru_capacity c' = lru_capacity c"
proof (cases x)
  case (CGet k)
  with lru_ok_Get [OF assms, of k] show ?thesis by (auto simp: map_prod_def split_beta)
next
  case (CPut k v)
  with lru_ok_Put [OF assms, of k v] show ?thesis by auto
next
  case (CHas k)
  with assms lru_ok_Has [OF assms, of k] show ?thesis by simp
next
  case CEvict
  with lru_ok_Evict [OF assms] show ?thesis by (auto simp: map_prod_def split_beta)
qed

lemma cache_calls_refines:
  "lru_ok c \<Longrightarrow>
     \<exists>c'. cache_calls xs c = Some (fst (abs_calls (lru_capacity c) xs (contents c)), c') \<and>
          contents c' = snd (abs_calls (lru_capacity c) xs (contents c)) \<and> lru_ok c' \<and>
          lru_capacity c' = lru_capacity c"
proof (induction xs arbitrary: c)
  case (Cons x xs)
  from call_cache_refines [OF Cons.prems, of x] obtain c1 where c1:
      "call_cache x c = Some (fst (abs_call (lru_capacity c) x (contents c)), c1)"
      "contents c1 = snd (abs_call (lru_capacity c) x (contents c))" "lru_ok c1"
      "lru_capacity c1 = lru_capacity c"
    by blast
  from Cons.IH [OF c1(3)] c1 show ?case by (auto simp: split_beta Let_def)
qed simp

text \<open>C1: Every sequence of calls of the proxy's LRU cache, from an empty cache of any capacity,
  runs without a nil dereference and answers exactly as a most-recently-used-first list of at
  most \<open>capacity\<close> entries that drops its last entry on overflow; the pointer structure is a
  refinement of that list.\<close>

theorem lru_cache_refines:
  "\<exists>c. cache_calls cs (NewLRUCache cap) = Some (fst (abs_calls cap cs []), c) \<and>
       contents c = snd (abs_calls cap cs []) \<and> int (length (lru_map c)) \<le> max 0 cap"
  using cache_calls_refines [OF lru_ok_New, of cs cap] by (auto simp: lru_ok_def)

text \<open>C2: Recency: after \<open>Put(k, v)\<close> on a cache reached by any calls, \<open>Get(k)\<close> still returns \<open>v\<close>
  after any further gets and puts that do not overwrite \<open>k\<close> and use fewer distinct other
  keys than the capacity.\<close>

theorem lru_retains_recent:
  assumes "cache_calls cs (NewLRUCache cap) = Some (rs, c)" and "\<forall>w. OPut k w \<notin> set ops"
    and "card (op_key ` set ops - {k}) < nat cap"
  shows "\<exists>c1 c2 c3. cache_Put k v c = Some c1 \<and> cache_run ops c1 = Some c2 \<and>
           cache_Get k c2 = Some (Some v, c3)"
proof -
  from assms(1) have "lru_ok c" and "lru_capacity c = cap"
    using cache_calls_refines [OF lru_ok_New, of cs cap] by auto
  with lru.put_then_get [of c k ops v] assms(2,3) show ?thesis
    by (simp add: cache_run_eq)
qed

theorem lru_retains_recent_witness:
  "\<exists>c1 c2 c3. cache_Put ''a'' (1::int) (NewLRUCache 2) = Some c1 \<and>
     cache_run [OPut ''b'' 2, OGet ''a'', OGet ''b''] c1 = Some c2 \<and>
     cache_Get ''a'' c2 = Some (Some 1, c3)"
  by (rule lru_retains_recent [of "[]" 2 "[]"]) (auto simp: card_insert_if)

end
