(* ===== verification/Min_Heap.thy ===== *)
theory Min_Heap
  imports Locker_Prelude
begin

text \<open>
  The proxy's binary min-heap of timestamped keys (\<open>mains/proxy.go\<close>, \<open>HeapEntry\<close> and \<open>MinHeap\<close>):
  a slice in heap order, with \<open>heapifyUp\<close> and \<open>heapifyDown\<close> restoring the order after an
  insertion and after the removal of the minimum.

  Timestamps are \<open>int64\<close> in Go; the heap only compares and copies them, so the model keeps
  them as \<open>int\<close>. Slice indices are non-negative and bounded by the slice's length, so they are
  \<open>nat\<close>. Every exported method but \<open>IsEmpty\<close> holds the heap's mutex throughout, so each is one
  function of the state.
\<close>

section \<open>The code\<close>

record HeapEntry =
  timestamp :: int
  he_key :: string

type_synonym MinHeap = "HeapEntry list"

definition NewMinHeap :: MinHeap where
  "NewMinHeap = []"

text \<open>\<open>h.entries[i], h.entries[j] = h.entries[j], h.entries[i]\<close>\<close>

definition swap_entries :: "MinHeap \<Rightarrow> nat \<Rightarrow> nat \<Rightarrow> MinHeap" where
  "swap_entries h i j = h[i := h ! j, j := h ! i]"

function heapifyUp :: "MinHeap \<Rightarrow> nat \<Rightarrow> MinHeap" where
  "heapifyUp h index =
     (if 0 < index then
        let parentIndex = (index - 1) div 2 in
        if timestamp (h ! index) < timestamp (h ! parentIndex)
        then heapifyUp (swap_entries h index parentIndex) parentIndex
        else h
      else h)"
  by pat_completeness auto

termination
  by (relation "measure snd") auto

text \<open>The smallest of a node and its children, as the two comparisons of the loop choose it.\<close>

definition smallest_of :: "MinHeap \<Rightarrow> nat \<Rightarrow> nat" where
  "smallest_of h index =
     (let smallest = index;
          leftChildIndex = 2 * index + 1;
          rightChildIndex = 2 * index + 2;
          smallest =
            (if leftChildIndex < length h \<and>
                timestamp (h ! leftChildIndex) < timestamp (h ! smallest)
             then leftChildIndex else smallest);
          smallest =
            (if rightChildIndex < length h \<and>
                timestamp (h ! rightChildIndex) < timestamp (h ! smallest)
             then rightChildIndex else smallest)
      in smallest)"

lemma smallest_of_cases:
  "smallest_of h i = i \<or>
   (i < smallest_of h i \<and> smallest_of h i < length h \<and>
    (smallest_of h i = 2 * i + 1 \<or> smallest_of h i = 2 * i + 2))"
  by (auto simp: smallest_of_def Let_def)

function heapifyDown :: "MinHeap \<Rightarrow> nat \<Rightarrow> MinHeap" where
  "heapifyDown h index =
     (let smallest = smallest_of h index in
      if smallest \<noteq> index
      then heapifyDown (swap_entries h index smallest) smallest
      else h)"
  by pat_completeness auto

termination
proof (relation "measure (\<lambda>(h, index). length h - index)", goal_cases)
  case (2 h index smallest)
  with smallest_of_cases [of h index] show ?case by (auto simp: swap_entries_def)
qed simp

declare heapifyUp.simps [simp del] heapifyDown.simps [simp del]

definition heap_Insert :: "int \<Rightarrow> string \<Rightarrow> MinHeap \<Rightarrow> MinHeap" where
  "heap_Insert ts key h =
     (let h' = h @ [\<lparr>timestamp = ts, he_key = key\<rparr>] in heapifyUp h' (length h' - 1))"

definition heap_PopMin :: "MinHeap \<Rightarrow> HeapEntry option \<times> MinHeap" where
  "heap_PopMin h =
     (if length h = 0 then (None, h)
      else let m = h ! 0;
               h' = butlast (h[0 := h ! (length h - 1)])
           in (Some m, if 0 < length h' then heapifyDown h' 0 else h'))"

definition heap_Peek :: "MinHeap \<Rightarrow> HeapEntry option" where
  "heap_Peek h = (if length h = 0 then None else Some (h ! 0))"

definition heap_IsEmpty :: "MinHeap \<Rightarrow> bool" where
  "heap_IsEmpty h \<longleftrightarrow> length h = 0"

section \<open>Heap order\<close>

text \<open>No entry is earlier than its parent.\<close>

definition parent :: "nat \<Rightarrow> nat" where
  "parent i = (i - 1) div 2"

abbreviation ts_at :: "MinHeap \<Rightarrow> nat \<Rightarrow> int" where
  "ts_at h i \<equiv> timestamp (h ! i)"

definition heap_ordered :: "MinHeap \<Rightarrow> bool" where
  "heap_ordered h \<longleftrightarrow> (\<forall>i < length h. 0 < i \<longrightarrow> ts_at h (parent i) \<le> ts_at h i)"

text \<open>The order with one entry out of place: it may be earlier than its parent, or later than
  its children, while the parent and the children of that place are in order.\<close>

definition ordered_but_up :: "MinHeap \<Rightarrow> nat \<Rightarrow> bool" where
  "ordered_but_up h j \<longleftrightarrow>
     (\<forall>i < length h. 0 < i \<longrightarrow> i \<noteq> j \<longrightarrow> ts_at h (parent i) \<le> ts_at h i) \<and>
     (\<forall>i < length h. 0 < i \<longrightarrow> parent i = j \<longrightarrow> 0 < j \<longrightarrow> ts_at h (parent j) \<le> ts_at h i)"

definition ordered_but_down :: "MinHeap \<Rightarrow> nat \<Rightarrow> bool" where
  "ordered_but_down h j \<longleftrightarrow>
     (\<forall>i < length h. 0 < i \<longrightarrow> parent i \<noteq> j \<longrightarrow> ts_at h (parent i) \<le> ts_at h i) \<and>
     (\<forall>i < length h. 0 < i \<longrightarrow> parent i = j \<longrightarrow> 0 < j \<longrightarrow> ts_at h (parent j) \<le> ts_at h i)"

lemma length_swap [simp]: "length (swap_entries h i j) = length h"
  by (simp add: swap_entries_def)

lemma nth_swap:
  "i < length h \<Longrightarrow> j < length h \<Longrightarrow>
   swap_entries h i j ! k = (if k = j then h ! i else if k = i then h ! j else h ! k)"
  by (auto simp: swap_entries_def nth_list_update)

lemma mset_swap_entries [simp]:
  "i < length h \<Longrightarrow> j < length h \<Longrightarrow> mset (swap_entries h i j) = mset h"
  by (simp add: swap_entries_def mset_swap)

lemma parent_less: "0 < i \<Longrightarrow> parent i < i"
  unfolding parent_def by arith

lemma parent_eq_iff: "0 < i \<Longrightarrow> parent i = j \<longleftrightarrow> i = 2 * j + 1 \<or> i = 2 * j + 2"
  unfolding parent_def by arith

text \<open>The root is a minimum.\<close>

lemma heap_ordered_root: "heap_ordered h \<Longrightarrow> i < length h \<Longrightarrow> ts_at h 0 \<le> ts_at h i"
proof (induction i rule: less_induct)
  case (less i)
  show ?case
  proof (cases "i = 0")
    case False
    then have "parent i < i" by (simp add: parent_less)
    with less have "ts_at h 0 \<le> ts_at h (parent i)" by simp
    also have "\<dots> \<le> ts_at h i" using less.prems False by (simp add: heap_ordered_def)
    finally show ?thesis .
  qed simp
qed

section \<open>Sifting up\<close>

lemma heapifyUp_unfold:
  "heapifyUp h i =
     (if 0 < i \<and> ts_at h i < ts_at h (parent i)
      then heapifyUp (swap_entries h i (parent i)) (parent i) else h)"
  by (subst heapifyUp.simps) (simp add: Let_def parent_def)

lemma heapifyUp_mset:
  "i < length h \<Longrightarrow> length (heapifyUp h i) = length h \<and> mset (heapifyUp h i) = mset h"
proof (induction i arbitrary: h rule: less_induct)
  case (less i)
  show ?case
  proof (cases "0 < i \<and> ts_at h i < ts_at h (parent i)")
    case True
    with less.prems have p: "parent i < i" "parent i < length h"
      using parent_less [of i] by auto
    with less.IH [of "parent i" "swap_entries h i (parent i)"] less.prems
    have "length (heapifyUp (swap_entries h i (parent i)) (parent i)) = length h \<and>
          mset (heapifyUp (swap_entries h i (parent i)) (parent i)) = mset h"
      by simp
    with True show ?thesis by (subst (1 2) heapifyUp_unfold) simp
  next
    case False
    then have "heapifyUp h i = h" by (subst heapifyUp_unfold) auto
    then show ?thesis by simp
  qed
qed

lemma ordered_but_up_swap:
  assumes o: "ordered_but_up h j" and j: "0 < j" "j < length h"
    and lt: "ts_at h j < ts_at h (parent j)"
  shows "ordered_but_up (swap_entries h j (parent j)) (parent j)"
proof -
  define p s where "p = parent j" and "s = swap_entries h j p"
  have p: "p < length h" "p \<noteq> j" using j parent_less [OF j(1)] by (auto simp: p_def)
  have s: "ts_at s j = ts_at h p" "ts_at s p = ts_at h j"
    "\<And>k. k \<noteq> j \<Longrightarrow> k \<noteq> p \<Longrightarrow> ts_at s k = ts_at h k"
    using p j by (simp_all add: s_def nth_swap)
  have ord: "ts_at h (parent i) \<le> ts_at h i" if "i < length h" "0 < i" "i \<noteq> j" for i
    using o that by (simp add: ordered_but_up_def)
  have child: "ts_at h p \<le> ts_at h i" if "i < length h" "0 < i" "parent i = j" for i
    using o that j by (simp add: ordered_but_up_def p_def)
  have "ts_at s (parent i) \<le> ts_at s i" if i: "i < length h" "0 < i" "i \<noteq> p" for i
  proof (cases "i = j")
    case True
    with s lt show ?thesis by (simp add: p_def)
  next
    case False
    note ord [OF i(1,2) False] and child [OF i(1,2)]
    with False i(3) s lt show ?thesis
      by (cases "parent i = j"; cases "parent i = p") (auto simp: p_def)
  qed
  moreover have "ts_at s (parent p) \<le> ts_at s i"
    if i: "i < length h" "0 < i" "parent i = p" "0 < p" for i
  proof -
    have pp: "parent p \<noteq> j" "parent p \<noteq> p" "i \<noteq> p"
      using parent_less [OF i(4)] parent_less [OF j(1)] i(3) by (auto simp: p_def)
    have "ts_at h (parent p) \<le> ts_at h p" by (rule ord [OF p(1) i(4) p(2)])
    with ord [OF i(1,2)] i(3) s pp show ?thesis by (cases "i = j") auto
  qed
  ultimately show ?thesis
    by (simp add: ordered_but_up_def s_def p_def)
qed

lemma heap_ordered_heapifyUp:
  "ordered_but_up h i \<Longrightarrow> i < length h \<Longrightarrow> heap_ordered (heapifyUp h i)"
proof (induction i arbitrary: h rule: less_induct)
  case (less i)
  show ?case
  proof (cases "0 < i \<and> ts_at h i < ts_at h (parent i)")
    case True
    then have p: "parent i < i" by (simp add: parent_less)
    from True less.prems have "ordered_but_up (swap_entries h i (parent i)) (parent i)"
      by (intro ordered_but_up_swap) auto
    from less.IH [OF p this] p less.prems
    have "heap_ordered (heapifyUp (swap_entries h i (parent i)) (parent i))" by simp
    with True show ?thesis by (subst heapifyUp_unfold) simp
  next
    case False
    then have "heapifyUp h i = h" by (subst heapifyUp_unfold) auto
    moreover have "heap_ordered h"
      using less.prems False unfolding heap_ordered_def ordered_but_up_def by (metis not_less)
    ultimately show ?thesis by simp
  qed
qed

lemma heap_ordered_append:
  assumes "heap_ordered h"
  shows "ordered_but_up (h @ [e]) (length h)"
proof -
  have "ts_at (h @ [e]) (parent i) \<le> ts_at (h @ [e]) i"
    if "i < Suc (length h)" "0 < i" "i \<noteq> length h" for i
    using assms that parent_less [OF that(2)] by (simp add: heap_ordered_def nth_append)
  moreover have False if "i < Suc (length h)" "0 < i" "parent i = length h" for i
    using that parent_less [OF that(2)] by simp
  ultimately show ?thesis by (auto simp: ordered_but_up_def)
qed

section \<open>Sifting down\<close>

lemma heapifyDown_stop: "smallest_of h i = i \<Longrightarrow> heapifyDown h i = h"
  by (subst heapifyDown.simps) (simp add: Let_def)

lemma heapifyDown_step:
  "smallest_of h i = s \<Longrightarrow> s \<noteq> i \<Longrightarrow> heapifyDown h i = heapifyDown (swap_entries h i s) s"
  by (subst heapifyDown.simps) (simp add: Let_def)

lemma smallest_of_child:
  assumes "smallest_of h i \<noteq> i"
  shows "i < smallest_of h i" and "smallest_of h i < length h" and "parent (smallest_of h i) = i"
    and "ts_at h (smallest_of h i) < ts_at h i"
    and "\<And>k. k < length h \<Longrightarrow> 0 < k \<Longrightarrow> parent k = i \<Longrightarrow> ts_at h (smallest_of h i) \<le> ts_at h k"
  using assms smallest_of_cases [of h i]
  by (auto simp: parent_eq_iff) (auto simp: smallest_of_def Let_def split: if_splits)

lemma smallest_of_self:
  assumes "smallest_of h i = i" and "k < length h" and "0 < k" and "parent k = i"
  shows "ts_at h i \<le> ts_at h k"
  using assms by (auto simp: parent_eq_iff) (auto simp: smallest_of_def Let_def split: if_splits)

lemma heapifyDown_mset:
  "length (heapifyDown h i) = length h \<and> mset (heapifyDown h i) = mset h"
proof (induction "length h - i" arbitrary: h i rule: less_induct)
  case less
  show ?case
  proof (cases "smallest_of h i = i")
    case True
    then show ?thesis by (simp add: heapifyDown_stop)
  next
    case False
    let ?s = "smallest_of h i"
    have s: "i < ?s" "?s < length h" using smallest_of_child [OF False] by auto
    with less [of "swap_entries h i ?s" ?s] heapifyDown_step [OF refl False] show ?thesis
      by simp
  qed
qed

lemma ordered_but_down_swap:
  assumes o: "ordered_but_down h j" and ne: "smallest_of h j \<noteq> j"
  shows "ordered_but_down (swap_entries h j (smallest_of h j)) (smallest_of h j)"
proof -
  define m s where "m = smallest_of h j" and "s = swap_entries h j m"
  note child = smallest_of_child [OF ne, folded m_def]
  from child(1,2) have s: "ts_at s j = ts_at h m" "ts_at s m = ts_at h j"
    "\<And>k. k \<noteq> j \<Longrightarrow> k \<noteq> m \<Longrightarrow> ts_at s k = ts_at h k"
    by (simp_all add: s_def nth_swap)
  have ord: "ts_at h (parent i) \<le> ts_at h i" if "i < length h" "0 < i" "parent i \<noteq> j" for i
    using o that by (simp add: ordered_but_down_def)
  have grand: "ts_at h (parent j) \<le> ts_at h i" if "i < length h" "0 < i" "parent i = j" "0 < j" for i
    using o that by (simp add: ordered_but_down_def)
  have m0: "0 < m" using child(1) by simp
  have "ts_at s (parent i) \<le> ts_at s i" if i: "i < length h" "0 < i" "parent i \<noteq> m" for i
  proof (cases "i = j")
    case True
    then have "parent i \<noteq> j" "parent i \<noteq> m"
      using parent_less [OF i(2)] child(1) by auto
    with True s grand [OF child(2) m0 child(3)] i(2) show ?thesis by simp
  next
    case False
    show ?thesis
    proof (cases "parent i = j")
      case True
      with child(4) child(5) [OF i(1,2)] s False i(3) show ?thesis by (cases "i = m") auto
    next
      case par: False
      then have "i \<noteq> m" using child(3) by auto
      with par False i s ord [OF i(1,2)] show ?thesis by simp
    qed
  qed
  moreover have "ts_at s (parent m) \<le> ts_at s i" if i: "i < length h" "0 < i" "parent i = m" for i
  proof -
    have "i \<noteq> j" "i \<noteq> m" using parent_less [OF i(2)] i(3) child(1) by auto
    moreover have "ts_at h m \<le> ts_at h i"
      using ord [OF i(1,2)] i(3) child(1) by simp
    ultimately show ?thesis using s child(3) by simp
  qed
  ultimately show ?thesis
    by (simp add: ordered_but_down_def s_def m_def)
qed

lemma heap_ordered_heapifyDown: "ordered_but_down h i \<Longrightarrow> heap_ordered (heapifyDown h i)"
proof (induction "length h - i" arbitrary: h i rule: less_induct)
  case less
  show ?case
  proof (cases "smallest_of h i = i")
    case True
    then have "ts_at h (parent k) \<le> ts_at h k" if "k < length h" "0 < k" for k
      using less.prems that smallest_of_self [of h i k]
      by (cases "parent k = i") (auto simp: ordered_but_down_def)
    with True show ?thesis by (simp add: heapifyDown_stop heap_ordered_def)
  next
    case False
    let ?s = "smallest_of h i"
    have "length (swap_entries h i ?s) - ?s < length h - i"
      using smallest_of_child(1,2) [OF False] by simp
    with less.hyps ordered_but_down_swap [OF less.prems False] heapifyDown_step [OF refl False]
    show ?thesis by simp
  qed
qed

section \<open>Insertion and removal\<close>

lemma heap_ordered_New [simp]: "heap_ordered NewMinHeap"
  by (simp add: heap_ordered_def NewMinHeap_def)

lemma heap_Insert_ordered [inv_intros]: "heap_ordered h \<Longrightarrow> heap_ordered (heap_Insert t k h)"
  by (simp add: heap_Insert_def heap_ordered_heapifyUp heap_ordered_append)

lemma heap_Insert_mset: "mset (heap_Insert t k h) = add_mset \<lparr>timestamp = t, he_key = k\<rparr> (mset h)"
  by (simp add: heap_Insert_def heapifyUp_mset)

lemma replace_root_mset:
  "h \<noteq> [] \<Longrightarrow> mset (butlast (h[0 := h ! (length h - 1)])) = mset h - {#h ! 0#}"
proof (cases h)
  case (Cons x xs)
  then show ?thesis by (cases xs rule: rev_cases) (simp_all add: nth_append butlast_append)
qed simp

lemma replace_root_ordered:
  assumes "heap_ordered h" and "h \<noteq> []"
  shows "ordered_but_down (butlast (h[0 := e])) 0"
proof -
  have "ts_at (butlast (h[0 := e])) (parent i) \<le> ts_at (butlast (h[0 := e])) i"
    if "i < length h - 1" "0 < i" "parent i \<noteq> 0" for i
    using assms that parent_less [OF that(2)]
    by (simp add: heap_ordered_def nth_butlast)
  then show ?thesis by (simp add: ordered_but_down_def)
qed

lemma heap_PopMin_empty: "heap_PopMin [] = (None, [])"
  by (simp add: heap_PopMin_def)

lemma heap_PopMin_law:
  assumes o: "heap_ordered h" and ne: "h \<noteq> []"
  shows "\<exists>h'. heap_PopMin h = (Some (h ! 0), h') \<and> heap_ordered h' \<and> mset h' = mset h - {#h ! 0#}"
proof -
  let ?h = "butlast (h[0 := h ! (length h - 1)])"
  have "heap_ordered (if 0 < length ?h then heapifyDown ?h 0 else ?h)"
    using heap_ordered_heapifyDown [OF replace_root_ordered [OF o ne]]
    by (auto simp: heap_ordered_def)
  moreover have "mset (if 0 < length ?h then heapifyDown ?h 0 else ?h) = mset h - {#h ! 0#}"
    using replace_root_mset [OF ne] by (auto simp: heapifyDown_mset)
  moreover have "heap_PopMin h = (Some (h ! 0), if 0 < length ?h then heapifyDown ?h 0 else ?h)"
    using ne by (simp only: heap_PopMin_def Let_def length_0_conv if_False)
  ultimately show ?thesis by blast
qed

section \<open>The interface of a queue of timestamped keys\<close>

locale min_queue =
  fixes ins :: "int \<Rightarrow> string \<Rightarrow> 'q \<Rightarrow> 'q"
    and pop :: "'q \<Rightarrow> HeapEntry option \<times> 'q"
    and ok :: "'q \<Rightarrow> bool"
    and entries :: "'q \<Rightarrow> HeapEntry multiset"
  assumes ins_law: "ok q \<Longrightarrow> ok (ins t k q) \<and>
           entries (ins t k q) = add_mset \<lparr>timestamp = t, he_key = k\<rparr> (entries q)"
    and pop_none: "ok q \<Longrightarrow> entries q = {#} \<Longrightarrow> pop q = (None, q)"
    and pop_some: "ok q \<Longrightarrow> entries q \<noteq> {#} \<Longrightarrow>
           \<exists>e q'. pop q = (Some e, q') \<and> e \<in># entries q \<and>
                  (\<forall>x \<in># entries q. timestamp e \<le> timestamp x) \<and>
                  entries q' = entries q - {#e#} \<and> ok q'"
begin

text \<open>Popping \<open>n\<close> times, the entries in the order they come out.\<close>

fun drain :: "nat \<Rightarrow> 'q \<Rightarrow> HeapEntry list" where
  "drain 0 q = []"
| "drain (Suc n) q = (case pop q of (None, _) \<Rightarrow> [] | (Some e, q') \<Rightarrow> e # drain n q')"

lemma pop_ok: "ok q \<Longrightarrow> ok (snd (pop q))"
  using pop_none pop_some by fastforce

lemma pop_size: "ok q \<Longrightarrow> entries q \<noteq> {#} \<Longrightarrow> Suc (size (entries (snd (pop q)))) = size (entries q)"
  using pop_some [of q] by (auto simp: size_Diff_singleton nonempty_has_size)

lemma drain_sorts:
  "ok q \<Longrightarrow> size (entries q) \<le> n \<Longrightarrow>
     mset (drain n q) = entries q \<and> sorted (map timestamp (drain n q))"
proof (induction n q rule: drain.induct)
  case (1 q)
  then show ?case by simp
next
  case (2 n q)
  show ?case
  proof (cases "entries q = {#}")
    case True
    with "2.prems" pop_none show ?thesis by simp
  next
    case False
    from pop_some [OF "2.prems"(1) False] obtain e q' where e: "pop q = (Some e, q')"
        "e \<in># entries q" "\<forall>x \<in># entries q. timestamp e \<le> timestamp x"
        "entries q' = entries q - {#e#}" "ok q'"
      by blast
    have "size (entries q') \<le> n"
      using "2.prems"(2) e(2,4) by (simp add: size_Diff_singleton)
    with "2.IH" [OF e(1) [symmetric] refl e(5)]
    have IH: "mset (drain n q') = entries q'" "sorted (map timestamp (drain n q'))" by simp_all
    have "\<forall>x \<in> set (drain n q'). timestamp e \<le> timestamp x"
      using e(3,4) IH(1) by (metis in_diffD set_mset_mset)
    with e IH show ?thesis by simp
  qed
qed

end

interpretation mh: min_queue heap_Insert heap_PopMin heap_ordered mset
proof unfold_locales
  fix h :: MinHeap and t k
  assume o: "heap_ordered h"
  then show "heap_ordered (heap_Insert t k h) \<and>
      mset (heap_Insert t k h) = add_mset \<lparr>timestamp = t, he_key = k\<rparr> (mset h)"
    by (simp add: heap_Insert_ordered heap_Insert_mset)
  show "mset h = {#} \<Longrightarrow> heap_PopMin h = (None, h)"
    by (simp add: heap_PopMin_empty)
  assume ne: "mset h \<noteq> {#}"
  then have "h ! 0 \<in># mset h" by (cases h) auto
  moreover have "\<forall>x \<in># mset h. timestamp (h ! 0) \<le> timestamp x"
    using heap_ordered_root [OF o] by (auto simp: in_set_conv_nth)
  ultimately show "\<exists>e q'. heap_PopMin h = (Some e, q') \<and> e \<in># mset h \<and>
      (\<forall>x \<in># mset h. timestamp e \<le> timestamp x) \<and> mset q' = mset h - {#e#} \<and> heap_ordered q'"
    using heap_PopMin_law [OF o] ne by auto
qed

section \<open>Properties of the heap\<close>

text \<open>A client's calls: insertions and removals in any order.\<close>

datatype heap_call = HInsert int string | HPopMin

primrec heap_step :: "heap_call \<Rightarrow> MinHeap \<Rightarrow> MinHeap" where
  "heap_step (HInsert t k) h = heap_Insert t k h"
| "heap_step HPopMin h = snd (heap_PopMin h)"

definition heap_after :: "heap_call list \<Rightarrow> MinHeap" where
  "heap_after cs = fold heap_step cs NewMinHeap"

text \<open>Pop until the heap is empty.\<close>

fun pop_all :: "nat \<Rightarrow> MinHeap \<Rightarrow> HeapEntry list" where
  "pop_all 0 h = []"
| "pop_all (Suc n) h =
     (case heap_PopMin h of (None, _) \<Rightarrow> [] | (Some e, h') \<Rightarrow> e # pop_all n h')"

lemma pop_all_eq: "pop_all n h = mh.drain n h"
  by (induction n h rule: pop_all.induct) (auto split: prod.splits option.splits)

lemma heap_after_ordered: "heap_ordered (heap_after cs)"
proof -
  have "heap_ordered h \<Longrightarrow> heap_ordered (fold heap_step cs h)" for h
  proof (induction cs arbitrary: h)
    case (Cons c cs)
    then have "heap_ordered (heap_step c h)"
      by (cases c) (simp_all add: heap_Insert_ordered mh.pop_ok)
    with Cons.IH show ?case by simp
  qed simp
  then show ?thesis by (simp add: heap_after_def)
qed

text \<open>C3: \<open>PopMin\<close> on the heap that any sequence of \<open>Insert\<close> and \<open>PopMin\<close> calls leaves returns
  nothing exactly when the heap is empty, and otherwise removes one entry, of the least
  timestamp in the heap; what remains is the heap's other entries.\<close>

theorem heap_PopMin_earliest:
  "case heap_PopMin (heap_after cs) of
     (None, h') \<Rightarrow> heap_after cs = [] \<and> h' = []
   | (Some e, h') \<Rightarrow> e \<in> set (heap_after cs) \<and>
       timestamp e = Min (timestamp ` set (heap_after cs)) \<and>
       mset h' = mset (heap_after cs) - {#e#}"
proof (cases "heap_after cs = []")
  case True
  then show ?thesis by (simp add: heap_PopMin_empty)
next
  case False
  then obtain e h' where e: "heap_PopMin (heap_after cs) = (Some e, h')" "e \<in> set (heap_after cs)"
      "\<forall>x \<in> set (heap_after cs). timestamp e \<le> timestamp x"
      "mset h' = mset (heap_after cs) - {#e#}"
    using mh.pop_some [OF heap_after_ordered, of cs] by auto
  then have "Min (timestamp ` set (heap_after cs)) = timestamp e"
    by (intro Min_eqI) auto
  with e show ?thesis by simp
qed

text \<open>C4: Inserting keys with timestamps and popping them all sorts them: the entries come out
  in order of their timestamps, none lost and none added.\<close>

theorem heap_sorts:
  "let out = pop_all (length tks) (fold (\<lambda>(t, k). heap_Insert t k) tks NewMinHeap)
   in sorted (map timestamp out) \<and> mset (map (\<lambda>e. (timestamp e, he_key e)) out) = mset tks"
proof -
  have "heap_ordered h \<Longrightarrow> heap_ordered (fold (\<lambda>(t, k). heap_Insert t k) tks h) \<and>
        image_mset (\<lambda>e. (timestamp e, he_key e)) (mset (fold (\<lambda>(t, k). heap_Insert t k) tks h)) =
        image_mset (\<lambda>e. (timestamp e, he_key e)) (mset h) + mset tks" for h
  proof (induction tks arbitrary: h)
    case (Cons tk tks)
    then show ?case by (cases tk) (simp add: heap_Insert_ordered heap_Insert_mset)
  qed simp
  from this [OF heap_ordered_New]
  have fin: "heap_ordered (fold (\<lambda>(t, k). heap_Insert t k) tks NewMinHeap)"
    "image_mset (\<lambda>e. (timestamp e, he_key e)) (mset (fold (\<lambda>(t, k). heap_Insert t k) tks NewMinHeap))
       = mset tks"
    by (auto simp: NewMinHeap_def)
  then have "size (mset (fold (\<lambda>(t, k). heap_Insert t k) tks NewMinHeap)) = length tks"
    by (metis size_image_mset size_mset)
  with mh.drain_sorts [OF fin(1), of "length tks"] fin(2) show ?thesis
    by (simp add: pop_all_eq Let_def)
qed

end
