(* ===== verification/BST_Heap.thy ===== *)
theory BST_Heap
  imports Min_Heap
begin

text \<open>
  The proxy's access-time index (\<open>mains/proxy.go\<close>, \<open>BSTHeap\<close>): the last access time of every
  key, and two min-heaps that hand out the real and the dummy keys, least recently accessed
  first. The heaps are used through the laws of \<open>min_queue\<close> only.
\<close>

section \<open>The code\<close>

record BSTHeap =
  bh_timestamps :: "(string, int) gmap"
  realObjects :: MinHeap
  dummyObjects :: MinHeap

definition NewBSTHeap :: BSTHeap where
  "NewBSTHeap = \<lparr>bh_timestamps = [], realObjects = NewMinHeap, dummyObjects = NewMinHeap\<rparr>"

definition bst_SetTimestamp :: "string \<Rightarrow> int \<Rightarrow> string \<Rightarrow> BSTHeap \<Rightarrow> BSTHeap" where
  "bst_SetTimestamp key ts objType b =
     (let b1 = b\<lparr>bh_timestamps := gm_set key ts (bh_timestamps b)\<rparr> in
      if objType = ''real''
      then b1\<lparr>realObjects := heap_Insert ts key (realObjects b1)\<rparr>
      else b1\<lparr>dummyObjects := heap_Insert ts key (dummyObjects b1)\<rparr>)"

definition bst_GetTimestamp :: "string \<Rightarrow> BSTHeap \<Rightarrow> int" where
  "bst_GetTimestamp key b = (case gm_get (bh_timestamps b) key of Some ts \<Rightarrow> ts | None \<Rightarrow> 0)"

text \<open>The empty key when the heap is empty.\<close>

definition bst_PopMin :: "string \<Rightarrow> BSTHeap \<Rightarrow> string \<times> BSTHeap" where
  "bst_PopMin objType b =
     (if objType = ''dummy''
      then (case heap_PopMin (dummyObjects b) of
              (Some entry, h) \<Rightarrow> (he_key entry, b\<lparr>dummyObjects := h\<rparr>)
            | (None, h) \<Rightarrow> ('''', b\<lparr>dummyObjects := h\<rparr>))
      else (case heap_PopMin (realObjects b) of
              (Some entry, h) \<Rightarrow> (he_key entry, b\<lparr>realObjects := h\<rparr>)
            | (None, h) \<Rightarrow> ('''', b\<lparr>realObjects := h\<rparr>)))"

definition bst_AddObject :: "string \<Rightarrow> string \<Rightarrow> BSTHeap \<Rightarrow> BSTHeap" where
  "bst_AddObject key objType b =
     (let (ts, b1) =
        (case gm_get (bh_timestamps b) key of
           Some ts \<Rightarrow> (ts, b)
         | None \<Rightarrow> (0, b\<lparr>bh_timestamps := gm_set key 0 (bh_timestamps b)\<rparr>)) in
      if objType = ''real''
      then b1\<lparr>realObjects := heap_Insert ts key (realObjects b1)\<rparr>
      else b1\<lparr>dummyObjects := heap_Insert ts key (dummyObjects b1)\<rparr>)"

section \<open>The invariant\<close>

text \<open>
  At time \<open>now\<close>: both heaps are in order; every entry has a non-empty key with a recorded
  access time, no earlier than the entry's own time stamp (an entry may be stale: a later
  access of its key adds a new entry and leaves the old one); no recorded time is in the future.
\<close>

definition entry_ok :: "(string, int) gmap \<Rightarrow> HeapEntry \<Rightarrow> bool" where
  "entry_ok m e \<longleftrightarrow> he_key e \<noteq> '''' \<and>
     (case gm_get m (he_key e) of None \<Rightarrow> False | Some ts \<Rightarrow> timestamp e \<le> ts)"

definition bst_ok :: "int \<Rightarrow> BSTHeap \<Rightarrow> bool" where
  "bst_ok now b \<longleftrightarrow>
     0 \<le> now \<and> gm_wf (bh_timestamps b) \<and>
     heap_ordered (realObjects b) \<and> heap_ordered (dummyObjects b) \<and>
     (\<forall>e \<in> set (realObjects b) \<union> set (dummyObjects b). entry_ok (bh_timestamps b) e) \<and>
     (\<forall>k ts. gm_get (bh_timestamps b) k = Some ts \<longrightarrow> ts \<le> now)"

text \<open>The keys a heap holds, with repetition.\<close>

definition heap_keys :: "MinHeap \<Rightarrow> string multiset" where
  "heap_keys h = image_mset he_key (mset h)"

lemma heap_keys_Insert [simp]: "heap_keys (heap_Insert t k h) = add_mset k (heap_keys h)"
  by (simp add: heap_keys_def heap_Insert_mset)

lemma set_heap_Insert [simp]:
  "set (heap_Insert t k h) = insert \<lparr>timestamp = t, he_key = k\<rparr> (set h)"
  by (metis heap_Insert_mset set_mset_add_mset_insert set_mset_mset)

lemma set_removed: "mset h = mset g - {#e#} \<Longrightarrow> x \<in> set h \<Longrightarrow> x \<in> set g"
  by (metis in_diffD set_mset_mset)

lemma size_heap_keys [simp]: "size (heap_keys h) = length h"
  by (simp add: heap_keys_def)

lemma heap_keys_empty_iff [simp]: "heap_keys h = {#} \<longleftrightarrow> h = []"
  by (simp add: heap_keys_def)

lemma bst_ok_mono: "bst_ok t b \<Longrightarrow> t \<le> t' \<Longrightarrow> bst_ok t' b"
  by (fastforce simp: bst_ok_def)

lemma bst_ok_New [inv_intros]: "bst_ok 0 NewBSTHeap"
  by (simp add: bst_ok_def NewBSTHeap_def NewMinHeap_def heap_ordered_def)

lemma bst_ok_SetTimestamp [inv_intros]:
  assumes "bst_ok t b" and "t \<le> ts" and "k \<noteq> ''''"
  shows "bst_ok ts (bst_SetTimestamp k ts ty b)"
proof -
  from assms(1) have b: "heap_ordered (realObjects b)" "heap_ordered (dummyObjects b)"
    by (simp_all add: bst_ok_def)
  have old: "entry_ok (gm_set k ts (bh_timestamps b)) e" if "entry_ok (bh_timestamps b) e" for e
    using that assms(1,2)
    by (auto simp: entry_ok_def gm_get_set bst_ok_def split: option.splits) (meson order_trans)
  have new: "entry_ok (gm_set k ts (bh_timestamps b)) \<lparr>timestamp = ts, he_key = k\<rparr>"
    using assms(3) by (simp add: entry_ok_def gm_get_set)
  from assms(1,2) have "\<forall>j u. gm_get (gm_set k ts (bh_timestamps b)) j = Some u \<longrightarrow> u \<le> ts"
    by (fastforce simp: bst_ok_def gm_get_set split: if_splits)
  with assms b old new show ?thesis
    by (auto simp: bst_ok_def bst_SetTimestamp_def Let_def heap_Insert_ordered gm_wf_set)
qed

lemma bst_ok_AddObject [inv_intros]:
  assumes "bst_ok t b" and "k \<noteq> ''''"
  shows "bst_ok t (bst_AddObject k ty b)"
proof (cases "gm_get (bh_timestamps b) k")
  case None
  have old: "entry_ok (gm_set k 0 (bh_timestamps b)) e" if "entry_ok (bh_timestamps b) e" for e
    using that None by (auto simp: entry_ok_def gm_get_set split: option.splits)
  have "entry_ok (gm_set k 0 (bh_timestamps b)) \<lparr>timestamp = 0, he_key = k\<rparr>"
    using assms(2) by (simp add: entry_ok_def gm_get_set)
  with old assms None show ?thesis
    by (auto simp: bst_ok_def bst_AddObject_def heap_Insert_ordered gm_wf_set
        gm_get_set split: if_splits)
next
  case (Some ts)
  then have "entry_ok (bh_timestamps b) \<lparr>timestamp = ts, he_key = k\<rparr>"
    using assms(2) by (simp add: entry_ok_def)
  with Some assms show ?thesis
    by (auto simp: bst_ok_def bst_AddObject_def heap_Insert_ordered)
qed

text \<open>What \<open>PopMin\<close> does to a well-formed index, in the terms of the queue's laws.\<close>

lemma bst_PopMin_dummy:
  assumes "bst_ok t b"
  shows "(dummyObjects b = [] \<longrightarrow> bst_PopMin ''dummy'' b = ('''', b)) \<and>
    (dummyObjects b \<noteq> [] \<longrightarrow> (\<exists>e h. bst_PopMin ''dummy'' b = (he_key e, b\<lparr>dummyObjects := h\<rparr>) \<and>
       e \<in># mset (dummyObjects b) \<and> (\<forall>x \<in># mset (dummyObjects b). timestamp e \<le> timestamp x) \<and>
       mset h = mset (dummyObjects b) - {#e#} \<and> heap_ordered h \<and> he_key e \<noteq> ''''))"
proof (cases "dummyObjects b = []")
  case True
  then show ?thesis by (cases b) (simp add: bst_PopMin_def heap_PopMin_empty)
next
  case False
  from assms have "heap_ordered (dummyObjects b)"
    and keys: "\<forall>e \<in># mset (dummyObjects b). he_key e \<noteq> ''''"
    by (auto simp: bst_ok_def entry_ok_def)
  from mh.pop_some [OF this(1)] False obtain e h where
      "heap_PopMin (dummyObjects b) = (Some e, h)" "e \<in># mset (dummyObjects b)"
      "\<forall>x \<in># mset (dummyObjects b). timestamp e \<le> timestamp x"
      "mset h = mset (dummyObjects b) - {#e#}" "heap_ordered h"
    by auto
  with False keys show ?thesis by (auto simp: bst_PopMin_def)
qed

lemma bst_PopMin_real:
  assumes "bst_ok t b" and "ty \<noteq> ''dummy''"
  shows "(realObjects b = [] \<longrightarrow> bst_PopMin ty b = ('''', b)) \<and>
    (realObjects b \<noteq> [] \<longrightarrow> (\<exists>e h. bst_PopMin ty b = (he_key e, b\<lparr>realObjects := h\<rparr>) \<and>
       e \<in># mset (realObjects b) \<and> (\<forall>x \<in># mset (realObjects b). timestamp e \<le> timestamp x) \<and>
       mset h = mset (realObjects b) - {#e#} \<and> heap_ordered h \<and> he_key e \<noteq> ''''))"
proof (cases "realObjects b = []")
  case True
  then show ?thesis using assms(2) by (cases b) (simp add: bst_PopMin_def heap_PopMin_empty)
next
  case False
  from assms have "heap_ordered (realObjects b)"
    and keys: "\<forall>e \<in># mset (realObjects b). he_key e \<noteq> ''''"
    by (auto simp: bst_ok_def entry_ok_def)
  from mh.pop_some [OF this(1)] False obtain e h where
      "heap_PopMin (realObjects b) = (Some e, h)" "e \<in># mset (realObjects b)"
      "\<forall>x \<in># mset (realObjects b). timestamp e \<le> timestamp x"
      "mset h = mset (realObjects b) - {#e#}" "heap_ordered h"
    by auto
  with False keys assms(2) show ?thesis by (auto simp: bst_PopMin_def)
qed

lemma bst_ok_PopMin [inv_intros]:
  assumes "bst_ok t b"
  shows "bst_ok t (snd (bst_PopMin ty b))"
proof (cases "ty = ''dummy''")
  case True
  with bst_PopMin_dummy [OF assms] assms show ?thesis
    by (cases "dummyObjects b = []") (auto simp: bst_ok_def dest: set_removed)
next
  case False
  with bst_PopMin_real [OF assms False] assms show ?thesis
    by (cases "realObjects b = []") (auto simp: bst_ok_def dest: set_removed)
qed

end
