(* ===== verification/Proxy.thy ===== *)
theory Proxy
  imports LRU_Cache BST_Heap Go_Text
begin

text \<open>
  The batching proxy (\<open>mains/proxy.go\<close>, \<open>getIndex\<close>, \<open>objectIsReal\<close>, \<open>handleRequests\<close> and the set-up
  of \<open>main\<close>): a batch of client requests is answered from the cache where possible; the misses,
  dummy keys and least recently used real keys are fetched from etcd together; the answers are
  cached and what the cache evicts is written back.

  What is outside the program is a parameter, gathered in the record \<open>env\<close>: the clock, SHA-256,
  what etcd answers to each \<open>Get\<close>, how \<open>fmt\<close> prints a value that is not a string, and the orders in
  which Go's runtime ranges over the three maps the function ranges over. The goroutines that
  fetch from etcd only add their own entry to \<open>responses\<close> under a mutex and are all waited for,
  so the map they leave does not depend on their interleaving. The panic of a nil dereference
  in the cache is the result \<open>None\<close>.
\<close>

section \<open>The code\<close>

record preq =
  p_RID :: string
  p_Op :: string
  p_Key :: string
  p_Val :: gval

record DedupRequest =
  d_RID :: string
  d_NeedResp :: bool

text \<open>One \<open>etcdClient.Get\<close>: an error, or the values of the keys found.\<close>

datatype fetch_result = FetchErr | FetchKvs "string list"

record env =
  now :: int
  sha256 :: "string \<Rightarrow> byte list"
  fetch :: "string \<Rightarrow> string \<Rightarrow> fetch_result"
  fmt_other :: "gval \<Rightarrow> string"
  order_dedup :: "string list \<Rightarrow> string list"
  order_responses :: "string list \<Rightarrow> string list"
  order_writes :: "string list \<Rightarrow> string list"

record proxy =
  px_cache :: "gval LRUCache"
  px_bst :: BSTHeap
  px_batchSize :: int
  px_dummyCount :: int
  px_totalDummies :: int

definition getIndex :: "(string \<Rightarrow> byte list) \<Rightarrow> string \<Rightarrow> int \<Rightarrow> string" where
  "getIndex sha key ts = hex_bytes (sha (key @ '':'' @ show_int ts))"

definition objectIsReal :: "string \<Rightarrow> bool" where
  "objectIsReal key \<longleftrightarrow> \<not> has_prefix ''dummy_'' key"

text \<open>\<open>fmt.Sprintf("%v", v)\<close>: a string prints as itself.\<close>

definition sprint_v :: "(gval \<Rightarrow> string) \<Rightarrow> gval \<Rightarrow> string" where
  "sprint_v other v = (case v of GStr s \<Rightarrow> s | _ \<Rightarrow> other v)"

subsection \<open>The request loop\<close>

record loop_state =
  ls_cache :: "gval LRUCache"
  ls_bst :: BSTHeap
  ls_cliResp :: "(string, gval list) gmap"
  ls_dedup :: "(string, DedupRequest list) gmap"

definition process_read :: "preq \<Rightarrow> loop_state \<Rightarrow> loop_state option" where
  "process_read req s = do {
     (found, c) \<leftarrow> cache_Get (p_Key req) (ls_cache s);
     let s1 = (case found of
         Some val \<Rightarrow> s\<lparr>ls_cache := c, ls_cliResp := gm_append (p_RID req) val (ls_cliResp s)\<rparr>
       | None \<Rightarrow> s\<lparr>ls_cache := c, ls_dedup := gm_append (p_Key req)
             \<lparr>d_RID = p_RID req, d_NeedResp = True\<rparr> (ls_dedup s)\<rparr>);
     Some (s1\<lparr>ls_bst := bst_AddObject (p_Key req) ''real'' (ls_bst s1)\<rparr>)
   }"

definition process_write :: "preq \<Rightarrow> loop_state \<Rightarrow> loop_state option" where
  "process_write req s = do {
     let s1 = (if cache_Has (p_Key req) (ls_cache s) then s
       else s\<lparr>ls_dedup := gm_append (p_Key req)
             \<lparr>d_RID = p_RID req, d_NeedResp = False\<rparr> (ls_dedup s)\<rparr>);
     c \<leftarrow> cache_Put (p_Key req) (p_Val req) (ls_cache s1);
     Some (s1\<lparr>ls_cache := c, ls_bst := bst_AddObject (p_Key req) ''real'' (ls_bst s1)\<rparr>)
   }"

definition process_request :: "preq \<Rightarrow> loop_state \<Rightarrow> loop_state option" where
  "process_request req s =
     (if p_Key req = '''' then Some s
      else do {
        s1 \<leftarrow> (if p_Op req = ''read'' then process_read req s else Some s);
        (if p_Op req = ''write'' \<and> p_Val req \<noteq> GNil then process_write req s1 else Some s1)
      })"

primrec process_requests :: "preq list \<Rightarrow> loop_state \<Rightarrow> loop_state option" where
  "process_requests [] s = Some s"
| "process_requests (r # rs) s = Option.bind (process_request r s) (process_requests rs)"

subsection \<open>The batch of keys to fetch\<close>

type_synonym read_batch = "(string, string) gmap"

primrec init_batch ::
  "env \<Rightarrow> string list \<Rightarrow> read_batch \<times> BSTHeap \<Rightarrow> read_batch \<times> BSTHeap" where
  "init_batch E [] rb = rb"
| "init_batch E (key # keys) rb =
     init_batch E keys
       (gm_set (getIndex (sha256 E) key (now E)) key (fst rb),
        bst_SetTimestamp key (now E) ''real'' (snd rb))"

primrec fill_dummies :: "env \<Rightarrow> nat \<Rightarrow> read_batch \<times> BSTHeap \<Rightarrow> read_batch \<times> BSTHeap" where
  "fill_dummies E 0 rb = rb"
| "fill_dummies E (Suc n) rb =
     (let (dummyKey, b) = bst_PopMin ''dummy'' (snd rb) in
      fill_dummies E n
        (if dummyKey \<noteq> ''''
         then (gm_set (getIndex (sha256 E) dummyKey (now E)) dummyKey (fst rb),
               bst_SetTimestamp dummyKey (now E) ''dummy'' b)
         else (fst rb, b)))"

primrec fill_reals ::
  "env \<Rightarrow> gval LRUCache \<Rightarrow> nat \<Rightarrow> read_batch \<times> BSTHeap \<Rightarrow> read_batch \<times> BSTHeap" where
  "fill_reals E c 0 rb = rb"
| "fill_reals E c (Suc n) rb =
     (let (realKey, b) = bst_PopMin ''real'' (snd rb) in
      fill_reals E c n
        (if realKey \<noteq> ''''
         then (if cache_Has realKey c then fst rb
               else gm_set (getIndex (sha256 E) realKey (now E)) realKey (fst rb),
               bst_SetTimestamp realKey (now E) ''real'' b)
         else (fst rb, b)))"

definition build_batch ::
  "env \<Rightarrow> proxy \<Rightarrow> gval LRUCache \<Rightarrow> (string, DedupRequest list) gmap \<Rightarrow> BSTHeap
     \<Rightarrow> read_batch \<times> BSTHeap" where
  "build_batch E px c dedup b0 =
     (let rb1 = init_batch E (order_dedup E (gm_keys dedup)) ([], b0);
          rb2 = fill_dummies E (nat (px_dummyCount px)) rb1;
          remainingSlots = px_batchSize px - int (length (fst rb2));
          rb3 = fill_reals E c (nat remainingSlots) rb2
      in if int (length (fst rb3)) < px_batchSize px
         then fill_dummies E (nat (px_batchSize px - int (length (fst rb3)))) rb3
         else rb3)"

subsection \<open>Fetching, answering and writing back\<close>

definition fetch_batch :: "env \<Rightarrow> read_batch \<Rightarrow> (string, string) gmap" where
  "fetch_batch E rb =
     concat (map (\<lambda>(idx, key). case fetch E idx key of
         FetchErr \<Rightarrow> []
       | FetchKvs kvs \<Rightarrow> (if 0 < length kvs then [(idx, kvs ! 0)] else [])) rb)"

primrec answer_waiting ::
  "string \<Rightarrow> DedupRequest list \<Rightarrow> (string, gval list) gmap \<Rightarrow> (string, gval list) gmap" where
  "answer_waiting val [] resp = resp"
| "answer_waiting val (req # reqs) resp =
     answer_waiting val reqs
       (if d_NeedResp req then gm_append (d_RID req) (GStr val) resp else resp)"

record resp_state =
  rs_cache :: "gval LRUCache"
  rs_cliResp :: "(string, gval list) gmap"
  rs_writes :: "(string, string) gmap"

definition process_response ::
  "env \<Rightarrow> (string, DedupRequest list) gmap \<Rightarrow> string \<Rightarrow> string \<Rightarrow> resp_state \<Rightarrow> resp_state option" where
  "process_response E dedup key val s =
     (case gm_get dedup key of
        None \<Rightarrow> Some s
      | Some reqs \<Rightarrow> do {
          let s1 = s\<lparr>rs_cliResp := answer_waiting val reqs (rs_cliResp s)\<rparr>;
          (if objectIsReal key then do {
             ((evictedKey, evictedVal), c1) \<leftarrow> cache_Evict (rs_cache s1);
             let w = (if evictedKey \<noteq> ''''
               then gm_set (getIndex (sha256 E) evictedKey (now E))
                      (sprint_v (fmt_other E) (case evictedVal of None \<Rightarrow> GNil | Some v \<Rightarrow> v))
                      (rs_writes s1)
               else rs_writes s1);
             c2 \<leftarrow> cache_Put key (GStr val) c1;
             Some (s1\<lparr>rs_cache := c2, rs_writes := w\<rparr>)
           }
           else Some (s1\<lparr>rs_writes := gm_set (getIndex (sha256 E) key (now E)) '''' (rs_writes s1)\<rparr>))
        })"

text \<open>\<open>readBatch[idx]\<close> and \<open>responses[idx]\<close>: a missing entry reads as the empty string.\<close>

definition get_str :: "(string, string) gmap \<Rightarrow> string \<Rightarrow> string" where
  "get_str m k = (case gm_get m k of None \<Rightarrow> '''' | Some v \<Rightarrow> v)"

primrec process_responses ::
  "env \<Rightarrow> read_batch \<Rightarrow> (string, string) gmap \<Rightarrow> (string, DedupRequest list) gmap \<Rightarrow>
     string list \<Rightarrow> resp_state \<Rightarrow> resp_state option" where
  "process_responses E rb responses dedup [] s = Some s"
| "process_responses E rb responses dedup (idx # idxs) s =
     Option.bind (process_response E dedup (get_str rb idx) (get_str responses idx) s)
       (process_responses E rb responses dedup idxs)"

record reply =
  rp_result :: "(string, gval) gmap"
  rp_fetched :: read_batch
  rp_puts :: "(string \<times> string) list"

definition handleRequests :: "env \<Rightarrow> preq list \<Rightarrow> proxy \<Rightarrow> (reply \<times> proxy) option" where
  "handleRequests E requests px = do {
     s \<leftarrow> process_requests requests
       \<lparr>ls_cache = px_cache px, ls_bst = px_bst px, ls_cliResp = [], ls_dedup = []\<rparr>;
     let (readBatch, b) = build_batch E px (ls_cache s) (ls_dedup s) (ls_bst s);
     let responses = fetch_batch E readBatch;
     r \<leftarrow> process_responses E readBatch responses (ls_dedup s)
       (order_responses E (gm_keys responses))
       \<lparr>rs_cache = ls_cache s, rs_cliResp = ls_cliResp s, rs_writes = []\<rparr>;
     let puts = map (\<lambda>idx. (idx, get_str (rs_writes r) idx)) (order_writes E (gm_keys (rs_writes r)));
     Some (\<lparr>rp_result = collapse_all (rs_cliResp r), rp_fetched = readBatch, rp_puts = puts\<rparr>,
           px\<lparr>px_cache := rs_cache r, px_bst := b\<rparr>)
   }"

text \<open>\<open>batchSize / 2\<close> truncates towards zero.\<close>

definition go_half :: "int \<Rightarrow> int" where
  "go_half n = (if n < 0 then - ((- n) div 2) else n div 2)"

primrec add_dummies :: "nat \<Rightarrow> BSTHeap \<Rightarrow> BSTHeap" where
  "add_dummies 0 b = b"
| "add_dummies (Suc n) b = bst_AddObject (''dummy_'' @ show_nat n) ''dummy'' (add_dummies n b)"

definition proxy_main :: "int \<Rightarrow> int \<Rightarrow> int \<Rightarrow> proxy" where
  "proxy_main cacheSize batch dummies =
     \<lparr>px_cache = NewLRUCache cacheSize, px_bst = add_dummies (nat dummies) NewBSTHeap,
      px_batchSize = batch, px_dummyCount = go_half batch, px_totalDummies = dummies\<rparr>"

section \<open>The invariant and its preservation\<close>

definition proxy_ok :: "int \<Rightarrow> proxy \<Rightarrow> bool" where
  "proxy_ok t px \<longleftrightarrow> lru_ok (px_cache px) \<and> bst_ok t (px_bst px)"

definition ls_ok :: "int \<Rightarrow> loop_state \<Rightarrow> bool" where
  "ls_ok t s \<longleftrightarrow> lru_ok (ls_cache s) \<and> bst_ok t (ls_bst s) \<and> gm_wf (ls_cliResp s) \<and>
     gm_wf (ls_dedup s) \<and> '''' \<notin> set (gm_keys (ls_dedup s))"

text \<open>A request the loop acts on.\<close>

definition effective :: "preq \<Rightarrow> bool" where
  "effective r \<longleftrightarrow> p_Key r \<noteq> '''' \<and>
     (p_Op r = ''read'' \<or> p_Op r = ''write'' \<and> p_Val r \<noteq> GNil)"

definition reals :: "BSTHeap \<Rightarrow> nat" where
  "reals b = length (realObjects b)"

definition dummies :: "BSTHeap \<Rightarrow> string multiset" where
  "dummies b = heap_keys (dummyObjects b)"

lemma length_heap_Insert [simp]: "length (heap_Insert t k h) = Suc (length h)"
  by (metis heap_keys_Insert size_add_mset size_heap_keys)

lemma AddObject_real [simp]:
  "reals (bst_AddObject k ''real'' b) = Suc (reals b)"
  "dummyObjects (bst_AddObject k ''real'' b) = dummyObjects b"
  by (simp_all add: reals_def bst_AddObject_def split: option.split)

lemma SetTimestamp_real [simp]:
  "reals (bst_SetTimestamp k t ''real'' b) = Suc (reals b)"
  "dummyObjects (bst_SetTimestamp k t ''real'' b) = dummyObjects b"
  by (simp_all add: reals_def bst_SetTimestamp_def)

lemma SetTimestamp_dummy [simp]:
  "realObjects (bst_SetTimestamp k t ''dummy'' b) = realObjects b"
  "dummyObjects (bst_SetTimestamp k t ''dummy'' b) = heap_Insert t k (dummyObjects b)"
  by (simp_all add: bst_SetTimestamp_def)

lemma process_read_ok:
  assumes "ls_ok t s" and "p_Key r \<noteq> ''''"
  shows "\<exists>s'. process_read r s = Some s' \<and> ls_ok t s' \<and>
           lru_capacity (ls_cache s') = lru_capacity (ls_cache s) \<and>
           dummyObjects (ls_bst s') = dummyObjects (ls_bst s) \<and>
           reals (ls_bst s') = Suc (reals (ls_bst s))"
proof -
  from assms(1) have c: "lru_ok (ls_cache s)" by (simp add: ls_ok_def)
  from lru.get_law [OF c, of "p_Key r"] obtain c' where
      "cache_Get (p_Key r) (ls_cache s) = Some (fst (abs_get (p_Key r) (contents (ls_cache s))), c')"
      "lru_ok c'" "lru_capacity c' = lru_capacity (ls_cache s)"
    by blast
  with assms show ?thesis
    by (auto simp: process_read_def ls_ok_def bst_ok_AddObject gm_wf_append set_gm_keys_append
        split: option.splits)
qed

lemma process_write_ok:
  assumes "ls_ok t s" and "p_Key r \<noteq> ''''"
  shows "\<exists>s'. process_write r s = Some s' \<and> ls_ok t s' \<and>
           lru_capacity (ls_cache s') = lru_capacity (ls_cache s) \<and>
           dummyObjects (ls_bst s') = dummyObjects (ls_bst s) \<and>
           reals (ls_bst s') = Suc (reals (ls_bst s))"
proof -
  from assms(1) have c: "lru_ok (ls_cache s)" by (simp add: ls_ok_def)
  from lru.put_law [OF c, of "p_Key r" "p_Val r"] obtain c' where
      "cache_Put (p_Key r) (p_Val r) (ls_cache s) = Some c'"
      "lru_ok c'" "lru_capacity c' = lru_capacity (ls_cache s)"
    by blast
  with assms show ?thesis
    by (auto simp: process_write_def ls_ok_def bst_ok_AddObject gm_wf_append set_gm_keys_append)
qed

lemma process_request_ok:
  assumes "ls_ok t s"
  shows "\<exists>s'. process_request r s = Some s' \<and> ls_ok t s' \<and>
           lru_capacity (ls_cache s') = lru_capacity (ls_cache s) \<and>
           dummyObjects (ls_bst s') = dummyObjects (ls_bst s) \<and>
           reals (ls_bst s') = reals (ls_bst s) + (if effective r then 1 else 0)"
proof (cases "p_Key r = ''''")
  case True
  with assms show ?thesis by (simp add: process_request_def effective_def)
next
  case key: False
  show ?thesis
  proof (cases "p_Op r = ''read''")
    case True
    with process_read_ok [OF assms key] key show ?thesis
      by (auto simp: process_request_def effective_def)
  next
    case False
    with process_write_ok [OF assms key] key assms show ?thesis
      by (auto simp: process_request_def effective_def)
  qed
qed

lemma process_requests_ok:
  "ls_ok t s \<Longrightarrow> \<exists>s'. process_requests rs s = Some s' \<and> ls_ok t s' \<and>
     lru_capacity (ls_cache s') = lru_capacity (ls_cache s) \<and>
     dummyObjects (ls_bst s') = dummyObjects (ls_bst s) \<and>
     reals (ls_bst s') = reals (ls_bst s) + length (filter effective rs)"
proof (induction rs arbitrary: s)
  case (Cons r rs)
  from process_request_ok [OF Cons.prems, of r] obtain s1 where s1:
      "process_request r s = Some s1" "ls_ok t s1"
      "lru_capacity (ls_cache s1) = lru_capacity (ls_cache s)"
      "dummyObjects (ls_bst s1) = dummyObjects (ls_bst s)"
      "reals (ls_bst s1) = reals (ls_bst s) + (if effective r then 1 else 0)"
    by blast
  from Cons.IH [OF s1(2)] s1 show ?case by auto
qed simp

text \<open>Popping a key and recording its access at time \<open>ts\<close>.\<close>

lemma pop_set_dummy:
  assumes ok: "bst_ok t b" and "t \<le> ts" and pop: "bst_PopMin ''dummy'' b = (k, b1)"
  shows "bst_ok ts (if k \<noteq> '''' then bst_SetTimestamp k ts ''dummy'' b1 else b1)"
    and "dummies (if k \<noteq> '''' then bst_SetTimestamp k ts ''dummy'' b1 else b1) = dummies b"
    and "realObjects (if k \<noteq> '''' then bst_SetTimestamp k ts ''dummy'' b1 else b1) = realObjects b"
proof -
  have ok1: "bst_ok t b1" using bst_ok_PopMin [OF ok, of "''dummy''"] pop by simp
  then show "bst_ok ts (if k \<noteq> '''' then bst_SetTimestamp k ts ''dummy'' b1 else b1)"
    using assms(2) by (auto intro: bst_ok_SetTimestamp bst_ok_mono)
  show "dummies (if k \<noteq> '''' then bst_SetTimestamp k ts ''dummy'' b1 else b1) = dummies b"
    "realObjects (if k \<noteq> '''' then bst_SetTimestamp k ts ''dummy'' b1 else b1) = realObjects b"
  proof (atomize (full), cases "dummyObjects b = []")
    case True
    with bst_PopMin_dummy [OF ok] pop
    show "dummies (if k \<noteq> '''' then bst_SetTimestamp k ts ''dummy'' b1 else b1) = dummies b \<and>
      realObjects (if k \<noteq> '''' then bst_SetTimestamp k ts ''dummy'' b1 else b1) = realObjects b"
      by simp
  next
    case False
    with bst_PopMin_dummy [OF ok] pop obtain e h where
        "k = he_key e" "b1 = b\<lparr>dummyObjects := h\<rparr>" "e \<in># mset (dummyObjects b)"
        "mset h = mset (dummyObjects b) - {#e#}" "he_key e \<noteq> ''''"
      by auto
    then show "dummies (if k \<noteq> '''' then bst_SetTimestamp k ts ''dummy'' b1 else b1) = dummies b \<and>
      realObjects (if k \<noteq> '''' then bst_SetTimestamp k ts ''dummy'' b1 else b1) = realObjects b"
      by (simp add: dummies_def heap_keys_def heap_Insert_mset image_mset_Diff)
  qed
qed

lemma pop_set_real:
  assumes ok: "bst_ok t b" and "t \<le> ts" and pop: "bst_PopMin ''real'' b = (k, b1)"
  shows "bst_ok ts (if k \<noteq> '''' then bst_SetTimestamp k ts ''real'' b1 else b1) \<and>
    reals (if k \<noteq> '''' then bst_SetTimestamp k ts ''real'' b1 else b1) = reals b \<and>
    dummyObjects (if k \<noteq> '''' then bst_SetTimestamp k ts ''real'' b1 else b1) = dummyObjects b"
proof -
  have ok1: "bst_ok t b1" using bst_ok_PopMin [OF ok, of "''real''"] pop by simp
  have ok2: "bst_ok ts (if k \<noteq> '''' then bst_SetTimestamp k ts ''real'' b1 else b1)"
    using assms(2) ok1 by (auto intro: bst_ok_SetTimestamp bst_ok_mono)
  show ?thesis
  proof (cases "realObjects b = []")
    case True
    with bst_PopMin_real [OF ok, of "''real''"] pop ok2 show ?thesis by simp
  next
    case False
    with bst_PopMin_real [OF ok, of "''real''"] pop obtain e h where
        "k = he_key e" "b1 = b\<lparr>realObjects := h\<rparr>" "e \<in># mset (realObjects b)"
        "mset h = mset (realObjects b) - {#e#}" "he_key e \<noteq> ''''"
      by auto
    moreover from this(3,4) have "size (mset h) = size (mset (realObjects b)) - 1"
      by (simp add: size_Diff_singleton)
    with False have "Suc (length h) = length (realObjects b)"
      by (cases "realObjects b") simp_all
    ultimately show ?thesis using ok2 by (simp add: reals_def bst_SetTimestamp_def)
  qed
qed

subsection \<open>The batch\<close>

lemma init_batch_ok:
  "bst_ok t (snd rb) \<Longrightarrow> t \<le> now E \<Longrightarrow> '''' \<notin> set keys \<Longrightarrow>
     bst_ok (now E) (snd (init_batch E keys rb)) \<and>
     reals (snd (init_batch E keys rb)) = reals (snd rb) + length keys \<and>
     dummyObjects (snd (init_batch E keys rb)) = dummyObjects (snd rb)"
proof (induction keys arbitrary: rb t)
  case Nil
  then show ?case by (auto intro: bst_ok_mono)
next
  case (Cons k keys)
  then have "bst_ok (now E) (bst_SetTimestamp k (now E) ''real'' (snd rb))"
    by (intro bst_ok_SetTimestamp) auto
  with Cons.IH [of "now E"] Cons.prems(3) show ?case by simp
qed

lemma fill_dummies_ok:
  "bst_ok t (snd rb) \<Longrightarrow> t \<le> now E \<Longrightarrow>
     bst_ok (now E) (snd (fill_dummies E n rb)) \<and>
     realObjects (snd (fill_dummies E n rb)) = realObjects (snd rb) \<and>
     dummies (snd (fill_dummies E n rb)) = dummies (snd rb)"
proof (induction n arbitrary: rb t)
  case 0
  then show ?case by (auto intro: bst_ok_mono)
next
  case (Suc n)
  obtain k b where pop: "bst_PopMin ''dummy'' (snd rb) = (k, b)" by force
  note step = pop_set_dummy [OF Suc.prems pop]
  have "fill_dummies E (Suc n) rb = fill_dummies E n
      (if k \<noteq> '''' then gm_set (getIndex (sha256 E) k (now E)) k (fst rb) else fst rb,
       if k \<noteq> '''' then bst_SetTimestamp k (now E) ''dummy'' b else b)"
    using pop by simp
  with Suc.IH [OF _ order_refl] step show ?case by (metis snd_conv)
qed

lemma fill_reals_ok:
  "bst_ok t (snd rb) \<Longrightarrow> t \<le> now E \<Longrightarrow>
     bst_ok (now E) (snd (fill_reals E c n rb)) \<and>
     reals (snd (fill_reals E c n rb)) = reals (snd rb) \<and>
     dummyObjects (snd (fill_reals E c n rb)) = dummyObjects (snd rb)"
proof (induction n arbitrary: rb t)
  case 0
  then show ?case by (auto intro: bst_ok_mono)
next
  case (Suc n)
  obtain k b where pop: "bst_PopMin ''real'' (snd rb) = (k, b)" by force
  note step = pop_set_real [OF Suc.prems pop]
  have "fill_reals E c (Suc n) rb = fill_reals E c n
      (if k \<noteq> '''' \<and> \<not> cache_Has k c
       then gm_set (getIndex (sha256 E) k (now E)) k (fst rb) else fst rb,
       if k \<noteq> '''' then bst_SetTimestamp k (now E) ''real'' b else b)"
    using pop by simp
  with Suc.IH [OF _ order_refl] step show ?case by (metis snd_conv)
qed

lemma build_batch_ok:
  assumes "bst_ok t b" and "t \<le> now E" and "'''' \<notin> set (order_dedup E (gm_keys dedup))"
  shows "bst_ok (now E) (snd (build_batch E px c dedup b)) \<and>
     reals (snd (build_batch E px c dedup b)) = reals b + length (order_dedup E (gm_keys dedup)) \<and>
     dummies (snd (build_batch E px c dedup b)) = heap_keys (dummyObjects b)"
proof -
  define rb1 where "rb1 = init_batch E (order_dedup E (gm_keys dedup)) ([], b)"
  define rb2 where "rb2 = fill_dummies E (nat (px_dummyCount px)) rb1"
  define rb3 where "rb3 = fill_reals E c (nat (px_batchSize px - int (length (fst rb2)))) rb2"
  have 1: "bst_ok (now E) (snd rb1)" "reals (snd rb1) = reals b + length (order_dedup E (gm_keys dedup))"
    "dummyObjects (snd rb1) = dummyObjects b"
    using init_batch_ok [of t "([], b)"] assms by (simp_all add: rb1_def)
  have 2: "bst_ok (now E) (snd rb2)" "reals (snd rb2) = reals (snd rb1)"
    "dummies (snd rb2) = dummies (snd rb1)"
    using fill_dummies_ok [OF 1(1) order_refl] by (simp_all add: rb2_def reals_def)
  have 3: "bst_ok (now E) (snd rb3)" "reals (snd rb3) = reals (snd rb2)"
    "dummies (snd rb3) = dummies (snd rb2)"
    using fill_reals_ok [OF 2(1) order_refl] by (simp_all add: rb3_def dummies_def)
  have "build_batch E px c dedup b =
      (if int (length (fst rb3)) < px_batchSize px
       then fill_dummies E (nat (px_batchSize px - int (length (fst rb3)))) rb3 else rb3)"
    by (simp add: build_batch_def Let_def rb1_def rb2_def rb3_def)
  with 1 2 3 fill_dummies_ok [OF 3(1) order_refl] show ?thesis
    by (simp add: dummies_def reals_def)
qed

subsection \<open>The responses\<close>

text \<open>Every index the write batch holds is a hashed index of this round.\<close>

definition rs_ok :: "env \<Rightarrow> resp_state \<Rightarrow> bool" where
  "rs_ok E s \<longleftrightarrow> lru_ok (rs_cache s) \<and> gm_wf (rs_cliResp s) \<and> gm_wf (rs_writes s) \<and>
     set (gm_keys (rs_writes s)) \<subseteq> range (\<lambda>key. getIndex (sha256 E) key (now E))"

lemma gm_wf_answer_waiting [inv_intros]: "gm_wf resp \<Longrightarrow> gm_wf (answer_waiting val reqs resp)"
  by (induction reqs arbitrary: resp) (auto intro: gm_wf_append)

lemma process_response_ok:
  assumes "rs_ok E s"
  shows "\<exists>s'. process_response E dedup key val s = Some s' \<and> rs_ok E s' \<and>
           lru_capacity (rs_cache s') = lru_capacity (rs_cache s)"
proof (cases "gm_get dedup key")
  case None
  with assms show ?thesis by (simp add: process_response_def)
next
  case (Some reqs)
  from assms have c: "lru_ok (rs_cache s)" by (simp add: rs_ok_def)
  from lru.evict_law [OF c] obtain c1 where c1:
      "cache_Evict (rs_cache s) = Some (fst (abs_evict (contents (rs_cache s))), c1)"
      "lru_ok c1" "lru_capacity c1 = lru_capacity (rs_cache s)"
    by blast
  from lru.put_law [OF c1(2), of key "GStr val"] obtain c2 where c2:
      "cache_Put key (GStr val) c1 = Some c2" "lru_ok c2" "lru_capacity c2 = lru_capacity c1"
    by blast
  obtain ek ev where "fst (abs_evict (contents (rs_cache s))) = (ek, ev)" by force
  with Some assms c1 c2 show ?thesis
    by (cases "objectIsReal key"; cases "ek = ''''")
      (auto simp: process_response_def Let_def rs_ok_def set_gm_keys_set
        intro: gm_wf_answer_waiting gm_wf_set)
qed

lemma process_responses_ok:
  "rs_ok E s \<Longrightarrow> \<exists>s'. process_responses E rb responses dedup idxs s = Some s' \<and> rs_ok E s' \<and>
     lru_capacity (rs_cache s') = lru_capacity (rs_cache s)"
proof (induction idxs arbitrary: s)
  case (Cons idx idxs)
  from process_response_ok [OF Cons.prems, of dedup "get_str rb idx" "get_str responses idx"]
  obtain s1 where s1:
      "process_response E dedup (get_str rb idx) (get_str responses idx) s = Some s1"
      "rs_ok E s1" "lru_capacity (rs_cache s1) = lru_capacity (rs_cache s)"
    by blast
  from Cons.IH [OF s1(2)] s1 show ?case by auto
qed simp

subsection \<open>One round\<close>

text \<open>The orders of map iteration are permutations of the keys.\<close>

definition env_ok :: "env \<Rightarrow> bool" where
  "env_ok E \<longleftrightarrow> (\<forall>xs. mset (order_dedup E xs) = mset xs) \<and>
     (\<forall>xs. mset (order_responses E xs) = mset xs) \<and> (\<forall>xs. mset (order_writes E xs) = mset xs)"

lemma env_ok_set:
  assumes "env_ok E"
  shows "set (order_dedup E xs) = set xs" "length (order_dedup E xs) = length xs"
    "set (order_responses E xs) = set xs" "set (order_writes E xs) = set xs"
  using assms by (metis env_ok_def set_mset_mset size_mset)+

lemma handleRequests_ok:
  assumes E: "env_ok E" and px: "proxy_ok t px" and t: "t \<le> now E"
  shows "\<exists>s r px'. handleRequests E reqs px = Some (r, px') \<and>
    process_requests reqs
      \<lparr>ls_cache = px_cache px, ls_bst = px_bst px, ls_cliResp = [], ls_dedup = []\<rparr> = Some s \<and>
    ls_ok t s \<and> proxy_ok (now E) px' \<and>
    rp_fetched r = fst (build_batch E px (ls_cache s) (ls_dedup s) (ls_bst s)) \<and>
    px_bst px' = snd (build_batch E px (ls_cache s) (ls_dedup s) (ls_bst s)) \<and>
    reals (px_bst px') = reals (px_bst px) + length (filter effective reqs) + length (ls_dedup s) \<and>
    dummies (px_bst px') = dummies (px_bst px) \<and>
    fst ` set (rp_puts r) \<subseteq> range (\<lambda>key. getIndex (sha256 E) key (now E)) \<and>
    lru_capacity (px_cache px') = lru_capacity (px_cache px) \<and>
    px_batchSize px' = px_batchSize px \<and> px_dummyCount px' = px_dummyCount px"
proof -
  let ?s0 = "\<lparr>ls_cache = px_cache px, ls_bst = px_bst px, ls_cliResp = [], ls_dedup = []\<rparr>"
  have "ls_ok t ?s0" using px by (simp add: ls_ok_def proxy_ok_def gm_keys_def)
  from process_requests_ok [OF this, of reqs] obtain s where s:
      "process_requests reqs ?s0 = Some s" "ls_ok t s"
      "lru_capacity (ls_cache s) = lru_capacity (px_cache px)"
      "dummyObjects (ls_bst s) = dummyObjects (px_bst px)"
      "reals (ls_bst s) = reals (px_bst px) + length (filter effective reqs)"
    by auto
  let ?B = "build_batch E px (ls_cache s) (ls_dedup s) (ls_bst s)"
  let ?R = "fetch_batch E (fst ?B)"
  let ?r0 = "\<lparr>rs_cache = ls_cache s, rs_cliResp = ls_cliResp s, rs_writes = []\<rparr>"
  have "'''' \<notin> set (order_dedup E (gm_keys (ls_dedup s)))"
    using s(2) env_ok_set [OF E] by (simp add: ls_ok_def)
  with build_batch_ok [of t "ls_bst s" E "ls_dedup s" px "ls_cache s"] s(2) t env_ok_set(2) [OF E]
  have b: "bst_ok (now E) (snd ?B)" "reals (snd ?B) = reals (ls_bst s) + length (ls_dedup s)"
    "dummies (snd ?B) = heap_keys (dummyObjects (ls_bst s))"
    by (auto simp: ls_ok_def)
  have "rs_ok E ?r0" using s(2) by (simp add: rs_ok_def ls_ok_def gm_keys_def)
  from process_responses_ok [OF this] obtain r where r:
      "process_responses E (fst ?B) ?R (ls_dedup s) (order_responses E (gm_keys ?R)) ?r0 = Some r"
      "rs_ok E r" "lru_capacity (rs_cache r) = lru_capacity (ls_cache s)"
    by (metis resp_state.select_convs(1))
  have "handleRequests E reqs px = Some
     (\<lparr>rp_result = collapse_all (rs_cliResp r), rp_fetched = fst ?B,
       rp_puts = map (\<lambda>idx. (idx, get_str (rs_writes r) idx)) (order_writes E (gm_keys (rs_writes r)))\<rparr>,
      px\<lparr>px_cache := rs_cache r, px_bst := snd ?B\<rparr>)"
    using s(1) r(1) by (simp add: handleRequests_def split_beta Let_def)
  with s b r env_ok_set(4) [OF E] show ?thesis
    by (auto simp: proxy_ok_def rs_ok_def dummies_def image_image)
qed

end
