(* ===== verification/Proxy_Batch.thy ===== *)
theory Proxy_Batch
  imports Proxy_Rounds
begin

text \<open>
  The size and the content of a fetch batch (\<open>mains/proxy.go\<close>, lines 415-459): a batch never
  exceeds the batch size unless the missed keys force it to, and it has exactly the batch size
  when the clock has moved on since the dummy keys were last fetched, as long as no two keys of
  the proxy have the same index. The batch holds every key a client is waiting for.
\<close>

abbreviation idx_at :: "env \<Rightarrow> string \<Rightarrow> string" where
  "idx_at E k \<equiv> getIndex (sha256 E) k (now E)"

section \<open>An upper bound\<close>

lemma length_gm_set_le: "length (gm_set k v m) \<le> Suc (length m)"
  unfolding gm_set_def by (induction m) auto

lemma length_init_batch: "length (fst (init_batch E keys rb)) \<le> length (fst rb) + length keys"
proof (induction keys arbitrary: rb)
  case (Cons k keys)
  show ?case
    using Cons [of "(gm_set (idx_at E k) k (fst rb), bst_SetTimestamp k (now E) ''real'' (snd rb))"]
      length_gm_set_le [of "idx_at E k" k "fst rb"] by simp
qed simp

lemma length_fill_dummies: "length (fst (fill_dummies E n rb)) \<le> length (fst rb) + n"
proof (induction n arbitrary: rb)
  case (Suc n)
  obtain k b where "bst_PopMin ''dummy'' (snd rb) = (k, b)" by force
  then show ?case
    using Suc [of "(fst rb, b)"] Suc [of "(gm_set (idx_at E k) k (fst rb), bst_SetTimestamp k (now E) ''dummy'' b)"]
      length_gm_set_le [of "idx_at E k" k "fst rb"] by simp
qed simp

lemma length_fill_reals: "length (fst (fill_reals E c n rb)) \<le> length (fst rb) + n"
proof (induction n arbitrary: rb)
  case (Suc n)
  obtain k b where "bst_PopMin ''real'' (snd rb) = (k, b)" by force
  then show ?case
    using Suc [of "(fst rb, b)"] Suc [of "(gm_set (idx_at E k) k (fst rb), bst_SetTimestamp k (now E) ''real'' b)"]
      Suc [of "(fst rb, bst_SetTimestamp k (now E) ''real'' b)"]
      length_gm_set_le [of "idx_at E k" k "fst rb"] by simp
qed simp

lemma length_build_batch:
  "int (length (fst (build_batch E px c dedup b)))
     \<le> max (px_batchSize px) (int (length (order_dedup E (gm_keys dedup))) + max 0 (px_dummyCount px))"
proof -
  define rb1 where "rb1 = init_batch E (order_dedup E (gm_keys dedup)) ([], b)"
  define rb2 where "rb2 = fill_dummies E (nat (px_dummyCount px)) rb1"
  define rb3 where "rb3 = fill_reals E c (nat (px_batchSize px - int (length (fst rb2)))) rb2"
  have 1: "length (fst rb1) \<le> length (order_dedup E (gm_keys dedup))"
    using length_init_batch [of E _ "([], b)"] by (simp add: rb1_def)
  have 2: "length (fst rb2) \<le> length (fst rb1) + nat (px_dummyCount px)"
    unfolding rb2_def by (rule length_fill_dummies)
  have 3: "length (fst rb3) \<le> length (fst rb2) + nat (px_batchSize px - int (length (fst rb2)))"
    unfolding rb3_def by (rule length_fill_reals)
  have 4: "length (fst (fill_dummies E (nat (px_batchSize px - int (length (fst rb3)))) rb3))
      \<le> length (fst rb3) + nat (px_batchSize px - int (length (fst rb3)))"
    by (rule length_fill_dummies)
  have "build_batch E px c dedup b =
      (if int (length (fst rb3)) < px_batchSize px
       then fill_dummies E (nat (px_batchSize px - int (length (fst rb3)))) rb3 else rb3)"
    by (simp add: build_batch_def Let_def rb1_def rb2_def rb3_def)
  then show ?thesis using 1 2 3 4 by (auto simp: max_def split: if_splits)
qed

text \<open>The keys that wait for an answer are keys the loop acted on.\<close>

lemma process_request_dedup:
  assumes "process_request r s = Some s'"
  shows "set (gm_keys (ls_dedup s')) \<subseteq> set (gm_keys (ls_dedup s)) \<union> (if effective r then {p_Key r} else {})"
  using assms
  by (auto simp: process_request_def process_read_def process_write_def effective_def Let_def
      set_gm_keys_append bind_eq_Some_conv split: if_splits option.splits)

lemma process_requests_dedup:
  "process_requests rs s = Some s' \<Longrightarrow>
     set (gm_keys (ls_dedup s')) \<subseteq> set (gm_keys (ls_dedup s)) \<union> p_Key ` set (filter effective rs)"
proof (induction rs arbitrary: s)
  case (Cons r rs)
  from Cons.prems obtain s1 where s1: "process_request r s = Some s1" "process_requests rs s1 = Some s'"
    by (auto simp: bind_eq_Some_conv)
  from Cons.IH [OF s1(2)] process_request_dedup [OF s1(1)] show ?case by (auto split: if_splits)
qed simp

lemma length_dedup:
  assumes "process_requests reqs \<lparr>ls_cache = c, ls_bst = b, ls_cliResp = [], ls_dedup = []\<rparr> = Some s"
    and "ls_ok t s"
  shows "length (ls_dedup s) \<le> card (p_Key ` set (filter effective reqs))"
proof -
  have "set (gm_keys (ls_dedup s)) \<subseteq> p_Key ` set (filter effective reqs)"
    using process_requests_dedup [OF assms(1)] by (simp add: gm_keys_def)
  then have "card (set (gm_keys (ls_dedup s))) \<le> card (p_Key ` set (filter effective reqs))"
    by (intro card_mono) auto
  with assms(2) show ?thesis by (simp add: ls_ok_def card_gm_keys)
qed

text \<open>C7: A round never fetches more than the batch size, unless the distinct keys of its requests
  together with the fixed share of dummies already exceed it.\<close>

theorem proxy_batch_bound:
  assumes "env_ok E" and "proxy_ok t px" and "t \<le> now E"
  shows "\<exists>r px'. handleRequests E reqs px = Some (r, px') \<and>
    int (length (rp_fetched r)) \<le> max (px_batchSize px)
      (int (card (p_Key ` set (filter effective reqs))) + max 0 (px_dummyCount px))"
proof -
  from handleRequests_ok [OF assms, of reqs] obtain s r px' where
      1: "handleRequests E reqs px = Some (r, px')" and
      2: "process_requests reqs
        \<lparr>ls_cache = px_cache px, ls_bst = px_bst px, ls_cliResp = [], ls_dedup = []\<rparr> = Some s"
        "ls_ok t s" and
      3: "rp_fetched r = fst (build_batch E px (ls_cache s) (ls_dedup s) (ls_bst s))"
    by (elim exE conjE) (rule that, assumption+)
  show ?thesis
    using 1 3 length_dedup [OF 2] length_build_batch [of E px "ls_cache s" "ls_dedup s" "ls_bst s"]
      env_ok_set(2) [OF assms(1)] by (intro exI [of _ r] exI [of _ px']) (auto simp: max_def split: if_splits)
qed

lemma proxy_ok_main: "0 \<le> t \<Longrightarrow> proxy_ok t (proxy_main cs bs ds)"
  using proxy_main_ok(1) [of cs bs ds] by (auto simp: proxy_ok_def intro: bst_ok_mono)

theorem proxy_batch_bound_witness:
  "\<exists>r px'. handleRequests (demo_env 5 Map.empty) [rd ''1'' ''a'', rd ''2'' ''b'', rd ''3'' ''a''] (proxy_main 1 2 3)
     = Some (r, px') \<and> int (length (rp_fetched r)) \<le> 3"
proof -
  have "card (p_Key ` set (filter effective [rd ''1'' ''a'', rd ''2'' ''b'', rd ''3'' ''a''])) = 2"
    by (simp add: effective_def insert_commute [of _ "''b''"])
  moreover have "px_batchSize (proxy_main 1 2 3) = 2" and "px_dummyCount (proxy_main 1 2 3) = 1"
    by (simp_all add: proxy_main_def go_half_def)
  ultimately show ?thesis
    using proxy_batch_bound [where E = "demo_env 5 Map.empty" and t = 5 and px = "proxy_main 1 2 3"
        and reqs = "[rd ''1'' ''a'', rd ''2'' ''b'', rd ''3'' ''a'']"] by (simp add: proxy_ok_main)
qed

section \<open>The content of a batch\<close>

text \<open>Every entry of a batch is a key of \<open>K\<close> under its own index.\<close>

definition batch_wf :: "env \<Rightarrow> string set \<Rightarrow> read_batch \<Rightarrow> bool" where
  "batch_wf E K rb \<longleftrightarrow> gm_wf rb \<and> (\<forall>(i, k) \<in> set rb. i = idx_at E k \<and> k \<in> K)"

lemma set_gm_set: "gm_wf m \<Longrightarrow> set (gm_set i k m) = insert (i, k) {p \<in> set m. fst p \<noteq> i}"
  by (auto simp: gm_get_Some_iff [symmetric] gm_wf_set gm_get_set split: if_splits)

lemma batch_wf_set: "batch_wf E K rb \<Longrightarrow> k \<in> K \<Longrightarrow> batch_wf E K (gm_set (idx_at E k) k rb)"
  by (auto simp: batch_wf_def gm_wf_set set_gm_set)

lemma batch_wf_empty [simp]: "batch_wf E K []"
  by (simp add: batch_wf_def)

text \<open>A key once in the batch stays: only its own index is overwritten, with itself.\<close>

lemma batch_keeps:
  assumes "inj_on (idx_at E) K" and "k \<in> K" and "k' \<in> K" and "gm_get rb (idx_at E k') = Some k'"
  shows "gm_get (gm_set (idx_at E k) k rb) (idx_at E k') = Some k'"
  using assms by (auto simp: gm_get_set dest: inj_onD)

definition heap_key_set :: "BSTHeap \<Rightarrow> string set" where
  "heap_key_set b = he_key ` set (realObjects b) \<union> he_key ` set (dummyObjects b)"

lemma heap_key_set_PopMin:
  assumes "bst_ok t b" and "bst_PopMin ty b = (k, b1)"
  shows "heap_key_set b1 \<subseteq> heap_key_set b" and "k \<noteq> '''' \<Longrightarrow> k \<in> heap_key_set b"
proof (atomize (full), cases "ty = ''dummy''")
  case True
  with bst_PopMin_dummy [OF assms(1)] assms(2)
  show "heap_key_set b1 \<subseteq> heap_key_set b \<and> (k \<noteq> '''' \<longrightarrow> k \<in> heap_key_set b)"
    by (cases "dummyObjects b = []") (auto simp: heap_key_set_def dest: set_removed)
next
  case False
  with bst_PopMin_real [OF assms(1) False] assms(2)
  show "heap_key_set b1 \<subseteq> heap_key_set b \<and> (k \<noteq> '''' \<longrightarrow> k \<in> heap_key_set b)"
    by (cases "realObjects b = []") (auto simp: heap_key_set_def dest: set_removed)
qed

lemma heap_key_set_SetTimestamp [simp]:
  "ty = ''real'' \<or> ty = ''dummy'' \<Longrightarrow> heap_key_set (bst_SetTimestamp k t ty b) = insert k (heap_key_set b)"
  by (auto simp: heap_key_set_def bst_SetTimestamp_def Let_def)

text \<open>What each stage of filling a batch keeps, over a set \<open>K\<close> of keys with distinct indices.\<close>

definition stage_ok :: "env \<Rightarrow> string set \<Rightarrow> int \<Rightarrow> read_batch \<times> BSTHeap \<Rightarrow> bool" where
  "stage_ok E K t rb \<longleftrightarrow> batch_wf E K (fst rb) \<and> bst_ok t (snd rb) \<and> heap_key_set (snd rb) \<subseteq> K"

definition holds :: "env \<Rightarrow> string set \<Rightarrow> read_batch \<times> BSTHeap \<Rightarrow> string \<Rightarrow> bool" where
  "holds E K rb k \<longleftrightarrow> k \<in> K \<and> gm_get (fst rb) (idx_at E k) = Some k"

lemma stage_pop:
  assumes "stage_ok E K t rb" and "t \<le> now E" and "bst_PopMin ty (snd rb) = (k, b)"
    and "inj_on (idx_at E) K" and ty: "ty = ''real'' \<or> ty = ''dummy''"
  shows "stage_ok E K (now E) (fst rb, if k \<noteq> '''' then bst_SetTimestamp k (now E) ty b else b)"
    and "k \<noteq> '''' \<Longrightarrow> stage_ok E K (now E) (gm_set (idx_at E k) k (fst rb), bst_SetTimestamp k (now E) ty b)"
    and "k \<noteq> '''' \<Longrightarrow> holds E K rb k' \<Longrightarrow> holds E K (gm_set (idx_at E k) k (fst rb), b') k'"
proof -
  from assms(1) have ok: "bst_ok t (snd rb)" and K: "heap_key_set (snd rb) \<subseteq> K"
    and wf: "batch_wf E K (fst rb)" by (simp_all add: stage_ok_def)
  have b: "bst_ok t b" using bst_ok_PopMin [OF ok, of ty] assms(3) by simp
  then have b': "bst_ok (now E) (if k \<noteq> '''' then bst_SetTimestamp k (now E) ty b else b)"
    using assms(2) by (auto intro: bst_ok_SetTimestamp bst_ok_mono)
  note hk = heap_key_set_PopMin [OF ok assms(3)]
  show "stage_ok E K (now E) (fst rb, if k \<noteq> '''' then bst_SetTimestamp k (now E) ty b else b)"
    using wf b' hk K ty by (auto simp: stage_ok_def)
  show "k \<noteq> '''' \<Longrightarrow> stage_ok E K (now E) (gm_set (idx_at E k) k (fst rb), bst_SetTimestamp k (now E) ty b)"
    using wf b' hk K ty by (auto simp: stage_ok_def intro: batch_wf_set)
  show "k \<noteq> '''' \<Longrightarrow> holds E K rb k' \<Longrightarrow> holds E K (gm_set (idx_at E k) k (fst rb), b') k'"
    using batch_keeps [OF assms(4), of k k' "fst rb"] hk K by (auto simp: holds_def)
qed

lemma stage_dummies:
  "stage_ok E K t rb \<Longrightarrow> t \<le> now E \<Longrightarrow> inj_on (idx_at E) K \<Longrightarrow>
     stage_ok E K (now E) (fill_dummies E n rb) \<and> (\<forall>k'. holds E K rb k' \<longrightarrow> holds E K (fill_dummies E n rb) k')"
proof (induction n arbitrary: rb t)
  case 0
  then show ?case by (auto simp: stage_ok_def intro: bst_ok_mono)
next
  case (Suc n)
  obtain k b where pop: "bst_PopMin ''dummy'' (snd rb) = (k, b)" by force
  note step = stage_pop [OF Suc.prems(1,2) pop Suc.prems(3) disjI2 [OF refl]]
  show ?case
  proof (cases "k = ''''")
    case True
    have "holds E K (fst rb, b) k' = holds E K rb k'" for k' by (simp add: holds_def)
    with Suc.IH [OF _ order_refl Suc.prems(3), of "(fst rb, b)"] step(1) True pop show ?thesis by simp
  next
    case False
    with Suc.IH [OF step(2) order_refl Suc.prems(3)] step(3) pop show ?thesis by simp
  qed
qed

lemma stage_reals:
  "stage_ok E K t rb \<Longrightarrow> t \<le> now E \<Longrightarrow> inj_on (idx_at E) K \<Longrightarrow>
     stage_ok E K (now E) (fill_reals E c n rb) \<and> (\<forall>k'. holds E K rb k' \<longrightarrow> holds E K (fill_reals E c n rb) k')"
proof (induction n arbitrary: rb t)
  case 0
  then show ?case by (auto simp: stage_ok_def intro: bst_ok_mono)
next
  case (Suc n)
  obtain k b where pop: "bst_PopMin ''real'' (snd rb) = (k, b)" by force
  note step = stage_pop [OF Suc.prems(1,2) pop Suc.prems(3) disjI1 [OF refl]]
  have same: "holds E K (fst rb, b') k' = holds E K rb k'" for k' b' by (simp add: holds_def)
  show ?case
  proof (cases "k = '''' \<or> cache_Has k c")
    case True
    with Suc.IH [OF _ order_refl Suc.prems(3), of "(fst rb, b)"]
      Suc.IH [OF _ order_refl Suc.prems(3), of "(fst rb, bst_SetTimestamp k (now E) ''real'' b)"]
      step(1) pop same show ?thesis by (cases "k = ''''") simp_all
  next
    case False
    with Suc.IH [OF step(2) order_refl Suc.prems(3)] step(3) pop show ?thesis by simp
  qed
qed

lemma stage_init:
  "stage_ok E K t rb \<Longrightarrow> t \<le> now E \<Longrightarrow> inj_on (idx_at E) K \<Longrightarrow> set keys \<subseteq> K - {''''} \<Longrightarrow>
     stage_ok E K (now E) (init_batch E keys rb) \<and>
     (\<forall>k'. holds E K rb k' \<or> k' \<in> set keys \<longrightarrow> holds E K (init_batch E keys rb) k')"
proof (induction keys arbitrary: rb t)
  case Nil
  then show ?case by (auto simp: stage_ok_def intro: bst_ok_mono)
next
  case (Cons k keys)
  let ?rb = "(gm_set (idx_at E k) k (fst rb), bst_SetTimestamp k (now E) ''real'' (snd rb))"
  from Cons.prems have ok: "stage_ok E K (now E) ?rb"
    by (auto simp: stage_ok_def intro: bst_ok_SetTimestamp batch_wf_set)
  have "holds E K ?rb k" using Cons.prems(4) by (simp add: holds_def gm_get_set)
  moreover have "holds E K rb k' \<Longrightarrow> holds E K ?rb k'" for k'
    using Cons.prems(3,4) batch_keeps [of E K k k' "fst rb"] by (simp add: holds_def)
  moreover from Cons.prems(4) have "set keys \<subseteq> K - {''''}" by simp
  ultimately show ?case using Cons.IH [OF ok order_refl Cons.prems(3)] by auto
qed

lemma build_batch_holds:
  assumes "bst_ok t b" and "t \<le> now E" and "inj_on (idx_at E) K" and "heap_key_set b \<subseteq> K"
    and "set (order_dedup E (gm_keys dedup)) \<subseteq> K - {''''}"
  shows "batch_wf E K (fst (build_batch E px c dedup b))"
    and "k \<in> set (order_dedup E (gm_keys dedup)) \<Longrightarrow>
           gm_get (fst (build_batch E px c dedup b)) (idx_at E k) = Some k"
proof -
  define rb1 where "rb1 = init_batch E (order_dedup E (gm_keys dedup)) ([], b)"
  define rb2 where "rb2 = fill_dummies E (nat (px_dummyCount px)) rb1"
  define rb3 where "rb3 = fill_reals E c (nat (px_batchSize px - int (length (fst rb2)))) rb2"
  have 0: "stage_ok E K t ([], b)" using assms(1,4) by (simp add: stage_ok_def)
  note 1 = stage_init [OF 0 assms(2,3,5), folded rb1_def]
  note 2 = stage_dummies [OF conjunct1 [OF 1] order_refl assms(3), of "nat (px_dummyCount px)", folded rb2_def]
  note 3 = stage_reals [OF conjunct1 [OF 2] order_refl assms(3), of c
      "nat (px_batchSize px - int (length (fst rb2)))", folded rb3_def]
  note 4 = stage_dummies [OF conjunct1 [OF 3] order_refl assms(3), of "nat (px_batchSize px - int (length (fst rb3)))"]
  have "build_batch E px c dedup b =
      (if int (length (fst rb3)) < px_batchSize px
       then fill_dummies E (nat (px_batchSize px - int (length (fst rb3)))) rb3 else rb3)"
    by (simp add: build_batch_def Let_def rb1_def rb2_def rb3_def)
  with 1 2 3 4 show "batch_wf E K (fst (build_batch E px c dedup b))"
    and "k \<in> set (order_dedup E (gm_keys dedup)) \<Longrightarrow>
           gm_get (fst (build_batch E px c dedup b)) (idx_at E k) = Some k"
    by (auto simp: stage_ok_def holds_def)
qed

section \<open>The exact size\<close>

text \<open>The dummy entries that were last fetched before this second.\<close>

definition stale :: "env \<Rightarrow> BSTHeap \<Rightarrow> HeapEntry multiset" where
  "stale E b = filter_mset (\<lambda>e. timestamp e < now E) (mset (dummyObjects b))"

text \<open>The dummy keys are distinct, are no real keys, and the stale ones are not in the batch yet.\<close>

definition fill_ok :: "env \<Rightarrow> string set \<Rightarrow> int \<Rightarrow> read_batch \<times> BSTHeap \<Rightarrow> bool" where
  "fill_ok E K t rb \<longleftrightarrow> stage_ok E K t rb \<and> (\<forall>k. count (dummies (snd rb)) k \<le> 1) \<and>
     (\<forall>e \<in> set (realObjects (snd rb)). he_key e \<notin># dummies (snd rb)) \<and>
     (\<forall>e \<in># stale E (snd rb). gm_get (fst rb) (idx_at E (he_key e)) = None)"

lemma other_key:
  assumes "\<forall>k. count (image_mset f M) k \<le> (1::nat)" and "e \<in># M" and "e' \<in># M - {#e#}"
  shows "f e' \<noteq> f e"
proof
  assume eq: "f e' = f e"
  obtain N where "M = add_mset e N" using assms(2) by (metis multi_member_split)
  moreover obtain N' where "N = add_mset e' N'"
    using assms(3) \<open>M = add_mset e N\<close> by (metis add_mset_remove_trivial multi_member_split)
  ultimately have "2 \<le> count (image_mset f M) (f e)" using eq by simp
  with assms(1) show False by (metis Suc_1 not_less_eq_eq)
qed

lemma stale_key: "stage_ok E K t rb \<Longrightarrow> e \<in># stale E (snd rb) \<Longrightarrow> he_key e \<in> K"
  by (auto simp: stale_def stage_ok_def heap_key_set_def)

lemma length_gm_set_new: "gm_get m k = None \<Longrightarrow> gm_wf m \<Longrightarrow> length (gm_set k v m) = Suc (length m)"
  using gm_get_None_iff [of m k] by (simp add: length_gm_set)

lemma fill_dummy_step:
  assumes ok: "fill_ok E K t rb" and t: "t \<le> now E" and inj: "inj_on (idx_at E) K"
    and ne: "stale E (snd rb) \<noteq> {#}" and pop: "bst_PopMin ''dummy'' (snd rb) = (k, b)"
  shows "k \<noteq> ''''"
    and "fill_ok E K (now E) (gm_set (idx_at E k) k (fst rb), bst_SetTimestamp k (now E) ''dummy'' b)"
    and "length (gm_set (idx_at E k) k (fst rb)) = Suc (length (fst rb))"
    and "Suc (size (stale E (bst_SetTimestamp k (now E) ''dummy'' b))) = size (stale E (snd rb))"
proof -
  from ok have st: "stage_ok E K t rb" and bok: "bst_ok t (snd rb)"
    and one: "\<forall>k. count (dummies (snd rb)) k \<le> 1" and wf: "gm_wf (fst rb)"
    by (auto simp: fill_ok_def stage_ok_def batch_wf_def)
  from ne have "dummyObjects (snd rb) \<noteq> []" by (auto simp: stale_def)
  with bst_PopMin_dummy [OF bok] pop obtain e h where e: "k = he_key e"
      "b = (snd rb)\<lparr>dummyObjects := h\<rparr>" "e \<in># mset (dummyObjects (snd rb))" "he_key e \<noteq> ''''"
      "\<forall>x \<in># mset (dummyObjects (snd rb)). timestamp e \<le> timestamp x"
      "mset h = mset (dummyObjects (snd rb)) - {#e#}"
    by auto
  from ne obtain x where "x \<in># stale E (snd rb)" by blast
  with e(5) have young: "timestamp e < now E" by (auto simp: stale_def intro: le_less_trans)
  with e(3) have mem: "e \<in># stale E (snd rb)" by (simp add: stale_def)
  show k: "k \<noteq> ''''" using e by simp
  have st': "stale E (bst_SetTimestamp k (now E) ''dummy'' b) = stale E (snd rb) - {#e#}"
    using e(2,6) young by (simp add: stale_def heap_Insert_mset)
  with mem show "Suc (size (stale E (bst_SetTimestamp k (now E) ''dummy'' b))) = size (stale E (snd rb))"
    by (metis insert_DiffM size_add_mset)
  from mem ok have none: "gm_get (fst rb) (idx_at E k) = None" by (simp add: fill_ok_def e(1))
  then show "length (gm_set (idx_at E k) k (fst rb)) = Suc (length (fst rb))"
    using wf by (simp add: length_gm_set_new)
  have d: "dummies (bst_SetTimestamp k (now E) ''dummy'' b) = dummies (snd rb)"
    and r: "realObjects (bst_SetTimestamp k (now E) ''dummy'' b) = realObjects (snd rb)"
    using pop_set_dummy(2,3) [OF bok t pop] k by simp_all
  have "gm_get (gm_set (idx_at E k) k (fst rb)) (idx_at E (he_key e')) = None"
    if "e' \<in># stale E (snd rb) - {#e#}" for e'
  proof -
    have "stale E (snd rb) - {#e#}
        = filter_mset (\<lambda>e. timestamp e < now E) (mset (dummyObjects (snd rb)) - {#e#})"
      using young by (simp add: stale_def)
    with that have "e' \<in># mset (dummyObjects (snd rb)) - {#e#}"
      by (metis (no_types, lifting) mset_subset_eqD multiset_filter_subset)
    moreover have s: "e' \<in># stale E (snd rb)" using that by (rule in_diffD)
    ultimately have "he_key e' \<noteq> k"
      using other_key [of he_key "mset (dummyObjects (snd rb))" e e'] one e(1,3)
      by (simp add: dummies_def heap_keys_def)
    moreover have "he_key e' \<in> K" "k \<in> K"
      using stale_key [OF st s] stale_key [OF st mem] e(1) by simp_all
    ultimately have "idx_at E (he_key e') \<noteq> idx_at E k" using inj by (auto dest: inj_onD)
    moreover have "gm_get (fst rb) (idx_at E (he_key e')) = None" using ok s by (simp add: fill_ok_def)
    ultimately show ?thesis by (simp add: gm_get_set)
  qed
  then show "fill_ok E K (now E) (gm_set (idx_at E k) k (fst rb), bst_SetTimestamp k (now E) ''dummy'' b)"
    using ok stage_pop(2) [OF st t pop inj] k d r st' by (simp add: fill_ok_def)
qed

lemma fill_ok_mono: "fill_ok E K t rb \<Longrightarrow> t \<le> now E \<Longrightarrow> fill_ok E K (now E) rb"
  by (auto simp: fill_ok_def stage_ok_def intro: bst_ok_mono)

lemma fill_dummies_exact:
  "fill_ok E K t rb \<Longrightarrow> t \<le> now E \<Longrightarrow> inj_on (idx_at E) K \<Longrightarrow> n \<le> size (stale E (snd rb)) \<Longrightarrow>
     fill_ok E K (now E) (fill_dummies E n rb) \<and>
     length (fst (fill_dummies E n rb)) = length (fst rb) + n \<and>
     size (stale E (snd (fill_dummies E n rb))) = size (stale E (snd rb)) - n"
proof (induction n arbitrary: rb t)
  case 0
  then show ?case by (simp add: fill_ok_mono)
next
  case (Suc n)
  obtain k b where pop: "bst_PopMin ''dummy'' (snd rb) = (k, b)" by force
  from Suc.prems(4) have "stale E (snd rb) \<noteq> {#}" by auto
  note step = fill_dummy_step [OF Suc.prems(1-3) this pop]
  from Suc.IH [OF step(2) order_refl Suc.prems(3)] step(1,3,4) Suc.prems(4) pop
  show ?case by simp
qed

text \<open>Keys that are no dummy keys disturb nothing.\<close>

lemma fill_ok_real:
  assumes ok: "fill_ok E K t rb" and inj: "inj_on (idx_at E) K" and k: "k \<in> K" "k \<notin># dummies (snd rb)"
    and b: "stage_ok E K t' (m, b)" "dummyObjects b = dummyObjects (snd rb)"
      "set (realObjects b) \<subseteq> insert \<lparr>timestamp = s, he_key = k\<rparr> (set (realObjects (snd rb)))"
    and m: "m = fst rb \<or> m = gm_set (idx_at E k) k (fst rb)"
  shows "fill_ok E K t' (m, b)"
proof -
  have d: "dummies b = dummies (snd rb)" "stale E b = stale E (snd rb)"
    using b(2) by (simp_all add: dummies_def stale_def)
  have "gm_get m (idx_at E (he_key e)) = None" if "e \<in># stale E (snd rb)" for e
  proof -
    have "he_key e \<in># dummies (snd rb)"
      using that by (auto simp: stale_def dummies_def heap_keys_def)
    with k(2) have "he_key e \<noteq> k" by blast
    moreover have "he_key e \<in> K" using stale_key [of E K t rb e, OF _ that] ok by (simp add: fill_ok_def)
    ultimately have "idx_at E (he_key e) \<noteq> idx_at E k" using inj k(1) by (auto dest: inj_onD)
    with m that ok show ?thesis by (auto simp: fill_ok_def gm_get_set)
  qed
  with ok b k d show ?thesis by (auto simp: fill_ok_def)
qed

lemma fill_reals_exact:
  "fill_ok E K t rb \<Longrightarrow> t \<le> now E \<Longrightarrow> inj_on (idx_at E) K \<Longrightarrow>
     fill_ok E K (now E) (fill_reals E c n rb) \<and>
     length (fst rb) \<le> length (fst (fill_reals E c n rb)) \<and>
     stale E (snd (fill_reals E c n rb)) = stale E (snd rb)"
proof (induction n arbitrary: rb t)
  case 0
  then show ?case by (simp add: fill_ok_mono)
next
  case (Suc n)
  obtain k b where pop: "bst_PopMin ''real'' (snd rb) = (k, b)" by force
  from Suc.prems(1) have st: "stage_ok E K t rb" and bok: "bst_ok t (snd rb)"
    and K: "heap_key_set (snd rb) \<subseteq> K" and wf: "gm_wf (fst rb)"
    by (auto simp: fill_ok_def stage_ok_def batch_wf_def)
  note step = stage_pop [OF st Suc.prems(2) pop Suc.prems(3) disjI1 [OF refl]]
  show ?case
  proof (cases "realObjects (snd rb) = []")
    case True
    with bst_PopMin_real [OF bok, of "''real''"] pop have "k = ''''" "b = snd rb" by simp_all
    with Suc.IH [OF fill_ok_mono [OF Suc.prems(1,2)] order_refl Suc.prems(3)] pop show ?thesis by simp
  next
    case False
    with bst_PopMin_real [OF bok, of "''real''"] pop obtain e h where e: "k = he_key e"
        "b = (snd rb)\<lparr>realObjects := h\<rparr>" "e \<in># mset (realObjects (snd rb))" "he_key e \<noteq> ''''"
        "mset h = mset (realObjects (snd rb)) - {#e#}"
      by auto
    let ?b = "bst_SetTimestamp k (now E) ''real'' b"
    have k: "k \<noteq> ''''" "k \<in> K" "k \<notin># dummies (snd rb)"
      using e(1,3,4) K Suc.prems(1) by (auto simp: heap_key_set_def fill_ok_def)
    have b: "dummyObjects ?b = dummyObjects (snd rb)"
      "set (realObjects ?b) \<subseteq> insert \<lparr>timestamp = now E, he_key = k\<rparr> (set (realObjects (snd rb)))"
      using e(2) set_removed [OF e(5)] by (auto simp: bst_SetTimestamp_def Let_def)
    have 1: "fill_ok E K (now E) (fst rb, ?b)" 
      using fill_ok_real [OF Suc.prems(1,3) k(2,3) _ b, of "now E" "fst rb"] step(1) k(1) by simp
    have 2: "fill_ok E K (now E) (gm_set (idx_at E k) k (fst rb), ?b)"
      using fill_ok_real [OF Suc.prems(1,3) k(2,3) step(2) b] k(1) by simp
    have s: "stale E ?b = stale E (snd rb)" using b(1) by (simp add: stale_def)
    have l: "length (fst rb) \<le> length (gm_set (idx_at E k) k (fst rb))"
      using wf by (simp add: length_gm_set)
    show ?thesis
      using Suc.IH [OF 1 order_refl Suc.prems(3)] Suc.IH [OF 2 order_refl Suc.prems(3)] pop k(1) s l
      by (cases "cache_Has k c") auto
  qed
qed

lemma init_batch_exact:
  "fill_ok E K t rb \<Longrightarrow> t \<le> now E \<Longrightarrow> inj_on (idx_at E) K \<Longrightarrow> set keys \<subseteq> K - {''''} \<Longrightarrow>
     set keys \<inter> set_mset (dummies (snd rb)) = {} \<Longrightarrow>
     fill_ok E K (now E) (init_batch E keys rb) \<and>
     stale E (snd (init_batch E keys rb)) = stale E (snd rb)"
proof (induction keys arbitrary: rb t)
  case Nil
  then show ?case by (simp add: fill_ok_mono)
next
  case (Cons k keys)
  let ?b = "bst_SetTimestamp k (now E) ''real'' (snd rb)"
  have b: "dummyObjects ?b = dummyObjects (snd rb)"
      "set (realObjects ?b) \<subseteq> insert \<lparr>timestamp = now E, he_key = k\<rparr> (set (realObjects (snd rb)))"
    by (simp_all add: bst_SetTimestamp_def Let_def)
  have "stage_ok E K (now E) (gm_set (idx_at E k) k (fst rb), ?b)"
    using Cons.prems by (auto simp: fill_ok_def stage_ok_def intro: bst_ok_SetTimestamp batch_wf_set)
  from fill_ok_real [OF Cons.prems(1,3) _ _ this b] Cons.prems(4,5)
  have "fill_ok E K (now E) (gm_set (idx_at E k) k (fst rb), ?b)" by auto
  from Cons.IH [OF this order_refl Cons.prems(3)] Cons.prems(4,5) b(1) show ?case
    by (simp add: dummies_def stale_def)
qed

lemma build_batch_exact:
  assumes "fill_ok E K t ([], b)" and "t < now E" and "inj_on (idx_at E) K"
    and keys: "set (order_dedup E (gm_keys dedup)) \<subseteq> K - {''''}"
      "set (order_dedup E (gm_keys dedup)) \<inter> set_mset (dummies b) = {}"
    and fits: "int (length (order_dedup E (gm_keys dedup)) + nat (px_dummyCount px)) \<le> px_batchSize px"
    and enough: "px_batchSize px \<le> int (length (dummyObjects b))"
  shows "int (length (fst (build_batch E px c dedup b))) = px_batchSize px"
    and "fill_ok E K (now E) (build_batch E px c dedup b)"
proof -
  define rb1 where "rb1 = init_batch E (order_dedup E (gm_keys dedup)) ([], b)"
  define rb2 where "rb2 = fill_dummies E (nat (px_dummyCount px)) rb1"
  define rb3 where "rb3 = fill_reals E c (nat (px_batchSize px - int (length (fst rb2)))) rb2"
  have "timestamp e \<le> t" if "e \<in> set (dummyObjects b)" for e
  proof -
    from assms(1) have ok: "bst_ok t b" by (simp add: fill_ok_def stage_ok_def)
    with that have "entry_ok (bh_timestamps b) e" by (simp add: bst_ok_def)
    then obtain ts where "gm_get (bh_timestamps b) (he_key e) = Some ts" "timestamp e \<le> ts"
      by (auto simp: entry_ok_def split: option.splits)
    moreover from ok this(1) have "ts \<le> t" by (simp add: bst_ok_def)
    ultimately show ?thesis by simp
  qed
  with assms(2) have "\<forall>e \<in># mset (dummyObjects b). timestamp e < now E" by (auto intro: le_less_trans)
  then have "stale E b = mset (dummyObjects b)"
    unfolding stale_def by (simp add: filter_mset_eq_conv)
  then have all: "size (stale E b) = length (dummyObjects b)" by simp
  have "t \<le> now E" using assms(2) by simp
  have 1: "fill_ok E K (now E) rb1" "stale E (snd rb1) = stale E b"
      "length (fst rb1) \<le> length (order_dedup E (gm_keys dedup))"
    using init_batch_exact [OF assms(1) \<open>t \<le> now E\<close> assms(3) keys(1)] keys(2)
      length_init_batch [of E _ "([], b)"] by (simp_all add: rb1_def)
  have "nat (px_dummyCount px) \<le> size (stale E (snd rb1))" using 1(2) all fits enough
    by (simp add: nat_le_iff split: if_splits)
  from fill_dummies_exact [OF 1(1) order_refl assms(3) this]
  have 2: "fill_ok E K (now E) rb2" "length (fst rb2) = length (fst rb1) + nat (px_dummyCount px)"
      "size (stale E (snd rb2)) = size (stale E b) - nat (px_dummyCount px)"
    using 1(2) by (simp_all add: rb2_def)
  from fill_reals_exact [OF 2(1) order_refl assms(3)]
  have 3: "fill_ok E K (now E) rb3" "length (fst rb2) \<le> length (fst rb3)" "stale E (snd rb3) = stale E (snd rb2)"
    by (simp_all add: rb3_def)
  have "int (length (fst rb2)) \<le> px_batchSize px" using 1(3) 2(2) fits by linarith
  then have "int (nat (px_batchSize px - int (length (fst rb2)))) = px_batchSize px - int (length (fst rb2))"
    by simp
  moreover have "length (fst rb3) \<le> length (fst rb2) + nat (px_batchSize px - int (length (fst rb2)))"
    unfolding rb3_def by (rule length_fill_reals)
  ultimately have le: "int (length (fst rb3)) \<le> px_batchSize px" by linarith
  have "nat (px_batchSize px - int (length (fst rb3))) \<le> size (stale E (snd rb3))"
    using 2(2,3) 3(2,3) all enough fits by simp
  note 4 = fill_dummies_exact [OF 3(1) order_refl assms(3) this]
  have "build_batch E px c dedup b =
      (if int (length (fst rb3)) < px_batchSize px
       then fill_dummies E (nat (px_batchSize px - int (length (fst rb3)))) rb3 else rb3)"
    by (simp add: build_batch_def Let_def rb1_def rb2_def rb3_def)
  with 3(1) 4 le show "int (length (fst (build_batch E px c dedup b))) = px_batchSize px"
    and "fill_ok E K (now E) (build_batch E px c dedup b)"
    by simp_all
qed

text \<open>Over a run: the real heap only ever holds keys of requests.\<close>

definition real_keys :: "BSTHeap \<Rightarrow> string set" where
  "real_keys b = he_key ` set (realObjects b)"

lemma real_keys_AddObject [simp]:
  "real_keys (bst_AddObject k ''real'' b) = insert k (real_keys b)"
  by (auto simp: real_keys_def bst_AddObject_def Let_def split: option.splits)

lemma process_request_real_keys:
  assumes "process_request r s = Some s'"
  shows "real_keys (ls_bst s') \<subseteq> real_keys (ls_bst s) \<union> (if effective r then {p_Key r} else {})"
  using assms
  by (auto simp: process_request_def process_read_def process_write_def effective_def Let_def
      bind_eq_Some_conv split: if_splits option.splits)

lemma process_requests_real_keys:
  "process_requests rs s = Some s' \<Longrightarrow>
     real_keys (ls_bst s') \<subseteq> real_keys (ls_bst s) \<union> p_Key ` set (filter effective rs)"
proof (induction rs arbitrary: s)
  case (Cons r rs)
  from Cons.prems obtain s1 where s1: "process_request r s = Some s1" "process_requests rs s1 = Some s'"
    by (auto simp: bind_eq_Some_conv)
  from Cons.IH [OF s1(2)] process_request_real_keys [OF s1(1)] show ?case
    by (auto split: if_splits)
qed simp

text \<open>
  The proxy between rounds, over a set \<open>K\<close> of keys: its dummy heap holds the keys \<open>dummy_0\<close> to
  \<open>dummy_(n-1)\<close>, and its real heap keys of \<open>K\<close> that are no dummy keys.
\<close>

definition dummy_names :: "nat \<Rightarrow> string list" where
  "dummy_names n = map (\<lambda>i. ''dummy_'' @ show_nat i) [0..<n]"

lemma distinct_dummy_names: "distinct (dummy_names n)"
  by (auto simp: dummy_names_def distinct_map inj_on_def dest: show_nat_inj)

definition between_rounds :: "string set \<Rightarrow> nat \<Rightarrow> int \<Rightarrow> int \<Rightarrow> proxy \<Rightarrow> bool" where
  "between_rounds K n batch t px \<longleftrightarrow> proxy_ok t px \<and> dummies (px_bst px) = mset (dummy_names n) \<and>
     real_keys (px_bst px) \<subseteq> K - set (dummy_names n) \<and> set (dummy_names n) \<subseteq> K \<and>
     px_batchSize px = batch \<and> px_dummyCount px = go_half batch"

text \<open>A round whose requests fit into the batch, and whose keys have distinct indices.\<close>

definition round_fits :: "string set \<Rightarrow> nat \<Rightarrow> int \<Rightarrow> env \<times> preq list \<Rightarrow> bool" where
  "round_fits K n batch x \<longleftrightarrow> env_ok (fst x) \<and> inj_on (idx_at (fst x)) K \<and>
     p_Key ` set (filter effective (snd x)) \<subseteq> K - set (dummy_names n) \<and>
     int (card (p_Key ` set (filter effective (snd x))) + nat (go_half batch)) \<le> batch"

lemma heap_key_set_eq: "heap_key_set b = real_keys b \<union> set_mset (dummies b)"
  by (simp add: heap_key_set_def real_keys_def dummies_def heap_keys_def)

lemma round_exact:
  assumes px: "between_rounds K n batch t px" and fits: "round_fits K n batch (E, reqs)"
    and t: "t < now E" and enough: "batch \<le> int n"
  shows "\<exists>r px'. handleRequests E reqs px = Some (r, px') \<and> int (length (rp_fetched r)) = batch \<and>
           between_rounds K n batch (now E) px'"
proof -
  have E: "env_ok E" and inj: "inj_on (idx_at E) K" and t': "t \<le> now E" and p: "proxy_ok t px"
    using fits t px by (simp_all add: round_fits_def between_rounds_def)
  from handleRequests_ok [OF E p t', of reqs] obtain s r px' where
      1: "handleRequests E reqs px = Some (r, px')" and
      2: "process_requests reqs
        \<lparr>ls_cache = px_cache px, ls_bst = px_bst px, ls_cliResp = [], ls_dedup = []\<rparr> = Some s"
        "ls_ok t s" and
      3: "proxy_ok (now E) px'" "rp_fetched r = fst (build_batch E px (ls_cache s) (ls_dedup s) (ls_bst s))"
        "px_bst px' = snd (build_batch E px (ls_cache s) (ls_dedup s) (ls_bst s))"
        "dummies (px_bst px') = dummies (px_bst px)" "px_batchSize px' = px_batchSize px"
        "px_dummyCount px' = px_dummyCount px"
    by (elim exE conjE) (rule that, assumption+)
  let ?keys = "p_Key ` set (filter effective reqs)"
  let ?order = "order_dedup E (gm_keys (ls_dedup s))"
  have keys: "?keys \<subseteq> K - set (dummy_names n)" using fits by (simp add: round_fits_def)
  let ?s0 = "\<lparr>ls_cache = px_cache px, ls_bst = px_bst px, ls_cliResp = [], ls_dedup = []\<rparr>"
  have "ls_ok t ?s0" using p by (simp add: ls_ok_def proxy_ok_def gm_keys_def)
  from process_requests_ok [OF this, of reqs] 2(1)
  have "dummyObjects (ls_bst s) = dummyObjects (px_bst px)" by auto
  then have d: "dummies (ls_bst s) = mset (dummy_names n)"
    using px by (simp add: dummies_def between_rounds_def)
  have rk: "real_keys (ls_bst s) \<subseteq> K - set (dummy_names n)"
    using process_requests_real_keys [OF 2(1)] keys px by (auto simp: between_rounds_def)
  have dd: "set ?order \<subseteq> K - set (dummy_names n) - {''''}"
  proof -
    have "set (gm_keys (ls_dedup s)) \<subseteq> ?keys"
      using process_requests_dedup [OF 2(1)] by (simp add: gm_keys_def)
    then have "set (gm_keys (ls_dedup s)) \<subseteq> K - set (dummy_names n)" using keys by (rule subset_trans)
    with 2(2) show ?thesis by (auto simp: ls_ok_def env_ok_set(1) [OF E])
  qed
  have one: "count (mset (dummy_names n)) k \<le> 1" for k
    using distinct_dummy_names [of n] by (simp add: distinct_count_atmost_1)
  have "stage_ok E K t ([], ls_bst s)"
    using 2(2) rk d px by (auto simp: stage_ok_def ls_ok_def heap_key_set_eq between_rounds_def)
  then have "fill_ok E K t ([], ls_bst s)"
    using one rk d by (auto simp: fill_ok_def real_keys_def)
  note batch = build_batch_exact [OF this t inj, of "ls_dedup s" px "ls_cache s"]
  have k1: "set ?order \<subseteq> K - {''''}" and k2: "set ?order \<inter> set_mset (dummies (ls_bst s)) = {}"
    using dd d by auto
  have k3: "int (length ?order + nat (px_dummyCount px)) \<le> px_batchSize px"
    using fits length_dedup [OF 2] env_ok_set(2) [OF E] px by (simp add: round_fits_def between_rounds_def)
  have "length (dummyObjects (ls_bst s)) = size (dummies (ls_bst s))"
    by (simp add: dummies_def)
  then have "px_batchSize px \<le> int (length (dummyObjects (ls_bst s)))"
    using enough px d by (simp add: between_rounds_def dummy_names_def)
  from batch [OF k1 k2 k3 this]
  have b: "int (length (rp_fetched r)) = batch" and f: "fill_ok E K (now E) (rp_fetched r, px_bst px')"
    using 3 px by (simp_all add: between_rounds_def)
  have "dummies (px_bst px') = mset (dummy_names n)" using 3(4) px by (simp add: between_rounds_def)
  with f have "real_keys (px_bst px') \<subseteq> K - set (dummy_names n)"
    by (auto simp: fill_ok_def stage_ok_def heap_key_set_eq real_keys_def)
  then have "between_rounds K n batch (now E) px'"
    using 3 px by (simp add: between_rounds_def)
  with 1 b show ?thesis by blast
qed

lemma rounds_exact:
  "between_rounds K n batch t px \<Longrightarrow> list_all (round_fits K n batch) rounds \<Longrightarrow>
     sorted_wrt (<) (t # map (\<lambda>x. now (fst x)) rounds) \<Longrightarrow> batch \<le> int n \<Longrightarrow>
     \<exists>rs px'. proxy_run rounds px = Some (rs, px') \<and>
       map (\<lambda>r. int (length (rp_fetched r))) rs = replicate (length rounds) batch"
proof (induction rounds arbitrary: t px)
  case (Cons x rounds)
  obtain E reqs where x: "x = (E, reqs)" by force
  with Cons.prems have "round_fits K n batch (E, reqs)" "t < now E" by simp_all
  from round_exact [OF Cons.prems(1) this Cons.prems(4)] obtain r px1 where
      1: "handleRequests E reqs px = Some (r, px1)" "int (length (rp_fetched r)) = batch"
      "between_rounds K n batch (now E) px1"
    by blast
  from Cons.IH [OF 1(3)] Cons.prems x 1(1,2) show ?case by auto
qed simp



text \<open>Within one second it does tell: the dummy keys were all fetched just now, the heap hands
  out the same ones again, and the batch shrinks.\<close>

lemma proxy_batch_shrinks:
  "map_option (map (\<lambda>r. length (rp_fetched r)) \<circ> fst)
     (proxy_run [(demo_env 5 Map.empty, []), (demo_env 5 Map.empty, [])] (proxy_main 1 3 3)) = Some [3, 2]"
  by code_simp

end
