(* ===== verification/Proxy_Answers.thy ===== *)
theory Proxy_Answers
  imports Proxy_Batch
begin

text \<open>
  What a client of the proxy gets back (\<open>mains/proxy.go\<close>, \<open>handleRequests\<close>): a read with its own
  request id is answered from the cache as it stood at the read's turn, or else with etcd's value
  for its key; and what happens to writes.
\<close>

section \<open>The request loop\<close>

text \<open>The calls a list of requests makes on the cache.\<close>

definition cache_ops :: "preq list \<Rightarrow> gval cache_op list" where
  "cache_ops reqs = concat (map (\<lambda>r. if \<not> effective r then []
     else if p_Op r = ''read'' then [OGet (p_Key r)] else [OPut (p_Key r) (p_Val r)]) reqs)"

text \<open>The entries of a key that wait for an answer to \<open>rid\<close>.\<close>

definition waiting :: "string \<Rightarrow> (string, DedupRequest list) gmap \<Rightarrow> string \<Rightarrow> DedupRequest list" where
  "waiting rid dedup k = filter (\<lambda>d. d_NeedResp d \<and> d_RID d = rid) (gl dedup k)"

lemma waiting_append [simp]:
  "waiting rid (gm_append k d m) k' =
     waiting rid m k' @ (if k' = k \<and> d_NeedResp d \<and> d_RID d = rid then [d] else [])"
  by (simp add: waiting_def)

lemma process_request_cache:
  assumes "lru_ok (ls_cache s)" and "process_request r s = Some s'"
  shows "lru_ok (ls_cache s')" and "lru_capacity (ls_cache s') = lru_capacity (ls_cache s)"
    and "contents (ls_cache s') =
      fold (abs_step (lru_capacity (ls_cache s))) (cache_ops [r]) (contents (ls_cache s))"
proof (atomize (full), goal_cases)
  case 1
  from lru.get_law [OF assms(1), of "p_Key r"] obtain c where c:
      "cache_Get (p_Key r) (ls_cache s) = Some (fst (abs_get (p_Key r) (contents (ls_cache s))), c)"
      "contents c = snd (abs_get (p_Key r) (contents (ls_cache s)))" "lru_ok c"
      "lru_capacity c = lru_capacity (ls_cache s)"
    by blast
  from lru.put_law [OF assms(1), of "p_Key r" "p_Val r"] obtain d where d:
      "cache_Put (p_Key r) (p_Val r) (ls_cache s) = Some d"
      "contents d = abs_put (lru_capacity (ls_cache s)) (p_Key r) (p_Val r) (contents (ls_cache s))"
      "lru_ok d" "lru_capacity d = lru_capacity (ls_cache s)"
    by blast
  show ?case
    using assms c d
    by (auto simp: process_request_def process_read_def process_write_def cache_ops_def
        effective_def Let_def split: if_splits option.splits)
qed

lemma process_requests_cache:
  "lru_ok (ls_cache s) \<Longrightarrow> process_requests rs s = Some s' \<Longrightarrow>
     contents (ls_cache s') =
       fold (abs_step (lru_capacity (ls_cache s))) (cache_ops rs) (contents (ls_cache s))"
proof (induction rs arbitrary: s)
  case (Cons r rs)
  from Cons.prems(2) obtain s1 where s1: "process_request r s = Some s1" "process_requests rs s1 = Some s'"
    by (auto simp: bind_eq_Some_conv)
  note step = process_request_cache [OF Cons.prems(1) s1(1)]
  have "cache_ops (r # rs) = cache_ops [r] @ cache_ops rs" by (simp add: cache_ops_def)
  with Cons.IH [OF step(1) s1(2)] step(2,3) show ?case by simp
qed (simp add: cache_ops_def)

text \<open>A request with another id changes neither the answers to \<open>rid\<close> nor who waits for one.\<close>

lemma process_request_other:
  assumes "process_request r s = Some s'" and "p_RID r \<noteq> rid"
  shows "gl (ls_cliResp s') rid = gl (ls_cliResp s) rid \<and>
    waiting rid (ls_dedup s') = waiting rid (ls_dedup s)"
  using assms
  by (auto simp: process_request_def process_read_def process_write_def Let_def fun_eq_iff
      bind_eq_Some_conv split: if_splits option.splits)

lemma process_requests_other:
  "process_requests rs s = Some s' \<Longrightarrow> rid \<notin> p_RID ` set rs \<Longrightarrow>
     gl (ls_cliResp s') rid = gl (ls_cliResp s) rid \<and> waiting rid (ls_dedup s') = waiting rid (ls_dedup s)"
proof (induction rs arbitrary: s)
  case (Cons r rs)
  from Cons.prems(1) obtain s1 where s1: "process_request r s = Some s1" "process_requests rs s1 = Some s'"
    by (auto simp: bind_eq_Some_conv)
  from Cons.prems(2) have "p_RID r \<noteq> rid" and "rid \<notin> p_RID ` set rs" by auto
  with Cons.IH [OF s1(2)] process_request_other [OF s1(1)] show ?case by simp
qed simp

lemma process_request_full:
  "process_request r s = Some s' \<Longrightarrow> gm_full (ls_cliResp s) \<Longrightarrow> gm_full (ls_cliResp s')"
  by (auto simp: process_request_def process_read_def process_write_def Let_def
      bind_eq_Some_conv gm_full_append split: if_splits option.splits)

lemma process_requests_full:
  "process_requests rs s = Some s' \<Longrightarrow> gm_full (ls_cliResp s) \<Longrightarrow> gm_full (ls_cliResp s')"
  by (induction rs arbitrary: s) (auto simp: bind_eq_Some_conv dest: process_request_full)

text \<open>A read: a hit is answered at once, a miss waits under its key.\<close>

lemma process_request_read:
  assumes ok: "lru_ok (ls_cache s)" and r: "p_Op r = ''read''" "p_Key r \<noteq> ''''"
    and s': "process_request r s = Some s'"
  shows "gl (ls_cliResp s') (p_RID r) = gl (ls_cliResp s) (p_RID r) @
      (case map_of (contents (ls_cache s)) (p_Key r) of Some v \<Rightarrow> [v] | None \<Rightarrow> [])"
    and "length (waiting (p_RID r) (ls_dedup s') k) = length (waiting (p_RID r) (ls_dedup s) k) +
      (if k = p_Key r \<and> map_of (contents (ls_cache s)) (p_Key r) = None then 1 else 0)"
    and "map_of (contents (ls_cache s)) (p_Key r) = None \<Longrightarrow> p_Key r \<in> set (gm_keys (ls_dedup s'))"
proof -
  from lru.get_law [OF ok, of "p_Key r"] obtain c where
      "cache_Get (p_Key r) (ls_cache s) = Some (fst (abs_get (p_Key r) (contents (ls_cache s))), c)"
    by blast
  moreover have "fst (abs_get (p_Key r) (contents (ls_cache s))) = map_of (contents (ls_cache s)) (p_Key r)"
    by (simp add: abs_get_def split: option.split)
  ultimately show "gl (ls_cliResp s') (p_RID r) = gl (ls_cliResp s) (p_RID r) @
      (case map_of (contents (ls_cache s)) (p_Key r) of Some v \<Rightarrow> [v] | None \<Rightarrow> [])"
    "length (waiting (p_RID r) (ls_dedup s') k) = length (waiting (p_RID r) (ls_dedup s) k) +
      (if k = p_Key r \<and> map_of (contents (ls_cache s)) (p_Key r) = None then 1 else 0)"
    "map_of (contents (ls_cache s)) (p_Key r) = None \<Longrightarrow> p_Key r \<in> set (gm_keys (ls_dedup s'))"
    using s' r by (auto simp: process_request_def process_read_def set_gm_keys_append split: option.splits)
qed

lemma process_requests_dedup_mono:
  "process_requests rs s = Some s' \<Longrightarrow> set (gm_keys (ls_dedup s)) \<subseteq> set (gm_keys (ls_dedup s'))"
proof (induction rs arbitrary: s)
  case (Cons r rs)
  from Cons.prems obtain s1 where s1: "process_request r s = Some s1" "process_requests rs s1 = Some s'"
    by (auto simp: bind_eq_Some_conv)
  then have "set (gm_keys (ls_dedup s)) \<subseteq> set (gm_keys (ls_dedup s1))"
    by (auto simp: process_request_def process_read_def process_write_def Let_def set_gm_keys_append
        bind_eq_Some_conv split: if_splits option.splits)
  with Cons.IH [OF s1(2)] show ?case by blast
qed simp

lemma process_requests_append:
  "process_requests (rs @ rs') s = Option.bind (process_requests rs s) (process_requests rs')"
  by (induction rs arbitrary: s) (auto simp: bind_assoc split: bind_split)

section \<open>The responses\<close>

lemma gl_answer_waiting:
  "gl (answer_waiting val reqs resp) rid =
     gl resp rid @ replicate (length (filter (\<lambda>d. d_NeedResp d \<and> d_RID d = rid) reqs)) (GStr val)"
  by (induction reqs arbitrary: resp) (auto simp: replicate_app_Cons_same)

lemma gm_full_answer_waiting: "gm_full resp \<Longrightarrow> gm_full (answer_waiting val reqs resp)"
  by (induction reqs arbitrary: resp) (auto simp: gm_full_append)

lemma process_response_answers:
  assumes "process_response E dedup key val s = Some s'"
  shows "gl (rs_cliResp s') rid =
      gl (rs_cliResp s) rid @ replicate (length (waiting rid dedup key)) (GStr val)"
    and "gm_full (rs_cliResp s) \<Longrightarrow> gm_full (rs_cliResp s')"
proof -
  have "rs_cliResp s' = (case gm_get dedup key of None \<Rightarrow> rs_cliResp s
      | Some reqs \<Rightarrow> answer_waiting val reqs (rs_cliResp s))"
    using assms by (auto simp: process_response_def Let_def bind_eq_Some_conv split: option.splits if_splits)
  then show "gl (rs_cliResp s') rid =
      gl (rs_cliResp s) rid @ replicate (length (waiting rid dedup key)) (GStr val)"
    and "gm_full (rs_cliResp s) \<Longrightarrow> gm_full (rs_cliResp s')"
    by (auto simp: waiting_def gl_def [of dedup] gl_answer_waiting gm_full_answer_waiting split: option.splits)
qed

lemma process_responses_answers:
  "process_responses E rb responses dedup idxs s = Some s' \<Longrightarrow>
     gl (rs_cliResp s') rid = gl (rs_cliResp s) rid @
       concat (map (\<lambda>i. replicate (length (waiting rid dedup (get_str rb i))) (GStr (get_str responses i))) idxs) \<and>
     (gm_full (rs_cliResp s) \<longrightarrow> gm_full (rs_cliResp s'))"
proof (induction idxs arbitrary: s)
  case (Cons i idxs)
  from Cons.prems obtain s1 where s1:
      "process_response E dedup (get_str rb i) (get_str responses i) s = Some s1"
      "process_responses E rb responses dedup idxs s1 = Some s'"
    by (auto simp: bind_eq_Some_conv)
  from Cons.IH [OF s1(2)] process_response_answers [OF s1(1)] show ?case by simp
qed simp

text \<open>What etcd has under a key, as the proxy reads it.\<close>

definition etcd_value :: "env \<Rightarrow> string \<Rightarrow> string option" where
  "etcd_value E k = (case fetch E (idx_at E k) k of
     FetchErr \<Rightarrow> None | FetchKvs kvs \<Rightarrow> (if kvs = [] then None else Some (kvs ! 0)))"

lemma fetch_batch_get:
  assumes "batch_wf E K rb"
  shows "gm_get (fetch_batch E rb) i = Option.bind (gm_get rb i) (etcd_value E)"
    and "gm_wf (fetch_batch E rb)" and "set (gm_keys (fetch_batch E rb)) \<subseteq> set (gm_keys rb)"
proof -
  have "(\<forall>i. gm_get (fetch_batch E rb) i = Option.bind (gm_get rb i) (etcd_value E)) \<and>
      gm_wf (fetch_batch E rb) \<and> set (gm_keys (fetch_batch E rb)) \<subseteq> set (gm_keys rb)"
    using assms
  proof (induction rb)
    case Nil
    then show ?case by (simp add: fetch_batch_def gm_keys_def)
  next
    case (Cons p rb)
    obtain j k where p: "p = (j, k)" by force
    from Cons.prems p have j: "j = idx_at E k" "j \<notin> set (gm_keys rb)" and wf: "batch_wf E K rb"
      by (auto simp: batch_wf_def gm_wf_def gm_keys_def)
    have "fetch_batch E (p # rb) =
        (case etcd_value E k of None \<Rightarrow> [] | Some v \<Rightarrow> [(j, v)]) @ fetch_batch E rb"
      using p j(1) by (auto simp: fetch_batch_def etcd_value_def split: fetch_result.split)
    moreover have "gm_get rb j = None" using j(2) by (simp add: gm_get_None_iff)
    ultimately show ?case
      using Cons.IH [OF wf] p j(2)
      by (auto simp: gm_get_def gm_wf_def gm_keys_def split: option.splits)
  qed
  then show "gm_get (fetch_batch E rb) i = Option.bind (gm_get rb i) (etcd_value E)"
    and "gm_wf (fetch_batch E rb)" and "set (gm_keys (fetch_batch E rb)) \<subseteq> set (gm_keys rb)"
    by blast+
qed

text \<open>In any order of the responses, each index comes once and is its key's index.\<close>

lemma batch_index: "batch_wf E K rb \<Longrightarrow> i \<in> set (gm_keys rb) \<Longrightarrow> i = idx_at E (get_str rb i)"
  using gm_get_None_iff [of rb i] gm_get_Some_iff [of rb i]
  by (auto simp: batch_wf_def get_str_def split: option.splits)

lemma responses_order:
  assumes E: "env_ok E" and wf: "batch_wf E K rb"
  shows "distinct (order_responses E (gm_keys (fetch_batch E rb)))"
    and "i \<in> set (order_responses E (gm_keys (fetch_batch E rb))) \<longleftrightarrow> gm_get (fetch_batch E rb) i \<noteq> None"
    and "i \<in> set (order_responses E (gm_keys (fetch_batch E rb))) \<Longrightarrow> i = idx_at E (get_str rb i)"
proof -
  have "mset (order_responses E (gm_keys (fetch_batch E rb))) = mset (gm_keys (fetch_batch E rb))"
    using E by (simp add: env_ok_def)
  then show "distinct (order_responses E (gm_keys (fetch_batch E rb)))"
    using fetch_batch_get(2) [OF wf] by (metis gm_wf_def mset_eq_imp_distinct_iff)
  show "i \<in> set (order_responses E (gm_keys (fetch_batch E rb))) \<longleftrightarrow> gm_get (fetch_batch E rb) i \<noteq> None"
    using env_ok_set(3) [OF E] gm_get_None_iff [of "fetch_batch E rb" i] by simp
  show "i \<in> set (order_responses E (gm_keys (fetch_batch E rb))) \<Longrightarrow> i = idx_at E (get_str rb i)"
    using env_ok_set(3) [OF E] fetch_batch_get(3) [OF wf] batch_index [OF wf] by blast
qed

lemma concat_single:
  assumes "distinct xs" and "\<And>x. x \<noteq> a \<Longrightarrow> x \<in> set xs \<Longrightarrow> f x = []"
  shows "concat (map f xs) = (if a \<in> set xs then f a else [])"
  using assms
proof (induction xs)
  case (Cons x xs)
  then have "concat (map f xs) = (if a \<in> set xs then f a else [])" by auto
  with Cons.prems show ?case by (cases "x = a") auto
qed simp

section \<open>The answer to a read\<close>

definition known_keys :: "proxy \<Rightarrow> preq list \<Rightarrow> string set" where
  "known_keys px reqs = heap_key_set (px_bst px) \<union> p_Key ` set (filter effective reqs)"

text \<open>One round, taken apart into its three stages.\<close>

lemma round_stages:
  assumes E: "env_ok E" and px: "proxy_ok t px" and t: "t \<le> now E"
    and inj: "inj_on (idx_at E) (known_keys px reqs)"
  obtains s rb r px' where
    "process_requests reqs
       \<lparr>ls_cache = px_cache px, ls_bst = px_bst px, ls_cliResp = [], ls_dedup = []\<rparr> = Some s"
    "ls_ok t s" "batch_wf E (known_keys px reqs) rb"
    "\<forall>k \<in> set (gm_keys (ls_dedup s)). gm_get rb (idx_at E k) = Some k"
    "process_responses E rb (fetch_batch E rb) (ls_dedup s)
       (order_responses E (gm_keys (fetch_batch E rb)))
       \<lparr>rs_cache = ls_cache s, rs_cliResp = ls_cliResp s, rs_writes = []\<rparr> = Some r"
    "handleRequests E reqs px = Some (\<lparr>rp_result = collapse_all (rs_cliResp r), rp_fetched = rb,
       rp_puts = map (\<lambda>i. (i, get_str (rs_writes r) i)) (order_writes E (gm_keys (rs_writes r)))\<rparr>, px')"
    "px_cache px' = rs_cache r"
proof -
  let ?s0 = "\<lparr>ls_cache = px_cache px, ls_bst = px_bst px, ls_cliResp = [], ls_dedup = []\<rparr>"
  have s0: "ls_ok t ?s0" using px by (simp add: ls_ok_def proxy_ok_def gm_keys_def)
  from process_requests_ok [OF this, of reqs] obtain s where s: "process_requests reqs ?s0 = Some s"
      "ls_ok t s" "dummyObjects (ls_bst s) = dummyObjects (px_bst px)"
    by auto
  obtain rb b where B: "build_batch E px (ls_cache s) (ls_dedup s) (ls_bst s) = (rb, b)" by force
  have d: "set (gm_keys (ls_dedup s)) \<subseteq> p_Key ` set (filter effective reqs)"
    using process_requests_dedup [OF s(1)] by (simp add: gm_keys_def)
  have hk: "heap_key_set (ls_bst s) \<subseteq> known_keys px reqs"
    using process_requests_real_keys [OF s(1)] s(3)
    by (auto simp: known_keys_def heap_key_set_eq dummies_def)
  have dk: "set (order_dedup E (gm_keys (ls_dedup s))) \<subseteq> known_keys px reqs - {''''}"
    using d s(2) env_ok_set(1) [OF E] by (auto simp: known_keys_def ls_ok_def)
  have bok: "bst_ok t (ls_bst s)" using s(2) by (simp add: ls_ok_def)
  note hb = build_batch_holds [OF bok t inj hk dk, where px = px and c = "ls_cache s", unfolded B fst_conv]
  let ?r0 = "\<lparr>rs_cache = ls_cache s, rs_cliResp = ls_cliResp s, rs_writes = []\<rparr>"
  have "rs_ok E ?r0" using s(2) by (simp add: rs_ok_def ls_ok_def gm_keys_def)
  from process_responses_ok [OF this] obtain r where r:
      "process_responses E rb (fetch_batch E rb) (ls_dedup s)
         (order_responses E (gm_keys (fetch_batch E rb))) ?r0 = Some r"
    by blast
  show ?thesis
  proof (rule that [OF s(1,2) hb(1) _ r])
    show "\<forall>k \<in> set (gm_keys (ls_dedup s)). gm_get rb (idx_at E k) = Some k"
      using hb(2) env_ok_set(1) [OF E] by simp
    show "handleRequests E reqs px = Some (\<lparr>rp_result = collapse_all (rs_cliResp r), rp_fetched = rb,
       rp_puts = map (\<lambda>i. (i, get_str (rs_writes r) i)) (order_writes E (gm_keys (rs_writes r)))\<rparr>,
       px\<lparr>px_cache := rs_cache r, px_bst := b\<rparr>)"
      using s(1) r B by (simp add: handleRequests_def Let_def)
  qed simp
qed

text \<open>The late answers: the one waiting entry of a key is answered with what etcd has for the key.\<close>

lemma late_answer:
  assumes E: "env_ok E" and wf: "batch_wf E K rb" and at: "gm_get rb (idx_at E k) = Some k"
    and w: "\<And>k'. length (w k') = (if k' = k then 1 else 0)"
  shows "concat (map (\<lambda>i. replicate (length (w (get_str rb i))) (GStr (get_str (fetch_batch E rb) i)))
      (order_responses E (gm_keys (fetch_batch E rb)))) =
    (case etcd_value E k of None \<Rightarrow> [] | Some v \<Rightarrow> [GStr v])" (is "?late = _")
proof -
  let ?i = "idx_at E k" and ?idxs = "order_responses E (gm_keys (fetch_batch E rb))"
  have F: "gm_get (fetch_batch E rb) ?i = etcd_value E k" using fetch_batch_get(1) [OF wf] at by simp
  note ord = responses_order [OF E wf]
  have other: "w (get_str rb i) = []" if "i \<noteq> ?i" "i \<in> set ?idxs" for i
  proof -
    have "get_str rb i \<noteq> k" using that ord(3) [of i] by auto
    with w [of "get_str rb i"] show ?thesis by simp
  qed
  have "?late = (if ?i \<in> set ?idxs then [GStr (get_str (fetch_batch E rb) ?i)] else [])"
    using concat_single [OF ord(1), of ?i "\<lambda>i. replicate (length (w (get_str rb i)))
      (GStr (get_str (fetch_batch E rb) i))"] other at w [of k] by (simp add: get_str_def)
  then show ?thesis using ord(2) [of ?i] F by (auto simp: get_str_def split: option.splits)
qed

text \<open>After the request loop one entry of the key waits for the answer of the read, if it missed the cache.\<close>

lemma read_waits:
  assumes ok: "ls_ok t s0" and lru: "lru_ok (ls_cache s0)" and none: "ls_cliResp s0 = []" "ls_dedup s0 = []"
    and run: "process_requests (before @ q # after) s0 = Some s"
    and q: "p_Op q = ''read''" "p_Key q \<noteq> ''''" and own: "p_RID q \<notin> p_RID ` set (before @ after)"
    and xs: "xs = fold (abs_step (lru_capacity (ls_cache s0))) (cache_ops before) (contents (ls_cache s0))"
  shows "gl (ls_cliResp s) (p_RID q) = (case map_of xs (p_Key q) of Some v \<Rightarrow> [v] | None \<Rightarrow> [])"
    and "length (waiting (p_RID q) (ls_dedup s) k) = (if k = p_Key q \<and> map_of xs (p_Key q) = None then 1 else 0)"
    and "map_of xs (p_Key q) = None \<Longrightarrow> p_Key q \<in> set (gm_keys (ls_dedup s))"
proof -
  from run obtain s1 s2 where s12: "process_requests before s0 = Some s1"
      "process_request q s1 = Some s2" "process_requests after s2 = Some s"
    by (auto simp: process_requests_append bind_eq_Some_conv)
  from process_requests_ok [OF ok, of before] s12(1) have ok1: "lru_ok (ls_cache s1)" by (auto simp: ls_ok_def)
  have con: "contents (ls_cache s1) = xs" using process_requests_cache [OF _ s12(1)] lru xs by simp
  have o1: "gl (ls_cliResp s1) (p_RID q) = []" "\<And>k. waiting (p_RID q) (ls_dedup s1) k = []"
    using process_requests_other [OF s12(1), of "p_RID q"] own none by (simp_all add: waiting_def image_Un)
  have o2: "gl (ls_cliResp s) (p_RID q) = gl (ls_cliResp s2) (p_RID q)"
      "waiting (p_RID q) (ls_dedup s) = waiting (p_RID q) (ls_dedup s2)"
    using process_requests_other [OF s12(3), of "p_RID q"] own by (simp_all add: image_Un)
  note rd = process_request_read [OF ok1 q s12(2), unfolded con o1]
  show "gl (ls_cliResp s) (p_RID q) = (case map_of xs (p_Key q) of Some v \<Rightarrow> [v] | None \<Rightarrow> [])"
    using o2(1) rd(1) by simp
  show "length (waiting (p_RID q) (ls_dedup s) k) = (if k = p_Key q \<and> map_of xs (p_Key q) = None then 1 else 0)"
    using rd(2) [of k] o2(2) by simp
  show "map_of xs (p_Key q) = None \<Longrightarrow> p_Key q \<in> set (gm_keys (ls_dedup s))"
    using rd(3) process_requests_dedup_mono [OF s12(3)] by auto
qed

text \<open>C9: A read with a request id of its own is answered with the value the cache has for its key
  at the read's turn (after the requests before it in the batch), or, on a miss, with the value
  etcd has for its key; only a missed key that etcd does not return goes unanswered.\<close>

theorem proxy_read_answer:
  assumes E: "env_ok E" and px: "proxy_ok t px" and t: "t \<le> now E"
    and reqs: "reqs = before @ q # after"
    and inj: "inj_on (idx_at E) (known_keys px reqs)"
    and q: "p_Op q = ''read''" "p_Key q \<noteq> ''''"
    and own: "p_RID q \<notin> p_RID ` set (before @ after)"
    and xs: "xs = fold (abs_step (lru_capacity (px_cache px))) (cache_ops before) (contents (px_cache px))"
  shows "\<exists>r px'. handleRequests E reqs px = Some (r, px') \<and>
    gm_get (rp_result r) (p_RID q) =
      (case map_of xs (p_Key q) of Some v \<Rightarrow> Some v
       | None \<Rightarrow> map_option GStr (etcd_value E (p_Key q)))"
proof -
  let ?s0 = "\<lparr>ls_cache = px_cache px, ls_bst = px_bst px, ls_cliResp = [], ls_dedup = []\<rparr>"
  let ?rid = "p_RID q" and ?k = "p_Key q"
  obtain s rb r px' where st:
      "process_requests reqs ?s0 = Some s" "ls_ok t s" "batch_wf E (known_keys px reqs) rb"
      "\<forall>k \<in> set (gm_keys (ls_dedup s)). gm_get rb (idx_at E k) = Some k"
      "process_responses E rb (fetch_batch E rb) (ls_dedup s)
         (order_responses E (gm_keys (fetch_batch E rb)))
         \<lparr>rs_cache = ls_cache s, rs_cliResp = ls_cliResp s, rs_writes = []\<rparr> = Some r"
      "handleRequests E reqs px = Some (\<lparr>rp_result = collapse_all (rs_cliResp r), rp_fetched = rb,
         rp_puts = map (\<lambda>i. (i, get_str (rs_writes r) i)) (order_writes E (gm_keys (rs_writes r)))\<rparr>, px')"
      "px_cache px' = rs_cache r"
    by (rule round_stages [OF E px t inj])
  have c: "lru_ok (px_cache px)" and s0: "ls_ok t ?s0"
    using px by (simp_all add: proxy_ok_def ls_ok_def gm_keys_def)
  note w = read_waits [OF s0 _ _ _ st(1) [unfolded reqs] q own, simplified, OF c xs]
  note resp = process_responses_answers [OF st(5), of ?rid, simplified]
  have full: "gm_full (rs_cliResp r)" using resp process_requests_full [OF st(1)] by simp
  show ?thesis
  proof (cases "map_of xs ?k")
    case (Some v)
    then have "gl (rs_cliResp r) ?rid = [v]" using resp w(1,2) by simp
    then have "gm_get (rs_cliResp r) ?rid = Some [v]" using gm_full_get [OF full] by simp
    with st(6) Some show ?thesis by (simp add: gm_get_collapse collapse_def)
  next
    case None
    with st(4) w(3) have "gm_get rb (idx_at E ?k) = Some ?k" by blast
    from late_answer [OF E st(3) this, of "waiting ?rid (ls_dedup s)"] None w(2)
    have "gl (rs_cliResp r) ?rid = (case etcd_value E ?k of None \<Rightarrow> [] | Some v \<Rightarrow> [GStr v])"
      using resp w(1) by simp
    then have "gm_get (rs_cliResp r) ?rid = map_option (\<lambda>v. [GStr v]) (etcd_value E ?k)"
      using gm_full_get [OF full, of ?rid] by (cases "etcd_value E ?k") simp_all
    with st(6) None show ?thesis by (cases "etcd_value E ?k") (simp_all add: gm_get_collapse collapse_def)
  qed
qed

lemma heap_key_set_main:
  "heap_key_set (px_bst (proxy_main cs bs ds)) = set (dummy_names (nat ds))"
  using proxy_main_ok(2,3) [of cs bs ds]
  by (simp add: heap_key_set_eq real_keys_def reals_def dummy_names_def)

theorem proxy_read_answer_witness:
  "\<exists>r px'. handleRequests (demo_env 5 [''b'' \<mapsto> ''v'']) ([wr ''1'' ''a'' (GStr ''x'')] @ rd ''2'' ''b'' # [rd ''3'' ''a''])
       (proxy_main 2 2 1) = Some (r, px') \<and> gm_get (rp_result r) ''2'' = Some (GStr ''v'')"
proof -
  let ?E = "demo_env 5 [''b'' \<mapsto> ''v'']" and ?q = "rd ''2'' ''b''"
  let ?b = "[wr ''1'' ''a'' (GStr ''x'')]" and ?a = "[rd ''3'' ''a'']" and ?px = "proxy_main 2 2 1"
  have "dummy_names (nat 1) = [''dummy_0'']" by code_simp
  then have "known_keys ?px (?b @ ?q # ?a) = set [''dummy_0'', ''a'', ''b'']"
    by (auto simp: known_keys_def heap_key_set_main effective_def)
  moreover have "distinct (map (idx_at ?E) [''dummy_0'', ''a'', ''b''])" by code_simp
  ultimately have inj: "inj_on (idx_at ?E) (known_keys ?px (?b @ ?q # ?a))"
    unfolding distinct_map by simp
  have "p_Op ?q = ''read''" "p_Key ?q \<noteq> ''''" "p_RID ?q \<notin> p_RID ` set (?b @ ?a)" by simp_all
  note main = proxy_read_answer [OF env_ok_demo proxy_ok_main _ refl inj this refl, of 5]
  have "map_of (fold (abs_step (lru_capacity (px_cache ?px))) (cache_ops ?b) (contents (px_cache ?px))) ''b'' = None"
    by (simp add: proxy_main_def cache_ops_def effective_def abs_put_def)
  moreover have "etcd_value ?E ''b'' = Some ''v''"
    by (simp add: etcd_value_def demo_env_def)
  ultimately show ?thesis using main by simp
qed

section \<open>Writes\<close>

text \<open>
  The code records a write of a key that is not cached in the table of missed keys, so the round
  fetches the key's old value from etcd and, in the loop over the responses, puts it into the cache
  over the value just written.
\<close>

lemma process_responses_skip:
  "\<forall>i \<in> set idxs. gm_get dedup (get_str rb i) = None \<Longrightarrow>
     process_responses E rb responses dedup idxs s = Some s"
  by (induction idxs arbitrary: s) (auto simp: process_response_def)

lemma process_responses_append:
  "process_responses E rb responses dedup (ps @ qs) s =
     Option.bind (process_responses E rb responses dedup ps s) (process_responses E rb responses dedup qs)"
proof (induction ps arbitrary: s)
  case (Cons p ps)
  then have "process_responses E rb responses dedup (ps @ qs) =
      (\<lambda>s. Option.bind (process_responses E rb responses dedup ps s) (process_responses E rb responses dedup qs))"
    by (intro ext)
  then show ?case by (simp add: bind_assoc)
qed simp

lemma process_write_alone:
  assumes ok: "lru_ok c" and new: "k \<notin> fst ` set (contents c)" and k: "k \<noteq> ''''" and v: "v \<noteq> GNil"
  shows "\<exists>c'. process_requests [\<lparr>p_RID = rid, p_Op = ''write'', p_Key = k, p_Val = v\<rparr>]
      \<lparr>ls_cache = c, ls_bst = b, ls_cliResp = [], ls_dedup = []\<rparr> =
    Some \<lparr>ls_cache = c', ls_bst = bst_AddObject k ''real'' b, ls_cliResp = [],
      ls_dedup = [(k, [\<lparr>d_RID = rid, d_NeedResp = False\<rparr>])]\<rparr> \<and> lru_ok c' \<and>
    lru_capacity c' = lru_capacity c"
proof -
  have "\<not> cache_Has k c" using lru.has_law [OF ok] new by simp
  moreover from lru.put_law [OF ok, of k v] obtain c' where "cache_Put k v c = Some c'"
      "lru_ok c'" "lru_capacity c' = lru_capacity c" by blast
  ultimately show ?thesis
    using k v by (auto simp: process_request_def process_write_def gm_append_def gm_set_def)
qed

text \<open>When one key is awaited, its response is the only one that counts.\<close>

lemma process_responses_single:
  assumes E: "env_ok E" and wf: "batch_wf E K rb" and at: "gm_get rb (idx_at E k) = Some k"
    and val: "etcd_value E k = Some val"
  shows "process_responses E rb (fetch_batch E rb) [(k, ds)]
      (order_responses E (gm_keys (fetch_batch E rb))) s = process_response E [(k, ds)] k val s"
proof -
  let ?i = "idx_at E k" and ?idxs = "order_responses E (gm_keys (fetch_batch E rb))"
  have F: "gm_get (fetch_batch E rb) ?i = Some val"
    using fetch_batch_get(1) [OF wf] at val by simp
  note ord = responses_order [OF E wf]
  have "?i \<in> set ?idxs" using ord(2) [of ?i] F by simp
  then obtain ps qs where idxs: "?idxs = ps @ ?i # qs" by (meson split_list)
  have other: "gm_get [(k, ds)] (get_str rb i) = None" if "i \<noteq> ?i" "i \<in> set ?idxs" for i
    using that ord(3) [of i] by (auto simp: gm_get_def)
  have "?i \<notin> set ps" "?i \<notin> set qs" using ord(1) idxs by auto
  then have "\<forall>i \<in> set ps. gm_get [(k, ds)] (get_str rb i) = None"
      "\<forall>i \<in> set qs. gm_get [(k, ds)] (get_str rb i) = None"
    using idxs by (auto intro!: other)
  note skip = process_responses_skip [OF this(1)] process_responses_skip [OF this(2)]
  have "get_str rb ?i = k" "get_str (fetch_batch E rb) ?i = val"
    using at F by (simp_all add: get_str_def)
  moreover have "process_responses E rb (fetch_batch E rb) [(k, ds)] qs = Some" by (rule ext) (rule skip)
  ultimately show ?thesis
    unfolding idxs by (simp add: process_responses_append skip)
qed

text \<open>C10: A write of a key that is not in the cache is undone by its own round when etcd already has
  a value for the key: after the round the cache holds etcd's old value, not the written one.\<close>

theorem proxy_write_reverted:
  assumes E: "env_ok E" and px: "proxy_ok t px" and t: "t \<le> now E"
    and w: "w = \<lparr>p_RID = rid, p_Op = ''write'', p_Key = k, p_Val = v\<rparr>" "k \<noteq> ''''" "v \<noteq> GNil"
    and inj: "inj_on (idx_at E) (known_keys px [w])"
    and new: "map_of (contents (px_cache px)) k = None" and room: "0 < lru_capacity (px_cache px)"
    and old: "etcd_value E k = Some old" "objectIsReal k"
  shows "\<exists>r px'. handleRequests E [w] px = Some (r, px') \<and> rp_result r = [] \<and>
           map_of (contents (px_cache px')) k = Some (GStr old)"
proof -
  let ?s0 = "\<lparr>ls_cache = px_cache px, ls_bst = px_bst px, ls_cliResp = [], ls_dedup = []\<rparr>"
  obtain s rb r px' where st:
      "process_requests [w] ?s0 = Some s" "ls_ok t s" "batch_wf E (known_keys px [w]) rb"
      "\<forall>k \<in> set (gm_keys (ls_dedup s)). gm_get rb (idx_at E k) = Some k"
      "process_responses E rb (fetch_batch E rb) (ls_dedup s)
         (order_responses E (gm_keys (fetch_batch E rb)))
         \<lparr>rs_cache = ls_cache s, rs_cliResp = ls_cliResp s, rs_writes = []\<rparr> = Some r"
      "handleRequests E [w] px = Some (\<lparr>rp_result = collapse_all (rs_cliResp r), rp_fetched = rb,
         rp_puts = map (\<lambda>i. (i, get_str (rs_writes r) i)) (order_writes E (gm_keys (rs_writes r)))\<rparr>, px')"
      "px_cache px' = rs_cache r"
    by (rule round_stages [OF E px t inj])
  have c: "lru_ok (px_cache px)" using px by (simp add: proxy_ok_def)
  have "k \<notin> fst ` set (contents (px_cache px))" using new by (simp add: map_of_eq_None_iff)
  from process_write_alone [OF c this w(2,3), of rid "px_bst px"] st(1) w(1)
  have s: "ls_dedup s = [(k, [\<lparr>d_RID = rid, d_NeedResp = False\<rparr>])]" "ls_cliResp s = []"
      "lru_ok (ls_cache s)" "lru_capacity (ls_cache s) = lru_capacity (px_cache px)"
    by auto
  have at: "gm_get rb (idx_at E k) = Some k" using st(4) s(1) by (simp add: gm_keys_def)
  have step: "process_response E (ls_dedup s) k old
      \<lparr>rs_cache = ls_cache s, rs_cliResp = ls_cliResp s, rs_writes = []\<rparr> = Some r"
    using st(5) unfolding s(1) process_responses_single [OF E st(3) at old(1)] .
  from lru.evict_law [OF s(3)] obtain c1 where c1:
      "cache_Evict (ls_cache s) = Some (fst (abs_evict (contents (ls_cache s))), c1)" "lru_ok c1"
      "lru_capacity c1 = lru_capacity (ls_cache s)"
    by blast
  from lru.put_law [OF c1(2), of k "GStr old"] obtain c2 where c2:
      "cache_Put k (GStr old) c1 = Some c2" "contents c2 = abs_put (lru_capacity c1) k (GStr old) (contents c1)"
    by blast
  have "rs_cache r = c2 \<and> rs_cliResp r = []"
    using step old(2) s(1,2) c1(1) c2(1)
    by (auto simp: process_response_def Let_def gm_get_def split_beta bind_eq_Some_conv)
  moreover have "map_of (contents c2) k = Some (GStr old)"
    using c2(2) room s(4) c1(3) lru.abs_wf [OF c1(2)] by (auto simp: abs_put_def)
  ultimately show ?thesis using st(6,7) by (simp add: collapse_all_def)
qed

theorem proxy_write_reverted_witness:
  "\<exists>r px'. handleRequests (demo_env 5 [''a'' \<mapsto> ''old'']) [wr ''1'' ''a'' (GStr ''new'')] (proxy_main 2 2 1)
     = Some (r, px') \<and> rp_result r = [] \<and> map_of (contents (px_cache px')) ''a'' = Some (GStr ''old'')"
proof -
  let ?E = "demo_env 5 [''a'' \<mapsto> ''old'']" and ?px = "proxy_main 2 2 1"
  let ?w = "wr ''1'' ''a'' (GStr ''new'')"
  have "dummy_names (nat 1) = [''dummy_0'']" by code_simp
  then have "known_keys ?px [?w] = set [''dummy_0'', ''a'']"
    by (auto simp: known_keys_def heap_key_set_main effective_def)
  moreover have "distinct (map (idx_at ?E) [''dummy_0'', ''a''])" by code_simp
  ultimately have inj: "inj_on (idx_at ?E) (known_keys ?px [?w])"
    unfolding distinct_map by simp
  have "etcd_value ?E ''a'' = Some ''old''" "objectIsReal ''a''"
    by (simp_all add: etcd_value_def demo_env_def objectIsReal_def)
  moreover have "map_of (contents (px_cache ?px)) ''a'' = None" "0 < lru_capacity (px_cache ?px)"
    by (simp_all add: proxy_main_def)
  ultimately show ?thesis
    using proxy_write_reverted [OF env_ok_demo proxy_ok_main _ refl _ _ inj, of 5 "''old''"] by simp
qed

subsection \<open>What reaches etcd\<close>

definition hashed_puts :: "reply \<Rightarrow> bool" where
  "hashed_puts r \<longleftrightarrow> list_all (\<lambda>p. length (fst p) = 64) (rp_puts r)"

lemma proxy_run_puts:
  "proxy_ok t px \<Longrightarrow> rounds_ok t rounds \<Longrightarrow> list_all (\<lambda>x. \<forall>s. length (sha256 (fst x) s) = 32) rounds \<Longrightarrow>
     proxy_run rounds px = Some (rs, px') \<Longrightarrow> list_all hashed_puts rs"
proof (induction rounds arbitrary: t px rs)
  case (Cons x rounds)
  from Cons.prems(2) have x: "env_ok (fst x)" "t \<le> now (fst x)" "rounds_ok (now (fst x)) rounds"
    by (simp_all add: rounds_ok_def)
  from handleRequests_ok [OF x(1) Cons.prems(1) x(2), of "snd x"] obtain r px1 where 1:
      "handleRequests (fst x) (snd x) px = Some (r, px1)" "proxy_ok (now (fst x)) px1"
      "fst ` set (rp_puts r) \<subseteq> range (\<lambda>key. getIndex (sha256 (fst x)) key (now (fst x)))"
    by (elim exE conjE) (rule that, assumption+)
  from Cons.prems(4) 1(1) obtain rs' where 2: "proxy_run rounds px1 = Some (rs', px')" "rs = r # rs'"
    by (auto simp: bind_eq_Some_conv)
  have "length i = 64" if "i \<in> fst ` set (rp_puts r)" for i
    using that 1(3) Cons.prems(3) by (auto simp: getIndex_def)
  then have "hashed_puts r" by (simp add: hashed_puts_def list_all_iff)
  with Cons.IH [OF 1(2) x(3) _ 2(1)] Cons.prems(3) 2(2) show ?case by simp
qed simp


definition hash_env :: "env \<Rightarrow> env" where
  "hash_env E = E\<lparr>sha256 := \<lambda>s. take 32 (bytes_of s @ replicate 32 0)\<rparr>"


end
