(* ===== verification/Path_ORAM.thy ===== *)
theory Path_ORAM
  imports Go_Text
begin

text \<open>
  The block store behind the encrypted multi-map: the C++ class \<open>ORAMClass\<close> and its C interface
  (\<open>libs/oram/PathORAM.cpp\<close>) and the Go wrapper (\<open>libs/oram/PathORAM.go\<close>).

  A block is 64 \<open>int\<close>s, here its 256 bytes. A block index is the \<open>int\<close> the C code casts the
  64-bit id to. What the C code leaves undefined (an index below zero, a shift by 31 or more) is
  the error \<open>CUndefined\<close>; a Go run-time panic is \<open>GoPanic\<close>. Every write copies a whole block
  out of a buffer that is usually shorter, and a read may ask for more bytes than a block has:
  the bytes found behind the end are the parameters \<open>behind\<close>, one function per call.
\<close>

section \<open>The C++ class\<close>

datatype fault = GoPanic | CUndefined

datatype oram_op = READ | WRITE

record block =
  blk_index :: int
  blk_data :: "byte list"

record ORAMClass =
  storage :: "block list"
  num_blocks :: int
  block_size :: int

text \<open>\<open>Block::BLOCK_SIZE\<close>, and \<open>sizeof(blk.data)\<close>.\<close>

definition BLOCK_SIZE :: int where
  "BLOCK_SIZE = 64"

definition block_bytes :: nat where
  "block_bytes = 256"

text \<open>The memory at a pointer: the bytes of the object, then what lies behind it.\<close>

definition memory_at :: "byte list \<Rightarrow> (nat \<Rightarrow> byte) \<Rightarrow> nat \<Rightarrow> byte list" where
  "memory_at obj behind n = take n obj @ map behind [0..<n - length obj]"

definition new_ORAMClass :: "32 word \<Rightarrow> 32 word \<Rightarrow> 32 word \<Rightarrow> fault + ORAMClass" where
  "new_ORAMClass log_capacity block_size_bytes z =
     (if 31 \<le> unat log_capacity then Inl CUndefined
      else (let n = 2 ^ unat log_capacity in
        Inr \<lparr>storage = map (\<lambda>i. \<lparr>blk_index = int i, blk_data = replicate block_bytes 0\<rparr>) [0..<n],
             num_blocks = int n, block_size = BLOCK_SIZE\<rparr>))"

text \<open>\<open>access\<close>: the block a read points to, and the object after a write.\<close>

definition oram_access ::
  "oram_op \<Rightarrow> 32 word \<Rightarrow> (nat \<Rightarrow> byte list) option \<Rightarrow> ORAMClass \<Rightarrow> fault + (byte list option \<times> ORAMClass)" where
  "oram_access op blockIndex newData c =
     (if num_blocks c \<le> sint blockIndex then Inr (None, c)
      else if sint blockIndex < 0 then Inl CUndefined
      else (let i = nat (sint blockIndex) in
        case op of
          READ \<Rightarrow> Inr (Some (blk_data (storage c ! i)), c)
        | WRITE \<Rightarrow> (case newData of
            Some mem \<Rightarrow> Inr (None, c\<lparr>storage := (storage c)[i :=
                (storage c ! i)\<lparr>blk_data := mem (nat (block_size c * 4))\<rparr>]\<rparr>)
          | None \<Rightarrow> Inr (None, c))))"

subsection \<open>The C interface\<close>

definition oram_init :: "32 word \<Rightarrow> 32 word \<Rightarrow> 32 word \<Rightarrow> fault + ORAMClass" where
  "oram_init log_capacity bs z = new_ORAMClass log_capacity bs z"

definition oram_get ::
  "(nat \<Rightarrow> byte) \<Rightarrow> ORAMClass \<Rightarrow> 64 word \<Rightarrow> byte list \<Rightarrow> nat \<Rightarrow> fault + byte list" where
  "oram_get behind c idw out_data data_len =
     (case oram_access READ (ucast idw) None c of
        Inl e \<Rightarrow> Inl e
      | Inr (Some result, _) \<Rightarrow> Inr (memory_at result behind data_len @ drop data_len out_data)
      | Inr (None, _) \<Rightarrow> Inr out_data)"

text \<open>\<open>new int[(n + 3) / 4]()\<close>: zeros, a multiple of four bytes.\<close>

definition int_buffer :: "nat \<Rightarrow> byte list" where
  "int_buffer n = replicate (4 * ((n + 3) div 4)) 0"

definition oram_set ::
  "(nat \<Rightarrow> byte) \<Rightarrow> ORAMClass \<Rightarrow> 64 word \<Rightarrow> byte list \<Rightarrow> fault + ORAMClass" where
  "oram_set behind c idw in_data =
     (let buffer = in_data @ drop (length in_data) (int_buffer (length in_data)) in
      map_sum id snd (oram_access WRITE (ucast idw) (Some (memory_at buffer behind)) c))"

definition oram_delete ::
  "(nat \<Rightarrow> byte) \<Rightarrow> ORAMClass \<Rightarrow> 64 word \<Rightarrow> 32 word \<Rightarrow> fault + ORAMClass" where
  "oram_delete behind c idw bs =
     map_sum id snd (oram_access WRITE (ucast idw) (Some (memory_at (int_buffer (unat bs)) behind)) c)"

section \<open>The Go wrapper\<close>

text \<open>The wrapper holds a pointer to the object, nil once it is destructed.\<close>

record ORAM =
  ptr :: "ORAMClass option"

definition ORAM_Init :: "32 word \<Rightarrow> 32 word \<Rightarrow> 32 word \<Rightarrow> fault + ORAM" where
  "ORAM_Init logCapacity bs z = map_sum id (\<lambda>c. \<lparr>ptr = Some c\<rparr>) (oram_init logCapacity bs z)"

definition ORAM_Destruct :: "ORAM \<Rightarrow> ORAM" where
  "ORAM_Destruct orm = (if ptr orm \<noteq> None then orm\<lparr>ptr := None\<rparr> else orm)"

text \<open>The result nil is \<open>None\<close>; taking the address of \<open>buff[0]\<close> of an empty buffer panics.\<close>

definition ORAM_Get :: "(nat \<Rightarrow> byte) \<Rightarrow> ORAM \<Rightarrow> 64 word \<Rightarrow> int \<Rightarrow> fault + byte list option" where
  "ORAM_Get behind orm idw bs =
     (case ptr orm of
        None \<Rightarrow> Inr None
      | Some c \<Rightarrow>
          if bs < 0 then Inr None
          else if bs = 0 then Inl GoPanic
          else map_sum id Some (oram_get behind c idw (replicate (nat bs) 0) (nat bs)))"

definition ORAM_Set :: "(nat \<Rightarrow> byte) \<Rightarrow> ORAM \<Rightarrow> 64 word \<Rightarrow> byte list \<Rightarrow> fault + ORAM" where
  "ORAM_Set behind orm idw data =
     (case ptr orm of
        None \<Rightarrow> Inr orm
      | Some c \<Rightarrow>
          if data = [] then Inr orm
          else (let padding = (4 - length data mod 4) mod 4;
                    padded = data @ replicate padding 0 in
            map_sum id (\<lambda>c'. orm\<lparr>ptr := Some c'\<rparr>) (oram_set behind c idw padded)))"

definition ORAM_Delete :: "(nat \<Rightarrow> byte) \<Rightarrow> ORAM \<Rightarrow> 64 word \<Rightarrow> 32 word \<Rightarrow> fault + ORAM" where
  "ORAM_Delete behind orm idw bs =
     (case ptr orm of
        None \<Rightarrow> Inr orm
      | Some c \<Rightarrow> map_sum id (\<lambda>c'. orm\<lparr>ptr := Some c'\<rparr>) (oram_delete behind c idw bs))"

section \<open>The interface of a block store\<close>

text \<open>
  What the code above relies on: numbered blocks of a fixed size, a write changes the block it
  names and no other.
\<close>

locale block_store =
  fixes rd :: "'s \<Rightarrow> nat \<Rightarrow> byte list"
    and wr :: "nat \<Rightarrow> byte list \<Rightarrow> 's \<Rightarrow> 's"
    and ok :: "nat \<Rightarrow> 's \<Rightarrow> bool"
  assumes rd_length: "ok n s \<Longrightarrow> i < n \<Longrightarrow> length (rd s i) = block_bytes"
    and wr_ok: "ok n s \<Longrightarrow> i < n \<Longrightarrow> length bs = block_bytes \<Longrightarrow> ok n (wr i bs s)"
    and rd_wr: "ok n s \<Longrightarrow> i < n \<Longrightarrow> j < n \<Longrightarrow> rd (wr i bs s) j = (if j = i then bs else rd s j)"
begin

text \<open>A sequence of writes, those to blocks the store does not have being dropped.\<close>

definition write_all :: "nat \<Rightarrow> (nat \<times> byte list) list \<Rightarrow> 's \<Rightarrow> 's" where
  "write_all n ws s = fold (\<lambda>(i, bs) s. if i < n then wr i bs s else s) ws s"

lemma write_all_ok:
  "ok n s \<Longrightarrow> list_all (\<lambda>(i, bs). length bs = block_bytes) ws \<Longrightarrow> ok n (write_all n ws s)"
  unfolding write_all_def by (induction ws arbitrary: s) (auto simp: wr_ok)

text \<open>Each block holds what was written to it last.\<close>

lemma rd_write_all:
  "ok n s \<Longrightarrow> list_all (\<lambda>(i, bs). length bs = block_bytes) ws \<Longrightarrow> j < n \<Longrightarrow>
     rd (write_all n ws s) j = fold (\<lambda>(i, bs) acc. if i = j then bs else acc) ws (rd s j)"
proof (induction ws arbitrary: s)
  case (Cons w ws)
  obtain i bs where w: "w = (i, bs)" by force
  show ?case
  proof (cases "i < n")
    case True
    with Cons.prems w have "ok n (wr i bs s)" by (auto intro: wr_ok)
    from Cons.IH [OF this] Cons.prems w True rd_wr [OF Cons.prems(1) True Cons.prems(3), of bs]
    show ?thesis by (simp add: write_all_def)
  next
    case False
    with Cons.IH [OF Cons.prems(1)] Cons.prems w show ?thesis by (auto simp: write_all_def)
  qed
qed (simp add: write_all_def)

end

definition block_at :: "ORAMClass \<Rightarrow> nat \<Rightarrow> byte list" where
  "block_at c i = blk_data (storage c ! i)"

definition put_block :: "nat \<Rightarrow> byte list \<Rightarrow> ORAMClass \<Rightarrow> ORAMClass" where
  "put_block i bs c = c\<lparr>storage := (storage c)[i := (storage c ! i)\<lparr>blk_data := bs\<rparr>]\<rparr>"

text \<open>A well-formed object of \<open>n\<close> blocks.\<close>

definition oram_wf :: "nat \<Rightarrow> ORAMClass \<Rightarrow> bool" where
  "oram_wf n c \<longleftrightarrow> num_blocks c = int n \<and> length (storage c) = n \<and> block_size c = BLOCK_SIZE \<and>
     (\<forall>b \<in> set (storage c). length (blk_data b) = block_bytes)"

interpretation blocks: block_store block_at put_block oram_wf
proof unfold_locales
  show "oram_wf n s \<Longrightarrow> i < n \<Longrightarrow> length (block_at s i) = block_bytes" for n s i
    by (simp add: oram_wf_def block_at_def)
  show "oram_wf n s \<Longrightarrow> i < n \<Longrightarrow> length bs = block_bytes \<Longrightarrow> oram_wf n (put_block i bs s)" for n s i bs
    using set_update_subset_insert [of "storage s" i] by (fastforce simp: oram_wf_def put_block_def)
  show "oram_wf n s \<Longrightarrow> i < n \<Longrightarrow> j < n \<Longrightarrow>
      block_at (put_block i bs s) j = (if j = i then bs else block_at s j)" for n s i j bs
    by (simp add: oram_wf_def block_at_def put_block_def nth_list_update)
qed

section \<open>What the operations do\<close>

lemma length_memory_at [simp]: "length (memory_at obj behind n) = n"
  by (simp add: memory_at_def)

lemma take_memory_at: "m \<le> length obj \<Longrightarrow> m \<le> n \<Longrightarrow> take m (memory_at obj behind n) = take m obj"
  by (simp add: memory_at_def min_def)

lemma oram_wf_new:
  assumes "unat log_capacity < 31"
  shows "\<exists>c. new_ORAMClass log_capacity bs z = Inr c \<and> oram_wf (2 ^ unat log_capacity) c \<and>
           (\<forall>i < 2 ^ unat log_capacity. block_at c i = replicate block_bytes 0)"
  using assms by (auto simp: new_ORAMClass_def Let_def oram_wf_def block_at_def block_bytes_def)

text \<open>The \<open>int\<close> index an id is cast to.\<close>

definition slot :: "64 word \<Rightarrow> int" where
  "slot idw = sint (ucast idw :: 32 word)"

lemma oram_access_READ:
  assumes "oram_wf n c"
  shows "oram_access READ (ucast idw) m c =
    (if int n \<le> slot idw then Inr (None, c) else if slot idw < 0 then Inl CUndefined
     else Inr (Some (block_at c (nat (slot idw))), c))"
  using assms by (simp add: oram_access_def oram_wf_def slot_def block_at_def Let_def)

lemma oram_access_WRITE:
  assumes "oram_wf n c"
  shows "oram_access WRITE (ucast idw) (Some mem) c =
    (if int n \<le> slot idw then Inr (None, c) else if slot idw < 0 then Inl CUndefined
     else Inr (None, put_block (nat (slot idw)) (mem block_bytes) c))"
  using assms
  by (simp add: oram_access_def oram_wf_def slot_def put_block_def Let_def BLOCK_SIZE_def block_bytes_def)

text \<open>The block a \<open>Set\<close> and a \<open>Delete\<close> write: the padded data, or zeros, and what lies behind.\<close>

definition pad4 :: "byte list \<Rightarrow> byte list" where
  "pad4 data = data @ replicate ((4 - length data mod 4) mod 4) 0"

definition set_block :: "(nat \<Rightarrow> byte) \<Rightarrow> byte list \<Rightarrow> byte list" where
  "set_block behind data = memory_at (pad4 data) behind block_bytes"

definition delete_block :: "(nat \<Rightarrow> byte) \<Rightarrow> 32 word \<Rightarrow> byte list" where
  "delete_block behind bs = memory_at (int_buffer (unat bs)) behind block_bytes"

lemma pad_to_4: "(n + (4 - n mod 4) mod 4) mod 4 = (0::nat)"
proof -
  have "(n + (4 - n mod 4) mod 4) mod 4 = (n mod 4 + (4 - n mod 4)) mod 4"
    by (metis mod_add_left_eq mod_add_right_eq)
  also have "n mod 4 + (4 - n mod 4) = 4" by simp
  finally show ?thesis by simp
qed

lemma int_buffer_mod: "n mod 4 = 0 \<Longrightarrow> int_buffer n = replicate n 0"
proof -
  assume "n mod 4 = 0"
  then obtain q where "n = 4 * q" by auto
  then show ?thesis by (simp add: int_buffer_def)
qed

lemma pad4_buffer: "pad4 data @ drop (length (pad4 data)) (int_buffer (length (pad4 data))) = pad4 data"
proof -
  have "length (pad4 data) mod 4 = 0" using pad_to_4 [of "length data"] by (simp add: pad4_def)
  then show ?thesis by (simp add: int_buffer_mod)
qed

lemma ORAM_Set_eq:
  assumes "ptr orm = Some c" and "oram_wf n c" and "data \<noteq> []"
  shows "ORAM_Set behind orm idw data =
    (if int n \<le> slot idw then Inr orm else if slot idw < 0 then Inl CUndefined
     else Inr (orm\<lparr>ptr := Some (put_block (nat (slot idw)) (set_block behind data) c)\<rparr>))"
proof -
  have "oram_set behind c idw (pad4 data) =
      (if int n \<le> slot idw then Inr c else if slot idw < 0 then Inl CUndefined
       else Inr (put_block (nat (slot idw)) (set_block behind data) c))"
    using oram_access_WRITE [OF assms(2), of idw]
    by (simp add: oram_set_def pad4_buffer set_block_def Let_def)
  with assms(1,3) show ?thesis
    by (cases orm) (simp add: ORAM_Set_def pad4_def Let_def)
qed

lemma ORAM_Delete_eq:
  assumes "ptr orm = Some c" and "oram_wf n c"
  shows "ORAM_Delete behind orm idw bs =
    (if int n \<le> slot idw then Inr orm else if slot idw < 0 then Inl CUndefined
     else Inr (orm\<lparr>ptr := Some (put_block (nat (slot idw)) (delete_block behind bs) c)\<rparr>))"
  using assms oram_access_WRITE [OF assms(2), of idw]
  by (cases orm) (simp add: ORAM_Delete_def oram_delete_def delete_block_def)

lemma ORAM_Get_eq:
  assumes "ptr orm = Some c" and "oram_wf n c" and "0 < k"
  shows "ORAM_Get behind orm idw (int k) =
    (if int n \<le> slot idw then Inr (Some (replicate k 0)) else if slot idw < 0 then Inl CUndefined
     else Inr (Some (memory_at (block_at c (nat (slot idw))) behind k)))"
  using assms oram_access_READ [OF assms(2), of idw]
  by (simp add: ORAM_Get_def oram_get_def)

section \<open>Histories of calls\<close>

text \<open>A call of the wrapper, with the bytes behind its buffer.\<close>

datatype oram_call =
    CallSet "nat \<Rightarrow> byte" "64 word" "byte list"
  | CallDelete "nat \<Rightarrow> byte" "64 word" "32 word"

primrec call_id :: "oram_call \<Rightarrow> 64 word" where
  "call_id (CallSet behind i data) = i"
| "call_id (CallDelete behind i bs) = i"

primrec do_call :: "oram_call \<Rightarrow> ORAM \<Rightarrow> fault + ORAM" where
  "do_call (CallSet behind i data) orm = ORAM_Set behind orm i data"
| "do_call (CallDelete behind i bs) orm = ORAM_Delete behind orm i bs"

primrec oram_calls :: "oram_call list \<Rightarrow> ORAM \<Rightarrow> fault + ORAM" where
  "oram_calls [] orm = Inr orm"
| "oram_calls (c # cs) orm = (case do_call c orm of Inl e \<Rightarrow> Inl e | Inr orm' \<Rightarrow> oram_calls cs orm')"

text \<open>The specification: the block a call leaves in a slot that held \<open>old\<close>.\<close>

primrec call_block :: "int \<Rightarrow> oram_call \<Rightarrow> byte list \<Rightarrow> byte list" where
  "call_block j (CallSet behind i data) old =
     (if slot i = j \<and> data \<noteq> [] then set_block behind data else old)"
| "call_block j (CallDelete behind i bs) old = (if slot i = j then delete_block behind bs else old)"

lemma oram_call_step:
  assumes "ptr orm = Some c" and "oram_wf n c" and "0 \<le> slot (call_id x)"
  shows "\<exists>c'. do_call x orm = Inr (orm\<lparr>ptr := Some c'\<rparr>) \<and> oram_wf n c' \<and>
    (\<forall>j < n. block_at c' j = call_block (int j) x (block_at c j))"
proof -
  have keep: "orm = orm\<lparr>ptr := Some c\<rparr>" using assms(1) by (cases orm) simp
  have upd: "oram_wf n (put_block (nat (slot i)) bs c) \<and> (\<forall>j < n.
      block_at (put_block (nat (slot i)) bs c) j = (if slot i = int j then bs else block_at c j))"
    if "0 \<le> slot i" "slot i < int n" "length bs = block_bytes" for i bs
    using that blocks.wr_ok [OF assms(2), of "nat (slot i)" bs] blocks.rd_wr [OF assms(2), of "nat (slot i)"]
    by auto
  show ?thesis
  proof (cases x)
    case (CallSet behind i data)
    show ?thesis
    proof (cases "data = [] \<or> int n \<le> slot i")
      case True
      then have "do_call x orm = Inr (orm\<lparr>ptr := Some c\<rparr>)"
        using CallSet ORAM_Set_eq [OF assms(1,2), of data behind i] keep assms(1)
        by (auto simp: ORAM_Set_def)
      with True CallSet assms(2) show ?thesis by (intro exI [of _ c]) auto
    next
      case False
      with upd [of i "set_block behind data"] ORAM_Set_eq [OF assms(1,2), of data behind i] CallSet assms(3)
      show ?thesis by (auto simp: set_block_def)
    qed
  next
    case (CallDelete behind i bs)
    show ?thesis
    proof (cases "int n \<le> slot i")
      case True
      then have "do_call x orm = Inr (orm\<lparr>ptr := Some c\<rparr>)"
        using CallDelete ORAM_Delete_eq [OF assms(1,2), of behind i bs] keep by simp
      with True CallDelete assms(2) show ?thesis by (intro exI [of _ c]) auto
    next
      case False
      with upd [of i "delete_block behind bs"] ORAM_Delete_eq [OF assms(1,2), of behind i bs] CallDelete assms(3)
      show ?thesis by (auto simp: delete_block_def)
    qed
  qed
qed

lemma oram_calls_run:
  "ptr orm = Some c \<Longrightarrow> oram_wf n c \<Longrightarrow> list_all (\<lambda>x. 0 \<le> slot (call_id x)) cs \<Longrightarrow>
     \<exists>orm' c'. oram_calls cs orm = Inr orm' \<and> ptr orm' = Some c' \<and> oram_wf n c' \<and>
       (\<forall>j < n. block_at c' j = fold (call_block (int j)) cs (block_at c j))"
proof (induction cs arbitrary: orm c)
  case (Cons x cs)
  from oram_call_step [OF Cons.prems(1,2), of x] Cons.prems(3) obtain c1 where c1:
      "do_call x orm = Inr (orm\<lparr>ptr := Some c1\<rparr>)" "oram_wf n c1"
      "\<forall>j < n. block_at c1 j = call_block (int j) x (block_at c j)"
    by auto
  have "ptr (orm\<lparr>ptr := Some c1\<rparr>) = Some c1" by simp
  from Cons.IH [OF this c1(2)] Cons.prems(3) c1 show ?case by auto
qed auto

text \<open>C12: The wrapper is a store of \<open>2^logCapacity\<close> blocks addressed by the low 32 bits of the id:
  after any calls of \<open>Set\<close> and \<open>Delete\<close> whose index is not negative, whatever lay behind their
  buffers, \<open>Get\<close> returns the bytes of the block the last of them left in its slot (zeros if there
  was none, or if the index is beyond the last block), and no call faults.\<close>

theorem oram_last_write:
  assumes "unat logCapacity < 31" and "list_all (\<lambda>x. 0 \<le> slot (call_id x)) cs" and "0 \<le> slot i" and "0 < k"
  shows "\<exists>orm orm'. ORAM_Init logCapacity bs z = Inr orm \<and> oram_calls cs orm = Inr orm' \<and>
    ORAM_Get behind orm' i (int k) = Inr (Some (
      if slot i < 2 ^ unat logCapacity
      then memory_at (fold (call_block (slot i)) cs (replicate block_bytes 0)) behind k
      else replicate k 0))"
proof -
  let ?n = "2 ^ unat logCapacity :: nat"
  from oram_wf_new [OF assms(1)] obtain c where c: "new_ORAMClass logCapacity bs z = Inr c"
      "oram_wf ?n c" "\<forall>i < ?n. block_at c i = replicate block_bytes 0"
    by blast
  then have init: "ORAM_Init logCapacity bs z = Inr \<lparr>ptr = Some c\<rparr>"
    by (simp add: ORAM_Init_def oram_init_def)
  from oram_calls_run [of "\<lparr>ptr = Some c\<rparr>", OF _ c(2) assms(2)] obtain orm' c' where r:
      "oram_calls cs \<lparr>ptr = Some c\<rparr> = Inr orm'" "ptr orm' = Some c'" "oram_wf ?n c'"
      "\<forall>j < ?n. block_at c' j = fold (call_block (int j)) cs (block_at c j)"
    by auto
  have "nat (slot i) < ?n" if "slot i < 2 ^ unat logCapacity"
    using that assms(3) by (simp add: nat_less_iff)
  with r(4) c(3) have "block_at c' (nat (slot i)) = fold (call_block (slot i)) cs (replicate block_bytes 0)"
    if "slot i < 2 ^ unat logCapacity" using that assms(3) by auto
  with init r(1) ORAM_Get_eq [OF r(2,3) assms(4), of behind i] assms(3) show ?thesis
    by (auto simp: not_less)
qed

theorem oram_last_write_witness:
  "\<exists>orm orm'. ORAM_Init 5 32 3 = Inr orm \<and>
     oram_calls [CallSet (\<lambda>_. 7) 1 [72, 105], CallSet (\<lambda>_. 9) 2 [1], CallDelete (\<lambda>_. 7) 2 8] orm = Inr orm' \<and>
     ORAM_Get (\<lambda>_. 0) orm' 1 5 = Inr (Some [72, 105, 0, 0, 7])"
proof -
  have "slot 1 = 1" and "slot 2 = 2" by (simp_all add: slot_def)
  moreover have "memory_at (fold (call_block 1)
      [CallSet (\<lambda>_. 7) 1 [72, 105], CallSet (\<lambda>_. 9) 2 [1], CallDelete (\<lambda>_. 7) 2 8]
      (replicate block_bytes 0)) (\<lambda>_. 0) 5 = [72, 105, 0, 0, 7]"
    using \<open>slot 1 = 1\<close> \<open>slot 2 = 2\<close>
    by (simp add: set_block_def pad4_def memory_at_def block_bytes_def upt_rec numeral_2_eq_2)
  ultimately show ?thesis
    using oram_last_write [of 5 "[CallSet (\<lambda>_. 7) 1 [72, 105], CallSet (\<lambda>_. 9) 2 [1], CallDelete (\<lambda>_. 7) 2 8]" 1 5
        32 3 "\<lambda>_. 0"] by simp
qed



lemma slot_64: "slot 64 = 64"
  by (simp add: slot_def)

lemma slot_negative: "slot i < 0 \<longleftrightarrow> bit i 31"
proof -
  have "slot i < 0 \<longleftrightarrow> bit (ucast i :: 32 word) 31"
    using bit_last_iff [of "ucast i :: 32 word"] by (simp add: slot_def)
  then show ?thesis by (simp add: bit_ucast_iff)
qed

lemma slot_upper: "slot i < 2 ^ 31"
  using sint_lt [of "ucast i :: 32 word"] by (simp add: slot_def)



section \<open>The self-test of the ORAM\<close>

text \<open>\<open>testORAM\<close> of \<open>secure.go\<close>. \<open>bytes.IndexByte\<close> is -1 where the byte does not occur.\<close>

definition index_byte :: "byte list \<Rightarrow> byte \<Rightarrow> int" where
  "index_byte bs b = (if b \<in> set bs then int (length (takeWhile (\<lambda>x. x \<noteq> b) bs)) else -1)"

text \<open>The slice expression \<open>bs[:n]\<close>, which panics out of range, and the printed part of a block.\<close>

definition slice_to :: "byte list \<Rightarrow> int \<Rightarrow> fault + byte list" where
  "slice_to bs n = (if n < 0 \<or> int (length bs) < n then Inl GoPanic else Inr (take (nat n) bs))"

definition printed :: "byte list option \<Rightarrow> fault + byte list" where
  "printed result =
     (let bs = (case result of None \<Rightarrow> [] | Some bs \<Rightarrow> bs);
          len = index_byte bs 0
      in slice_to bs (if len = -1 then int (length bs) else len))"

definition sum_bind :: "'e + 'a \<Rightarrow> ('a \<Rightarrow> 'e + 'b) \<Rightarrow> 'e + 'b" where
  "sum_bind x f = (case x of Inl e \<Rightarrow> Inl e | Inr a \<Rightarrow> f a)"

lemma sum_bind_simps [simp]: "sum_bind (Inl e) f = Inl e" "sum_bind (Inr a) f = f a"
  by (simp_all add: sum_bind_def)

definition hello :: "byte list" where
  "hello = bytes_of ''Hello, World!''"

definition bonjour :: "byte list" where
  "bonjour = bytes_of ''Bonjour, Monde!''"

text \<open>The strings it prints; \<open>m i\<close> is the memory behind the buffer of its \<open>i\<close>-th access.\<close>

definition testORAM :: "(nat \<Rightarrow> nat \<Rightarrow> byte) \<Rightarrow> fault + byte list list" where
  "testORAM m =
     sum_bind (ORAM_Init 5 32 3) (\<lambda>o0.
     sum_bind (ORAM_Set (m 0) o0 1 hello) (\<lambda>o1.
     sum_bind (ORAM_Get (m 1) o1 1 32) (\<lambda>resultOne.
     sum_bind (printed resultOne) (\<lambda>p1.
     sum_bind (ORAM_Set (m 2) o1 1 bonjour) (\<lambda>o2.
     sum_bind (ORAM_Get (m 3) o2 1 32) (\<lambda>resultTwo.
     sum_bind (printed resultTwo) (\<lambda>p2.
     sum_bind (ORAM_Set (m 4) o2 2 hello) (\<lambda>o3.
     sum_bind (ORAM_Get (m 5) o3 1 32) (\<lambda>resultThree.
     sum_bind (printed resultThree) (\<lambda>p3.
     sum_bind (ORAM_Get (m 6) o3 2 32) (\<lambda>resultFour.
     sum_bind (printed resultFour) (\<lambda>p4.
     sum_bind (ORAM_Delete (m 7) o3 2 32) (\<lambda>o4.
     sum_bind (ORAM_Get (m 8) o4 1 32) (\<lambda>resultFive.
     sum_bind (printed resultFive) (\<lambda>p5.
     sum_bind (ORAM_Get (m 9) o4 2 32) (\<lambda>resultSix.
       (let six = (case resultSix of None \<Rightarrow> [] | Some bs \<Rightarrow> bs);
            one = (case resultOne of None \<Rightarrow> [] | Some bs \<Rightarrow> bs);
            resultSixLen = index_byte six 0
        in sum_bind (if resultSixLen = -1 then map_sum id length (slice_to one resultSixLen) else Inr 0)
             (\<lambda>_. Inr [p1, p2, p3, p4, p5, six]))))))))))))))))))"

lemma cut_at_zero:
  assumes "0 \<notin> set bs"
  shows "printed (Some (bs @ 0 # rest)) = Inr bs"
proof -
  have "takeWhile (\<lambda>x. x \<noteq> 0) (bs @ 0 # rest) = bs" using assms by (induction bs) auto
  then show ?thesis by (simp add: printed_def index_byte_def slice_to_def)
qed

lemma slot_1: "slot 1 = 1" and slot_2: "slot 2 = 2"
  by (simp_all add: slot_def)

text \<open>A value shorter than a multiple of four is followed by a zero, whatever lies behind it.\<close>

lemma read_text:
  assumes "length data mod 4 \<noteq> 0" and "length data < k" and "k \<le> block_bytes" and "0 \<notin> set data"
  shows "printed (Some (memory_at (set_block behind data) behind' k)) = Inr data"
proof -
  have "length data mod 4 < 4" by simp
  then have "0 < 4 - length data mod 4" "4 - length data mod 4 < 4" using assms(1) by linarith+
  then obtain p where p: "(4 - length data mod 4) mod 4 = Suc p" using gr0_implies_Suc by fastforce
  have head: "take (Suc (length data)) (pad4 data) = data @ [0]" and len: "Suc (length data) \<le> length (pad4 data)"
    by (simp_all add: pad4_def p)
  have "take (Suc (length data)) (memory_at (set_block behind data) behind' k) = take (Suc (length data)) (set_block behind data)"
    using assms(2,3) by (intro take_memory_at) (simp_all add: set_block_def)
  also have "\<dots> = take (Suc (length data)) (pad4 data)"
    unfolding set_block_def using len assms(2,3) by (intro take_memory_at) simp_all
  finally have "memory_at (set_block behind data) behind' k =
      data @ 0 # drop (Suc (length data)) (memory_at (set_block behind data) behind' k)"
    unfolding head by (metis append.assoc append_Cons append_Nil append_take_drop_id)
  then show ?thesis using cut_at_zero [OF assms(4)] by metis
qed

lemma printed_back:
  "printed (Some (memory_at (set_block b hello) b' 32)) = Inr hello"
  "printed (Some (memory_at (set_block b bonjour) b' 32)) = Inr bonjour"
  by (rule read_text; simp add: hello_def bonjour_def block_bytes_def; code_simp)+

text \<open>C15: The self-test prints what its writes stored, whatever memory lies behind its buffers: it does
  not panic, the texts come back without their padding, and the deleted block reads as 32 zeros.\<close>

theorem testORAM_output:
  "testORAM m = Inr [hello, bonjour, bonjour, hello, bonjour, replicate 32 0]"
proof -
  have "unat (5 :: 32 word) < 31" by simp
  from oram_wf_new [OF this, of 32 3] obtain c0 where c0: "new_ORAMClass 5 32 3 = Inr c0" "oram_wf 32 c0"
    by auto
  have len: "length (set_block b d) = block_bytes" "length (delete_block b n) = block_bytes" for b d n
    by (simp_all add: set_block_def delete_block_def)
  define c1 where "c1 = put_block 1 (set_block (m 0) hello) c0"
  define c2 where "c2 = put_block 1 (set_block (m 2) bonjour) c1"
  define c3 where "c3 = put_block 2 (set_block (m 4) hello) c2"
  define c4 where "c4 = put_block 2 (delete_block (m 7) 32) c3"
  have wf: "oram_wf 32 c1" "oram_wf 32 c2" "oram_wf 32 c3" "oram_wf 32 c4"
    using c0(2) by (simp_all add: c1_def c2_def c3_def c4_def blocks.wr_ok len)
  have at: "block_at c1 1 = set_block (m 0) hello" "block_at c2 1 = set_block (m 2) bonjour"
    "block_at c3 1 = set_block (m 2) bonjour" "block_at c3 2 = set_block (m 4) hello"
    "block_at c4 1 = set_block (m 2) bonjour" "block_at c4 2 = delete_block (m 7) 32"
    using c0(2) wf by (simp_all add: c1_def c2_def c3_def c4_def blocks.rd_wr)
  have ne: "hello \<noteq> []" "bonjour \<noteq> []" by (simp_all add: hello_def bonjour_def bytes_of_def)
  have sets: "ORAM_Set (m 0) \<lparr>ptr = Some c0\<rparr> 1 hello = Inr \<lparr>ptr = Some c1\<rparr>"
    "ORAM_Set (m 2) \<lparr>ptr = Some c1\<rparr> 1 bonjour = Inr \<lparr>ptr = Some c2\<rparr>"
    "ORAM_Set (m 4) \<lparr>ptr = Some c2\<rparr> 2 hello = Inr \<lparr>ptr = Some c3\<rparr>"
    "ORAM_Delete (m 7) \<lparr>ptr = Some c3\<rparr> 2 32 = Inr \<lparr>ptr = Some c4\<rparr>"
    using ORAM_Set_eq [OF _ c0(2) ne(1)] ORAM_Set_eq [OF _ wf(1) ne(2)] ORAM_Set_eq [OF _ wf(2) ne(1)]
      ORAM_Delete_eq [OF _ wf(3)] by (simp_all add: slot_1 slot_2 c1_def c2_def c3_def c4_def)
  have gets: "ORAM_Get (m 1) \<lparr>ptr = Some c1\<rparr> 1 32 = Inr (Some (memory_at (set_block (m 0) hello) (m 1) 32))"
    "ORAM_Get (m 3) \<lparr>ptr = Some c2\<rparr> 1 32 = Inr (Some (memory_at (set_block (m 2) bonjour) (m 3) 32))"
    "ORAM_Get (m 5) \<lparr>ptr = Some c3\<rparr> 1 32 = Inr (Some (memory_at (set_block (m 2) bonjour) (m 5) 32))"
    "ORAM_Get (m 6) \<lparr>ptr = Some c3\<rparr> 2 32 = Inr (Some (memory_at (set_block (m 4) hello) (m 6) 32))"
    "ORAM_Get (m 8) \<lparr>ptr = Some c4\<rparr> 1 32 = Inr (Some (memory_at (set_block (m 2) bonjour) (m 8) 32))"
    "ORAM_Get (m 9) \<lparr>ptr = Some c4\<rparr> 2 32 = Inr (Some (memory_at (delete_block (m 7) 32) (m 9) 32))"
    using ORAM_Get_eq [OF _ wf(1), of _ 32] ORAM_Get_eq [OF _ wf(2), of _ 32] ORAM_Get_eq [OF _ wf(3), of _ 32]
      ORAM_Get_eq [OF _ wf(4), of _ 32] at by (simp_all add: slot_1 slot_2)
  have zero: "memory_at (delete_block (m 7) 32) (m 9) 32 = replicate 32 0"
    by (simp add: delete_block_def int_buffer_def memory_at_def block_bytes_def)
  have "index_byte (replicate 32 0) 0 \<noteq> -1" by (simp add: index_byte_def)
  then show ?thesis
    unfolding testORAM_def
    using c0(1) by (simp add: ORAM_Init_def oram_init_def sets gets printed_back zero del: One_nat_def)
qed

end
