(* ===== verification/GCM.thy ===== *)
theory GCM
  imports Go_Text
begin

unbundle bit_operations_syntax

text \<open>
  AES-GCM as the program uses it from Go's \<open>crypto/cipher\<close>: 12-byte nonces, no additional data,
  the output appended to a given prefix. The block cipher is a parameter: a function from the
  key and a 128-bit block to a block, of which nothing is assumed (GCM only ever runs it
  forwards), so every fact below holds for AES.
\<close>

section \<open>Blocks\<close>

type_synonym block_cipher = "byte list \<Rightarrow> 128 word \<Rightarrow> 128 word"

text \<open>Bytes to a block, most significant first, and back.\<close>

definition block_of :: "byte list \<Rightarrow> 128 word" where
  "block_of bs = foldl (\<lambda>w b. push_bit 8 w OR ucast b) 0 bs"

definition bytes_of_block :: "128 word \<Rightarrow> byte list" where
  "bytes_of_block w = map (\<lambda>i. ucast (drop_bit (8 * (15 - i)) w)) [0..<16]"

lemma length_bytes_of_block [simp]: "length (bytes_of_block w) = 16"
  by (simp add: bytes_of_block_def)

text \<open>The input in blocks of 16 bytes, the last one padded with zeros.\<close>

definition blocks_of :: "byte list \<Rightarrow> 128 word list" where
  "blocks_of bs = map (\<lambda>i. block_of (take 16 (drop (16 * i) bs @ replicate 16 0)))
     [0..<(length bs + 15) div 16]"

section \<open>GHASH\<close>

text \<open>Multiplication in GF(2^128) with GCM's bit order.\<close>

primrec gf_steps :: "nat \<Rightarrow> 128 word \<Rightarrow> 128 word \<Rightarrow> 128 word \<Rightarrow> 128 word" where
  "gf_steps 0 x z v = z"
| "gf_steps (Suc n) x z v =
     gf_steps n (push_bit 1 x) (if bit x 127 then z XOR v else z)
       (if bit v 0 then drop_bit 1 v XOR push_bit 120 0xE1 else drop_bit 1 v)"

definition gf_mult :: "128 word \<Rightarrow> 128 word \<Rightarrow> 128 word" where
  "gf_mult x y = gf_steps 128 x 0 y"

text \<open>No additional data: the hashed blocks are the ciphertext's and the block of the two lengths.\<close>

definition ghash :: "128 word \<Rightarrow> byte list \<Rightarrow> 128 word" where
  "ghash h ct = foldl (\<lambda>y x. gf_mult (y XOR x) h) 0 (blocks_of ct @ [word_of_nat (8 * length ct)])"

section \<open>Sealing and opening\<close>

definition nonce_size :: nat where
  "nonce_size = 12"

definition tag_size :: nat where
  "tag_size = 16"

text \<open>The counter block: the nonce and a 32-bit counter, that wraps around.\<close>

definition counter_block :: "byte list \<Rightarrow> nat \<Rightarrow> 128 word" where
  "counter_block nonce i =
     push_bit 32 (block_of nonce) OR ucast (word_of_nat i :: 32 word)"

definition keystream :: "block_cipher \<Rightarrow> byte list \<Rightarrow> byte list \<Rightarrow> nat \<Rightarrow> byte list" where
  "keystream E key nonce n =
     take n (concat (map (\<lambda>i. bytes_of_block (E key (counter_block nonce (i + 2)))) [0..<(n + 15) div 16]))"

definition xor_bytes :: "byte list \<Rightarrow> byte list \<Rightarrow> byte list" where
  "xor_bytes xs ys = map2 (XOR) xs ys"

definition ctr_crypt :: "block_cipher \<Rightarrow> byte list \<Rightarrow> byte list \<Rightarrow> byte list \<Rightarrow> byte list" where
  "ctr_crypt E key nonce msg = xor_bytes msg (keystream E key nonce (length msg))"

definition gcm_tag :: "block_cipher \<Rightarrow> byte list \<Rightarrow> byte list \<Rightarrow> byte list \<Rightarrow> byte list" where
  "gcm_tag E key nonce ct =
     bytes_of_block (ghash (E key 0) ct XOR E key (counter_block nonce 1))"

text \<open>\<open>Seal(dst, nonce, plaintext, nil)\<close> and \<open>Open(nil, nonce, ciphertext, nil)\<close>; the error of
  \<open>Open\<close> is \<open>None\<close>.\<close>

definition gcm_seal :: "block_cipher \<Rightarrow> byte list \<Rightarrow> byte list \<Rightarrow> byte list \<Rightarrow> byte list \<Rightarrow> byte list" where
  "gcm_seal E key dst nonce plaintext =
     (let ct = ctr_crypt E key nonce plaintext in dst @ ct @ gcm_tag E key nonce ct)"

definition gcm_open :: "block_cipher \<Rightarrow> byte list \<Rightarrow> byte list \<Rightarrow> byte list \<Rightarrow> byte list option" where
  "gcm_open E key nonce ciphertext =
     (if length ciphertext < tag_size then None
      else (let n = length ciphertext - tag_size; ct = take n ciphertext; tag = drop n ciphertext in
        if tag = gcm_tag E key nonce ct then Some (ctr_crypt E key nonce ct) else None))"

section \<open>Laws\<close>

lemma length_concat_blocks: "length (concat (map (\<lambda>i. bytes_of_block (f i)) xs)) = 16 * length xs"
  by (induction xs) simp_all

lemma length_keystream [simp]: "length (keystream E key nonce n) = n"
proof -
  have "n \<le> 16 * ((n + 15) div 16)" by presburger
  then show ?thesis by (simp add: keystream_def length_concat_blocks)
qed

lemma length_xor_bytes [simp]: "length (xor_bytes xs ys) = min (length xs) (length ys)"
  by (simp add: xor_bytes_def)

lemma xor_bytes_twice: "length xs = length ys \<Longrightarrow> xor_bytes (xor_bytes xs ys) ys = xs"
  unfolding xor_bytes_def
  by (induction xs ys rule: list_induct2) (simp_all add: xor.assoc)

lemma length_ctr_crypt [simp]: "length (ctr_crypt E key nonce msg) = length msg"
  by (simp add: ctr_crypt_def)

lemma ctr_crypt_twice: "ctr_crypt E key nonce (ctr_crypt E key nonce msg) = msg"
  using xor_bytes_twice [of msg "keystream E key nonce (length msg)"]
  by (simp add: ctr_crypt_def [of E key nonce "ctr_crypt E key nonce msg"]) (simp add: ctr_crypt_def)

lemma length_gcm_tag [simp]: "length (gcm_tag E key nonce ct) = tag_size"
  by (simp add: gcm_tag_def tag_size_def)

text \<open>
  What the program relies on: opening what was sealed under the same key and nonce gives the
  plaintext back, at a fixed cost in length; what is shorter than a tag does not open.
\<close>

locale aead =
  fixes seal :: "byte list \<Rightarrow> byte list \<Rightarrow> byte list \<Rightarrow> byte list \<Rightarrow> byte list"
    and opn :: "byte list \<Rightarrow> byte list \<Rightarrow> byte list \<Rightarrow> byte list option"
    and overhead :: nat
  assumes seal_prefix: "seal key dst nonce msg = dst @ seal key [] nonce msg"
    and seal_length: "length (seal key [] nonce msg) = length msg + overhead"
    and open_seal: "opn key nonce (seal key [] nonce msg) = Some msg"
    and open_short: "length c < overhead \<Longrightarrow> opn key nonce c = None"
begin

text \<open>The format of the store: the nonce in front of the sealed message.\<close>

definition boxed :: "byte list \<Rightarrow> byte list \<Rightarrow> byte list \<Rightarrow> byte list" where
  "boxed key nonce msg = seal key nonce nonce msg"

definition unboxed :: "nat \<Rightarrow> byte list \<Rightarrow> byte list \<Rightarrow> byte list option" where
  "unboxed n key c = (if length c < n then None else opn key (take n c) (drop n c))"

lemma unboxed_boxed: "length nonce = n \<Longrightarrow> unboxed n key (boxed key nonce msg) = Some msg"
  by (subst boxed_def, subst seal_prefix) (simp add: unboxed_def open_seal)

lemma boxed_length: "length (boxed key nonce msg) = length nonce + length msg + overhead"
  by (subst boxed_def, subst seal_prefix) (simp add: seal_length)

lemma unboxed_short: "length c < n + overhead \<Longrightarrow> unboxed n key c = None"
  by (auto simp: unboxed_def open_short)

end

lemma gcm_seal_prefix: "gcm_seal E key dst nonce msg = dst @ gcm_seal E key [] nonce msg"
  by (simp add: gcm_seal_def Let_def)

lemma gcm_open_seal: "gcm_open E key nonce (gcm_seal E key [] nonce msg) = Some msg"
  by (simp add: gcm_open_def gcm_seal_def Let_def ctr_crypt_twice)

interpretation gcm: aead "gcm_seal E" "gcm_open E" tag_size for E
proof unfold_locales
  show "gcm_seal E key dst nonce msg = dst @ gcm_seal E key [] nonce msg" for key dst nonce msg
    by (rule gcm_seal_prefix)
  show "length (gcm_seal E key [] nonce msg) = length msg + tag_size" for key nonce msg
    by (simp add: gcm_seal_def Let_def)
  show "gcm_open E key nonce (gcm_seal E key [] nonce msg) = Some msg" for key nonce msg
    by (rule gcm_open_seal)
  show "length c < tag_size \<Longrightarrow> gcm_open E key nonce c = None" for c key nonce
    by (simp add: gcm_open_def)
qed

end
