(* ===== verification/JSON_Codec.thy ===== *)
theory JSON_Codec
  imports Go_Text "HOL-Library.List_Lexorder" "HOL-Library.Char_ord"
begin

text \<open>
  What the program uses of Go's \<open>encoding/json\<close> (1.22): \<open>Marshal\<close> and \<open>Unmarshal\<close> of the dynamically
  typed values \<open>gval\<close>. Texts are byte strings; bytes from 0x80 on are copied, as the package
  does for valid UTF-8. Numbers are integers, rounded to a \<open>float64\<close> when they are read; a number
  with a fraction or an exponent is outside the model and reads as an error. The members of an
  object are written in the order of their keys, and of repeated keys the last one is read.
\<close>

section \<open>Writing\<close>

abbreviation quote :: char where "quote \<equiv> CHR 0x22"

abbreviation backslash :: char where "backslash \<equiv> CHR 0x5C"

definition json_esc :: "char \<Rightarrow> string" where
  "json_esc c =
     (if c = quote then [backslash, quote]
      else if c = backslash then [backslash, backslash]
      else if c = CHR 0x08 then [backslash, CHR ''b'']
      else if c = CHR 0x0C then [backslash, CHR ''f'']
      else if c = CHR 0x0A then [backslash, CHR ''n'']
      else if c = CHR 0x0D then [backslash, CHR ''r'']
      else if c = CHR 0x09 then [backslash, CHR ''t'']
      else if (of_char c :: nat) < 32 \<or> c = CHR ''<'' \<or> c = CHR ''>'' \<or> c = CHR ''&''
      then [backslash, CHR ''u'', CHR ''0'', CHR ''0'',
            hex_digit (of_char c div 16), hex_digit (of_char c mod 16)]
      else [c])"

text \<open>\<open>json.dumps\<close> of Python escapes less (it is used by the HIRB server).\<close>

definition py_esc :: "char \<Rightarrow> string" where
  "py_esc c =
     (if c = CHR ''<'' \<or> c = CHR ''>'' \<or> c = CHR ''&'' then [c]
      else if c = CHR 0x7F
      then [backslash, CHR ''u'', CHR ''0'', CHR ''0'', CHR ''7'', CHR ''f'']
      else json_esc c)"

definition json_string :: "(char \<Rightarrow> string) \<Rightarrow> string \<Rightarrow> string" where
  "json_string esc s = quote # concat (map esc s) @ [quote]"

fun sep_with :: "string \<Rightarrow> string list \<Rightarrow> string" where
  "sep_with d [] = ''''"
| "sep_with d [x] = x"
| "sep_with d (x # y # xs) = x @ d @ sep_with d (y # xs)"

text \<open>The text of a value, for a way to escape characters and the separators of items and keys.\<close>

fun text_of :: "(char \<Rightarrow> string) \<Rightarrow> string \<Rightarrow> string \<Rightarrow> gval \<Rightarrow> string"
  and texts_of :: "(char \<Rightarrow> string) \<Rightarrow> string \<Rightarrow> string \<Rightarrow> gval list \<Rightarrow> string list"
  and members_of :: "(char \<Rightarrow> string) \<Rightarrow> string \<Rightarrow> string \<Rightarrow> (string \<times> gval) list \<Rightarrow> string list" where
  "text_of esc d kd GNil = ''null''"
| "text_of esc d kd (GBool b) = (if b then ''true'' else ''false'')"
| "text_of esc d kd (GNum n) = show_int n"
| "text_of esc d kd (GStr s) = json_string esc s"
| "text_of esc d kd (GArr vs) = ''['' @ sep_with d (texts_of esc d kd vs) @ '']''"
| "text_of esc d kd (GObj kvs) = ''{'' @ sep_with d (members_of esc d kd kvs) @ ''}''"
| "texts_of esc d kd [] = []"
| "texts_of esc d kd (v # vs) = text_of esc d kd v # texts_of esc d kd vs"
| "members_of esc d kd [] = []"
| "members_of esc d kd ((k, v) # kvs) = (json_string esc k @ kd @ text_of esc d kd v) # members_of esc d kd kvs"

text \<open>Go writes the members of a map in the order of their keys.\<close>

fun by_keys :: "gval \<Rightarrow> gval" and all_by_keys :: "gval list \<Rightarrow> gval list"
  and members_by_keys :: "(string \<times> gval) list \<Rightarrow> (string \<times> gval) list" where
  "by_keys (GArr vs) = GArr (all_by_keys vs)"
| "by_keys (GObj kvs) = GObj (sort_key fst (members_by_keys kvs))"
| "by_keys v = v"
| "all_by_keys [] = []"
| "all_by_keys (v # vs) = by_keys v # all_by_keys vs"
| "members_by_keys [] = []"
| "members_by_keys ((k, v) # kvs) = (k, by_keys v) # members_by_keys kvs"

definition marshal :: "gval \<Rightarrow> string" where
  "marshal v = text_of json_esc '','' '':'' (by_keys v)"

definition py_dumps :: "gval \<Rightarrow> string" where
  "py_dumps v = text_of py_esc '', '' '': '' v"

section \<open>Reading\<close>

definition is_ws :: "char \<Rightarrow> bool" where
  "is_ws c \<longleftrightarrow> c = CHR 0x20 \<or> c = CHR 0x09 \<or> c = CHR 0x0A \<or> c = CHR 0x0D"

definition skip_ws :: "string \<Rightarrow> string" where
  "skip_ws s = dropWhile is_ws s"

definition hex_val :: "char \<Rightarrow> nat option" where
  "hex_val c = (let n = of_char c in
     if 48 \<le> n \<and> n \<le> 57 then Some (n - 48)
     else if 97 \<le> n \<and> n \<le> 102 then Some (n - 87)
     else if 65 \<le> n \<and> n \<le> 70 then Some (n - 55) else None)"

fun hex4 :: "string \<Rightarrow> (nat \<times> string) option" where
  "hex4 (a # b # c # d # s) = (case (hex_val a, hex_val b, hex_val c, hex_val d) of
     (Some p, Some q, Some r, Some t) \<Rightarrow> Some (((p * 16 + q) * 16 + r) * 16 + t, s) | _ \<Rightarrow> None)"
| "hex4 s = None"

text \<open>The UTF-8 encoding of a code point.\<close>

definition utf8 :: "nat \<Rightarrow> string" where
  "utf8 n =
     (if n < 0x80 then [char_of n]
      else if n < 0x800 then [char_of (0xC0 + n div 64), char_of (0x80 + n mod 64)]
      else if n < 0x10000
      then [char_of (0xE0 + n div 4096), char_of (0x80 + n div 64 mod 64), char_of (0x80 + n mod 64)]
      else [char_of (0xF0 + n div 262144), char_of (0x80 + n div 4096 mod 64),
            char_of (0x80 + n div 64 mod 64), char_of (0x80 + n mod 64)])"

text \<open>The escape \<open>\u\<close>: a surrogate pair is one code point, a lone surrogate becomes U+FFFD.\<close>

definition unicode_escape :: "string \<Rightarrow> (string \<times> string) option" where
  "unicode_escape s = (case hex4 s of
     None \<Rightarrow> None
   | Some (n, t) \<Rightarrow>
       if n < 0xD800 \<or> 0xE000 \<le> n then Some (utf8 n, t)
       else (case t of
         b # u # t' \<Rightarrow>
           if b = backslash \<and> u = CHR ''u'' then
             (case hex4 t' of
                Some (m, t'') \<Rightarrow>
                  if n < 0xDC00 \<and> 0xDC00 \<le> m \<and> m < 0xE000
                  then Some (utf8 (0x10000 + (n - 0xD800) * 1024 + (m - 0xDC00)), t'')
                  else Some (utf8 0xFFFD, t)
              | None \<Rightarrow> Some (utf8 0xFFFD, t))
           else Some (utf8 0xFFFD, t)
       | _ \<Rightarrow> Some (utf8 0xFFFD, t)))"

definition simple_escape :: "char \<Rightarrow> char option" where
  "simple_escape c =
     (if c = quote \<or> c = backslash \<or> c = CHR ''/'' then Some c
      else if c = CHR ''b'' then Some (CHR 0x08)
      else if c = CHR ''f'' then Some (CHR 0x0C)
      else if c = CHR ''n'' then Some (CHR 0x0A)
      else if c = CHR ''r'' then Some (CHR 0x0D)
      else if c = CHR ''t'' then Some (CHR 0x09) else None)"

lemma hex4_shorter: "hex4 s = Some (n, t) \<Longrightarrow> length t < length s"
  by (cases s rule: hex4.cases) (auto split: option.splits)

lemma unicode_escape_shorter: "unicode_escape s = Some (x, t) \<Longrightarrow> length t < length s"
  by (force simp: unicode_escape_def dest!: hex4_shorter split: option.splits list.splits if_splits)

text \<open>The characters up to the closing quote.\<close>

function parse_chars :: "string \<Rightarrow> (string \<times> string) option" where
  "parse_chars [] = None"
| "parse_chars (c # s) =
     (if c = quote then Some ('''', s)
      else if (of_char c :: nat) < 32 then None
      else if c = backslash then
        (case s of
           [] \<Rightarrow> None
         | e # s' \<Rightarrow>
             if e = CHR ''u'' then
               (case unicode_escape s' of
                  None \<Rightarrow> None
                | Some (x, t) \<Rightarrow> map_option (\<lambda>(y, r). (x @ y, r)) (parse_chars t))
             else (case simple_escape e of
                  None \<Rightarrow> None
                | Some d \<Rightarrow> map_option (\<lambda>(y, r). (d # y, r)) (parse_chars s')))
      else map_option (\<lambda>(y, r). (c # y, r)) (parse_chars s))"
  by pat_completeness auto
termination
  by (relation "measure length") (auto dest: unicode_escape_shorter)

text \<open>The nearest \<open>float64\<close> of an integer, ties to even.\<close>

fun bit_length :: "nat \<Rightarrow> nat" where
  "bit_length n = (if n = 0 then 0 else Suc (bit_length (n div 2)))"

declare bit_length.simps [simp del]

definition round_float :: "nat \<Rightarrow> nat" where
  "round_float n =
     (if n \<le> 2 ^ 53 then n
      else (let k = bit_length n - 53; q = n div 2 ^ k; r = n mod 2 ^ k in
        (if 2 ^ (k - 1) < r \<or> (r = 2 ^ (k - 1) \<and> odd q) then Suc q else q) * 2 ^ k))"

definition parse_number :: "string \<Rightarrow> (gval \<times> string) option" where
  "parse_number s =
     (let neg = (case s of c # _ \<Rightarrow> c = CHR ''-'' | [] \<Rightarrow> False);
          t = (if neg then tl s else s);
          ds = takeWhile is_digit t; r = dropWhile is_digit t;
          n = int (round_float (read_nat ds))
      in if ds = [] \<or> (1 < length ds \<and> hd ds = CHR ''0'') then None
         else if (case r of c # _ \<Rightarrow> c = CHR ''.'' \<or> c = CHR ''e'' \<or> c = CHR ''E'' | [] \<Rightarrow> False) then None
         else Some (GNum (if neg then - n else n), r))"

text \<open>An object is a Go map: of repeated keys the last member counts.\<close>

definition json_object :: "(string \<times> gval) list \<Rightarrow> gval" where
  "json_object kvs = GObj (foldl (\<lambda>m (k, v). gm_set k v m) [] kvs)"

text \<open>The grammar, with fuel; the length of the text is enough.\<close>

fun parse_value :: "nat \<Rightarrow> string \<Rightarrow> (gval \<times> string) option"
  and parse_elems :: "nat \<Rightarrow> string \<Rightarrow> (gval list \<times> string) option"
  and parse_members :: "nat \<Rightarrow> string \<Rightarrow> ((string \<times> gval) list \<times> string) option" where
  "parse_value 0 s = None"
| "parse_value (Suc n) s = (case skip_ws s of
     [] \<Rightarrow> None
   | c # t \<Rightarrow>
       if c = quote then map_option (\<lambda>(x, r). (GStr x, r)) (parse_chars t)
       else if c = CHR ''['' then
         (case skip_ws t of
            [] \<Rightarrow> None
          | d # r \<Rightarrow> if d = CHR '']'' then Some (GArr [], r)
              else map_option (\<lambda>(vs, r). (GArr vs, r)) (parse_elems n (d # r)))
       else if c = CHR ''{'' then
         (case skip_ws t of
            [] \<Rightarrow> None
          | d # r \<Rightarrow> if d = CHR ''}'' then Some (GObj [], r)
              else map_option (\<lambda>(kvs, r). (json_object kvs, r)) (parse_members n (d # r)))
       else if c = CHR ''-'' \<or> is_digit c then parse_number (c # t)
       else if has_prefix ''null'' (c # t) then Some (GNil, drop 4 (c # t))
       else if has_prefix ''true'' (c # t) then Some (GBool True, drop 4 (c # t))
       else if has_prefix ''false'' (c # t) then Some (GBool False, drop 5 (c # t))
       else None)"
| "parse_elems 0 s = None"
| "parse_elems (Suc n) s = (case parse_value n s of
     None \<Rightarrow> None
   | Some (v, r) \<Rightarrow> (case skip_ws r of
       [] \<Rightarrow> None
     | c # t \<Rightarrow>
         if c = CHR '','' then map_option (\<lambda>(vs, r). (v # vs, r)) (parse_elems n t)
         else if c = CHR '']'' then Some ([v], t) else None))"
| "parse_members 0 s = None"
| "parse_members (Suc n) s = (case skip_ws s of
     [] \<Rightarrow> None
   | q # t \<Rightarrow>
       if q \<noteq> quote then None
       else (case parse_chars t of
         None \<Rightarrow> None
       | Some (k, r) \<Rightarrow> (case skip_ws r of
           [] \<Rightarrow> None
         | c # t1 \<Rightarrow>
             if c \<noteq> CHR '':'' then None
             else (case parse_value n t1 of
               None \<Rightarrow> None
             | Some (v, r1) \<Rightarrow> (case skip_ws r1 of
                 [] \<Rightarrow> None
               | d # t2 \<Rightarrow>
                   if d = CHR '','' then map_option (\<lambda>(kvs, r). ((k, v) # kvs, r)) (parse_members n t2)
                   else if d = CHR ''}'' then Some ([(k, v)], t2) else None)))))"

text \<open>\<open>Unmarshal\<close> reads one value and nothing after it; \<open>Decoder.Decode\<close> reads the first value.\<close>

definition unmarshal :: "string \<Rightarrow> gval option" where
  "unmarshal s = (case parse_value (length s) s of
     Some (v, r) \<Rightarrow> (if skip_ws r = [] then Some v else None) | None \<Rightarrow> None)"

definition decode :: "string \<Rightarrow> gval option" where
  "decode s = map_option fst (parse_value (length s) s)"

section \<open>Reading back what was written\<close>

lemma hex_val_digit [simp]: "d < 16 \<Longrightarrow> hex_val (hex_digit d) = Some d"
  by (auto simp: hex_val_def hex_digit_def of_char_of Let_def)

lemma unicode_escape_ascii:
  assumes "n < 128"
  shows "unicode_escape (CHR ''0'' # CHR ''0'' # hex_digit (n div 16) # hex_digit (n mod 16) # s)
    = Some ([char_of n], s)"
proof -
  have "hex_val (CHR ''0'') = Some 0" by code_simp
  moreover have "n div 16 < 16" using assms by simp
  ultimately have "hex4 (CHR ''0'' # CHR ''0'' # hex_digit (n div 16) # hex_digit (n mod 16) # s) = Some (n, s)"
    by simp
  with assms show ?thesis by (simp add: unicode_escape_def utf8_def)
qed

lemma parse_json_esc:
  "parse_chars (json_esc c @ s) = map_option (\<lambda>(y, r). (c # y, r)) (parse_chars s)"
proof (cases "c \<in> {quote, backslash, CHR 0x08, CHR 0x0C, CHR 0x0A, CHR 0x0D, CHR 0x09}")
  case True
  then show ?thesis by (elim insertE emptyE) (simp_all add: json_esc_def simple_escape_def)
next
  case other: False
  show ?thesis
  proof (cases "(of_char c :: nat) < 32 \<or> c = CHR ''<'' \<or> c = CHR ''>'' \<or> c = CHR ''&''")
    case True
    then have "(of_char c :: nat) < 128" by (elim disjE) simp_all
    note unicode_escape_ascii [OF this, of s]
    moreover have "json_esc c = [backslash, CHR ''u'', CHR ''0'', CHR ''0'',
            hex_digit (of_char c div 16), hex_digit (of_char c mod 16)]"
      using True other by (simp add: json_esc_def)
    ultimately show ?thesis by simp
  next
    case False
    with other have "json_esc c = [c]" by (simp add: json_esc_def)
    with False other show ?thesis by simp
  qed
qed

definition esc_ok :: "(char \<Rightarrow> string) \<Rightarrow> bool" where
  "esc_ok esc \<longleftrightarrow> (\<forall>c s. parse_chars (esc c @ s) = map_option (\<lambda>(y, r). (c # y, r)) (parse_chars s))"

lemma esc_ok_go: "esc_ok json_esc"
  by (simp add: esc_ok_def parse_json_esc)

lemma esc_ok_py: "esc_ok py_esc"
proof -
  have u: "unicode_escape (CHR ''0'' # CHR ''0'' # CHR ''7'' # CHR ''f'' # s) = Some ([CHR 0x7F], s)" for s
  proof -
    have "hex_digit (127 div 16) = CHR ''7''" and "hex_digit (127 mod 16) = CHR ''f''"
      and "char_of (127 :: nat) = CHR 0x7F" by code_simp+
    with unicode_escape_ascii [of 127 s] show ?thesis by simp
  qed
  have "parse_chars (py_esc c @ s) = map_option (\<lambda>(y, r). (c # y, r)) (parse_chars s)" for c s
  proof (cases "c \<in> {CHR ''<'', CHR ''>'', CHR ''&'', CHR 0x7F}")
    case True
    then show ?thesis by (elim insertE emptyE) (simp_all add: py_esc_def u)
  next
    case False
    with parse_json_esc [of c s] show ?thesis by (simp add: py_esc_def)
  qed
  then show ?thesis by (simp add: esc_ok_def)
qed

lemma parse_json_chars:
  "esc_ok esc \<Longrightarrow> parse_chars (concat (map esc s) @ quote # rest) = Some (s, rest)"
  by (induction s) (simp_all add: esc_ok_def)

text \<open>Numbers.\<close>

lemma round_float_id: "n \<le> 2 ^ 53 \<Longrightarrow> round_float n = n"
  by (simp add: round_float_def)

lemma show_nat_zero: "hd (show_nat n) = CHR ''0'' \<Longrightarrow> n = 0"
proof (induction n rule: show_nat.induct)
  case (1 n)
  show ?case
  proof (cases "n < 10")
    case True
    moreover have "digit_char 0 = CHR ''0''" by code_simp
    ultimately have "digit_char n = digit_char 0"
      using "1.prems" by (subst (asm) show_nat.simps) simp
    with True digit_char_val [of n] digit_char_val [of 0] show ?thesis by simp
  next
    case False
    with "1.prems" have "hd (show_nat (n div 10)) = CHR ''0''"
      by (subst (asm) show_nat.simps) simp
    with "1.IH" [OF False] have "n div 10 = 0" by simp
    with False show ?thesis by simp
  qed
qed

definition ends_number :: "string \<Rightarrow> bool" where
  "ends_number s = (case s of [] \<Rightarrow> True | c # _ \<Rightarrow> \<not> is_digit c \<and> c \<noteq> CHR ''.'' \<and> c \<noteq> CHR ''e'' \<and> c \<noteq> CHR ''E'')"

lemma takeWhile_digits:
  assumes "ends_number rest"
  shows "takeWhile is_digit (show_nat n @ rest) = show_nat n"
    and "dropWhile is_digit (show_nat n @ rest) = rest"
proof -
  have all: "\<forall>c \<in> set (show_nat n). is_digit c" by (simp add: show_nat_digits)
  have "takeWhile is_digit rest = []" "dropWhile is_digit rest = rest"
    using assms by (cases rest; simp add: ends_number_def)+
  with all show "takeWhile is_digit (show_nat n @ rest) = show_nat n"
    and "dropWhile is_digit (show_nat n @ rest) = rest"
    by (simp_all add: takeWhile_append2 dropWhile_append2)
qed

lemma show_nat_single: "show_nat 0 = ''0''"
  by code_simp

lemma not_digit_minus: "\<not> is_digit (CHR ''-'')"
  by code_simp

lemma show_nat_hd_digit: "is_digit (hd (show_nat n))"
  by (rule show_nat_digits [of _ n]) simp

lemma parse_number_show:
  assumes "\<bar>n\<bar> \<le> 2 ^ 53" and "ends_number rest"
  shows "parse_number (show_int n @ rest) = Some (GNum n, rest)"
proof -
  let ?m = "nat \<bar>n\<bar>"
  have m: "round_float ?m = ?m" using assms(1) by (intro round_float_id) simp
  have lead: "\<not> (1 < length (show_nat ?m) \<and> hd (show_nat ?m) = CHR ''0'')"
    using show_nat_zero [of ?m] show_nat_single by auto
  have stop: "\<not> (case rest of c # _ \<Rightarrow> c = CHR ''.'' \<or> c = CHR ''e'' \<or> c = CHR ''E'' | [] \<Rightarrow> False)"
    using assms(2) by (simp add: ends_number_def split: list.splits)
  have hd: "\<not> (case show_nat ?m @ rest of c # _ \<Rightarrow> c = CHR ''-'' | [] \<Rightarrow> False)"
    using show_nat_hd_digit [of ?m] not_digit_minus by (cases "show_nat ?m") auto
  show ?thesis
  proof (cases "n < 0")
    case True
    then have "show_int n @ rest = CHR ''-'' # show_nat ?m @ rest" by (simp add: show_int_def)
    with True lead stop m takeWhile_digits [OF assms(2), of ?m] show ?thesis
      by (simp add: parse_number_def Let_def)
  next
    case False
    then have s: "show_int n @ rest = show_nat ?m @ rest" by (simp add: show_int_def)
    show ?thesis
      unfolding s parse_number_def Let_def
      using False lead stop hd m takeWhile_digits [OF assms(2), of ?m] by simp
  qed
qed

text \<open>Values whose numbers are exact, and whose objects are written in the order they are kept in.\<close>

fun gval_ok :: "gval \<Rightarrow> bool" and gvals_ok :: "gval list \<Rightarrow> bool"
  and members_ok :: "(string \<times> gval) list \<Rightarrow> bool" where
  "gval_ok (GNum n) = (\<bar>n\<bar> \<le> 2 ^ 53)"
| "gval_ok (GArr vs) = gvals_ok vs"
| "gval_ok (GObj kvs) = (sorted_wrt (<) (map fst kvs) \<and> members_ok kvs)"
| "gval_ok _ = True"
| "gvals_ok [] = True"
| "gvals_ok (v # vs) = (gval_ok v \<and> gvals_ok vs)"
| "members_ok [] = True"
| "members_ok ((k, v) # kvs) = (gval_ok v \<and> members_ok kvs)"

lemma skip_ws_Cons: "\<not> is_ws c \<Longrightarrow> skip_ws (c # s) = c # s"
  by (simp add: skip_ws_def)

lemma not_ws [simp]:
  "\<not> is_ws quote" "\<not> is_ws (CHR ''['')" "\<not> is_ws (CHR '']'')" "\<not> is_ws (CHR ''{'')" "\<not> is_ws (CHR ''}'')"
  "\<not> is_ws (CHR '','')" "\<not> is_ws (CHR '':'')" "\<not> is_ws (CHR ''-'')" "\<not> is_ws (CHR ''n'')"
  "\<not> is_ws (CHR ''t'')" "\<not> is_ws (CHR ''f'')"
  by (simp_all add: is_ws_def)

lemma digit_not_ws: "is_digit c \<Longrightarrow> \<not> is_ws c \<and> c \<noteq> CHR '']'' \<and> c \<noteq> CHR ''}'' \<and> c \<noteq> quote \<and>
    c \<noteq> CHR ''['' \<and> c \<noteq> CHR ''{''"
  by (auto simp: is_digit_def is_ws_def)

lemma show_int_head: "\<exists>c t. show_int n = c # t \<and> (c = CHR ''-'' \<or> is_digit c)"
proof (cases "n < 0")
  case True
  then show ?thesis by (simp add: show_int_def)
next
  case False
  moreover obtain c t where "show_nat (nat n) = c # t" by (cases "show_nat (nat n)") auto
  ultimately show ?thesis using show_nat_hd_digit [of "nat n"] by (simp add: show_int_def)
qed

text \<open>No value is written as the empty text, or starts with a space or a closing bracket.\<close>

lemma show_int_nonempty: "show_int i \<noteq> []"
  using show_int_head [of i] by auto

lemma text_head: "\<exists>c t. text_of esc d kd v = c # t \<and> \<not> is_ws c \<and> c \<noteq> CHR '']'' \<and> c \<noteq> CHR ''}''"
proof (cases v)
  case (GNum n)
  with show_int_head [of n] show ?thesis by (auto dest: digit_not_ws)
qed (simp_all add: json_string_def)

lemma parse_value_scalar:
  assumes "0 < n" and "ends_number rest" and "\<bar>i\<bar> \<le> 2 ^ 53"
  shows "parse_value n (show_int i @ rest) = Some (GNum i, rest)"
proof -
  obtain m where n: "n = Suc m" using assms(1) gr0_implies_Suc by blast
  from show_int_head obtain c t where c: "show_int i = c # t" "c = CHR ''-'' \<or> is_digit c" by blast
  then have "\<not> is_ws c \<and> c \<noteq> quote \<and> c \<noteq> CHR ''['' \<and> c \<noteq> CHR ''{''"
    using digit_not_ws by auto
  with c parse_number_show [OF assms(3,2)] show ?thesis by (simp add: n skip_ws_Cons)
qed

lemma parse_value_string:
  "esc_ok esc \<Longrightarrow> 0 < n \<Longrightarrow> parse_value n (json_string esc s @ rest) = Some (GStr s, rest)"
  by (cases n) (simp_all add: json_string_def skip_ws_Cons parse_json_chars)

lemma json_object_distinct: "distinct (map fst kvs) \<Longrightarrow> json_object kvs = GObj kvs"
proof -
  have "foldl (\<lambda>m (k, v). gm_set k v m) m kvs = m @ kvs" if "distinct (map fst (m @ kvs))" for m
    using that
  proof (induction kvs arbitrary: m)
    case (Cons p kvs)
    obtain k v where p: "p = (k, v)" by force
    with Cons.prems have "k \<notin> fst ` set m" by auto
    then have "gm_set k v m = m @ [(k, v)]"
      unfolding gm_set_def by (induction m) auto
    with Cons.IH [of "m @ [(k, v)]"] Cons.prems p show ?case by simp
  qed simp
  then show "distinct (map fst kvs) \<Longrightarrow> json_object kvs = GObj kvs"
    by (simp add: json_object_def)
qed

lemma ends_number_punct [simp]:
  "ends_number (CHR '','' # s)" "ends_number (CHR '']'' # s)" "ends_number (CHR ''}'' # s)" "ends_number []"
  by (simp_all add: ends_number_def is_digit_def)

text \<open>Spaces in front do not matter.\<close>

lemma skip_ws_append: "list_all is_ws ws \<Longrightarrow> skip_ws (ws @ s) = skip_ws s"
  by (induction ws) (simp_all add: skip_ws_def)

lemma parse_ws:
  assumes "list_all is_ws ws"
  shows "parse_value n (ws @ s) = parse_value n s" and "parse_members n (ws @ s) = parse_members n s"
    and "parse_elems n (ws @ s) = parse_elems n s"
proof -
  show v: "parse_value n (ws @ s) = parse_value n s" for n
    by (cases n) (simp_all add: skip_ws_append [OF assms])
  show "parse_members n (ws @ s) = parse_members n s"
    by (cases n) (simp_all add: skip_ws_append [OF assms])
  show "parse_elems n (ws @ s) = parse_elems n s"
    by (cases n) (simp_all add: v)
qed

lemma parse_text:
  assumes esc: "esc_ok esc" and d: "d = CHR '','' # ws" "list_all is_ws ws"
    and kd: "kd = CHR '':'' # ws'" "list_all is_ws ws'"
  shows "gval_ok v \<Longrightarrow> length (text_of esc d kd v) \<le> n \<Longrightarrow> ends_number rest \<Longrightarrow>
      parse_value n (text_of esc d kd v @ rest) = Some (v, rest)"
    and "gvals_ok vs \<Longrightarrow> vs \<noteq> [] \<Longrightarrow> length (sep_with d (texts_of esc d kd vs)) < n \<Longrightarrow>
      parse_elems n (sep_with d (texts_of esc d kd vs) @ CHR '']'' # rest) = Some (vs, rest)"
    and "members_ok kvs \<Longrightarrow> kvs \<noteq> [] \<Longrightarrow> length (sep_with d (members_of esc d kd kvs)) < n \<Longrightarrow>
      parse_members n (sep_with d (members_of esc d kd kvs) @ CHR ''}'' # rest) = Some (kvs, rest)"
proof (induction v and vs and kvs arbitrary: n rest and n rest and n rest
    rule: by_keys_all_by_keys_members_by_keys.induct)
  case (1 vs)
  then obtain m where n: "n = Suc m" by (cases n) auto
  show ?case
  proof (cases "vs = []")
    case True
    then show ?thesis by (simp add: n skip_ws_Cons)
  next
    case False
    then obtain w ws where "vs = w # ws" by (cases vs) auto
    moreover obtain c t where "text_of esc d kd w = c # t" "\<not> is_ws c" "c \<noteq> CHR '']''" using text_head by blast
    ultimately obtain t' where "sep_with d (texts_of esc d kd vs) = c # t'"
      by (cases "texts_of esc d kd ws") auto
    with 1 False n \<open>\<not> is_ws c\<close> \<open>c \<noteq> CHR '']''\<close> show ?thesis by (simp add: skip_ws_Cons)
  qed
next
  case (2 kvs)
  then obtain m where n: "n = Suc m" by (cases n) auto
  have o: "json_object kvs = GObj kvs"
    using 2(2) by (simp add: json_object_distinct strict_sorted_iff)
  show ?case
  proof (cases "kvs = []")
    case True
    then show ?thesis by (simp add: n skip_ws_Cons)
  next
    case False
    then obtain k w ws where "kvs = (k, w) # ws" by (cases kvs) auto
    then obtain t' where "sep_with d (members_of esc d kd kvs) = quote # t'"
      by (cases "members_of esc d kd ws") (auto simp: json_string_def)
    with 2 False n o show ?thesis by (simp add: skip_ws_Cons)
  qed
next
  case "3_1"
  then show ?case by (cases n) (simp_all add: skip_ws_Cons is_digit_def)
next
  case "3_2"
  then show ?case by (cases n) (auto simp: skip_ws_Cons is_digit_def split: if_splits)
next
  case "3_3"
  have "0 < n" using "3_3"(2) by (cases n) (simp_all add: show_int_nonempty)
  with "3_3" show ?case by (simp add: parse_value_scalar)
next
  case "3_4"
  have "0 < n" using "3_4"(2) by (simp add: json_string_def)
  then show ?case by (simp add: parse_value_string [OF esc])
next
  case 4
  then show ?case by simp
next
  case (5 v vs)
  then obtain m where n: "n = Suc m" by (cases n) auto
  show ?case
  proof (cases "vs = []")
    case True
    with 5 n show ?thesis by (simp add: skip_ws_Cons)
  next
    case False
    then have "sep_with d (texts_of esc d kd (v # vs)) =
        text_of esc d kd v @ CHR '','' # ws @ sep_with d (texts_of esc d kd vs)"
      using d(1) by (cases vs) simp_all
    with 5 n False show ?thesis by (simp add: skip_ws_Cons parse_ws(3) [OF d(2)])
  qed
next
  case 6
  then show ?case by simp
next
  case (7 k v kvs)
  then obtain m where n: "n = Suc m" by (cases n) auto
  show ?case
  proof (cases "kvs = []")
    case True
    with 7 n kd show ?thesis
      by (simp add: skip_ws_Cons json_string_def parse_json_chars [OF esc] parse_ws(1) [OF kd(2)])
  next
    case False
    then have "sep_with d (members_of esc d kd ((k, v) # kvs)) =
        json_string esc k @ CHR '':'' # ws' @ text_of esc d kd v @ CHR '','' # ws @ sep_with d (members_of esc d kd kvs)"
      using d(1) kd(1) by (cases kvs) auto
    with 7 n False show ?thesis
      by (simp add: skip_ws_Cons json_string_def parse_json_chars [OF esc] parse_ws(1) [OF kd(2)] parse_ws(2) [OF d(2)])
  qed
qed

lemma by_keys_id:
  "gval_ok v \<Longrightarrow> by_keys v = v" "gvals_ok vs \<Longrightarrow> all_by_keys vs = vs" "members_ok kvs \<Longrightarrow> members_by_keys kvs = kvs"
  by (induction v and vs and kvs rule: by_keys_all_by_keys_members_by_keys.induct)
    (simp_all add: sort_key_id_if_sorted strict_sorted_imp_sorted)

lemma parse_marshal:
  "gval_ok v \<Longrightarrow> length (marshal v) \<le> n \<Longrightarrow> ends_number rest \<Longrightarrow>
     parse_value n (marshal v @ rest) = Some (v, rest)"
  using parse_text(1) [OF esc_ok_go refl _ refl, of "[]" "[]"] by (simp add: marshal_def by_keys_id)

lemma parse_dumps:
  "gval_ok v \<Longrightarrow> length (py_dumps v) \<le> n \<Longrightarrow> ends_number rest \<Longrightarrow>
     parse_value n (py_dumps v @ rest) = Some (v, rest)"
  using parse_text(1) [OF esc_ok_py refl _ refl, of "'' ''" "'' ''"] by (simp add: py_dumps_def is_ws_def)

lemma unmarshal_marshal: "gval_ok v \<Longrightarrow> unmarshal (marshal v) = Some v"
  using parse_marshal [of v "length (marshal v)" "[]"] by (simp add: unmarshal_def skip_ws_def)

lemma unmarshal_by_keys: "gval_ok (by_keys v) \<Longrightarrow> unmarshal (marshal v) = Some (by_keys v)"
  using parse_text(1) [OF esc_ok_go refl _ refl, of "[]" "[]" "by_keys v" "length (marshal v)" "[]"]
  by (simp add: unmarshal_def skip_ws_def marshal_def)

lemma decode_by_keys:
  "gval_ok (by_keys v) \<Longrightarrow> ends_number rest \<Longrightarrow> decode (marshal v @ rest) = Some (by_keys v)"
  using parse_text(1) [OF esc_ok_go refl _ refl, of "[]" "[]" "by_keys v" "length (marshal v @ rest)" rest]
  by (simp add: decode_def marshal_def)

lemma decode_marshal: "gval_ok v \<Longrightarrow> ends_number rest \<Longrightarrow> decode (marshal v @ rest) = Some v"
  using parse_marshal [of v "length (marshal v @ rest)"] by (simp add: decode_def)

lemma unmarshal_dumps: "gval_ok v \<Longrightarrow> unmarshal (py_dumps v) = Some v"
  using parse_dumps [of v "length (py_dumps v)" "[]"] by (simp add: unmarshal_def skip_ws_def)

lemma decode_dumps: "gval_ok v \<Longrightarrow> decode (py_dumps v) = Some v"
  using parse_dumps [of v "length (py_dumps v)" "[]"] by (simp add: decode_def)

section \<open>The fuel is enough\<close>

lemma length_skip_ws: "length (skip_ws s) \<le> length s"
  by (simp add: skip_ws_def length_dropWhile_le)

lemma parse_chars_shorter: "parse_chars s = Some (x, r) \<Longrightarrow> length r < length s"
proof (induction s arbitrary: x r rule: parse_chars.induct)
  case (2 c s)
  then show ?case
    by (fastforce dest: unicode_escape_shorter split: if_splits option.splits list.splits)
qed simp

lemma parse_number_shorter: "parse_number s = Some (v, r) \<Longrightarrow> length r < length s"
proof -
  assume p: "parse_number s = Some (v, r)"
  define t where "t = (if (case s of c # _ \<Rightarrow> c = CHR ''-'' | [] \<Rightarrow> False) then tl s else s)"
  from p have r: "r = dropWhile is_digit t" and ne: "takeWhile is_digit t \<noteq> []"
    by (auto simp: parse_number_def Let_def t_def split: if_splits)
  have "length t = length (takeWhile is_digit t) + length (dropWhile is_digit t)"
    by (metis length_append takeWhile_dropWhile_id)
  moreover have "0 < length (takeWhile is_digit t)" using ne by simp
  ultimately have "length r < length t" using r by simp
  moreover have "length t \<le> length s" by (simp add: t_def)
  ultimately show "length r < length s" by simp
qed

text \<open>A successful parse needs no more fuel than the characters it consumed.\<close>

definition fuel_bound :: "(nat \<Rightarrow> string \<Rightarrow> ('a \<times> string) option) \<Rightarrow> nat \<Rightarrow> bool" where
  "fuel_bound p n \<longleftrightarrow> (\<forall>s v r. p n s = Some (v, r) \<longrightarrow>
     length r < length s \<and> (\<forall>m. length s - length r \<le> m \<longrightarrow> p m s = Some (v, r)))"

lemma fuel_boundI:
  assumes "\<And>s v r. p n s = Some (v, r) \<Longrightarrow> length r < length s"
    and "\<And>s v r k. p n s = Some (v, r) \<Longrightarrow> length s - length r \<le> Suc k \<Longrightarrow> p (Suc k) s = Some (v, r)"
  shows "fuel_bound p n"
  unfolding fuel_bound_def
proof (intro allI impI conjI)
  fix s v r m
  assume r: "p n s = Some (v, r)"
  from assms(1) [OF r] show "length r < length s" .
  then show "length s - length r \<le> m \<Longrightarrow> p m s = Some (v, r)"
    using assms(2) [OF r, of "m - 1"] by (cases m) auto
qed

lemma fuel_boundD:
  assumes "fuel_bound p n" and "p n s = Some (v, r)"
  shows "length r < length s" and "length s - length r \<le> m \<Longrightarrow> p m s = Some (v, r)"
  using assms unfolding fuel_bound_def by blast+

lemma skip_ws_le: "skip_ws s = c # t \<Longrightarrow> length t < length s"
  using length_skip_ws [of s] by simp

lemma fuel_bound_elems:
  assumes V: "fuel_bound parse_value n" and E: "fuel_bound parse_elems n"
  shows "fuel_bound parse_elems (Suc n)"
proof (rule fuel_boundI)
  fix s vs r
  assume p: "parse_elems (Suc n) s = Some (vs, r)"
  then obtain v r1 where v: "parse_value n s = Some (v, r1)" by (auto split: option.splits)
  with p obtain c t where c: "skip_ws r1 = c # t" by (auto split: list.splits)
  note lv = fuel_boundD [OF V v] and lc = skip_ws_le [OF c]
  have "length r < length s \<and> (\<forall>k. length s - length r \<le> Suc k \<longrightarrow> parse_elems (Suc k) s = Some (vs, r))"
  proof (cases "c = CHR '',''")
    case True
    with p v c obtain ws where ws: "parse_elems n t = Some (ws, r)" "vs = v # ws" by auto
    note le = fuel_boundD [OF E ws(1)]
    have "length r < length s" using lv(1) lc le(1) by simp
    moreover have "parse_elems (Suc k) s = Some (vs, r)" if "length s - length r \<le> Suc k" for k
      using that lv(1) lc le(1) lv(2) [of k] le(2) [of k] c True ws(2) by simp
    ultimately show ?thesis by blast
  next
    case False
    with p v c have e: "c = CHR '']''" "r = t" "vs = [v]" by (auto split: if_splits)
    have "length r < length s" using lv(1) lc e by simp
    moreover have "parse_elems (Suc k) s = Some (vs, r)" if "length s - length r \<le> Suc k" for k
      using that lv(1) lc lv(2) [of k] c e by simp
    ultimately show ?thesis by blast
  qed
  then show "length r < length s"
    and "\<And>k. length s - length r \<le> Suc k \<Longrightarrow> parse_elems (Suc k) s = Some (vs, r)" by blast+
qed

lemma fuel_bound_members:
  assumes V: "fuel_bound parse_value n" and M: "fuel_bound parse_members n"
  shows "fuel_bound parse_members (Suc n)"
proof (rule fuel_boundI)
  fix s kvs r
  assume p: "parse_members (Suc n) s = Some (kvs, r)"
  then obtain t where q: "skip_ws s = quote # t" by (auto split: list.splits if_splits)
  with p obtain k r0 where k: "parse_chars t = Some (k, r0)" by (auto split: option.splits)
  with p q obtain t1 where t1: "skip_ws r0 = CHR '':'' # t1" by (auto split: list.splits if_splits)
  with p q k obtain v r1 where v: "parse_value n t1 = Some (v, r1)" by (auto split: option.splits)
  with p q k t1 obtain c t2 where c: "skip_ws r1 = c # t2" by (auto split: list.splits)
  note lv = fuel_boundD [OF V v] and lc = skip_ws_le [OF c] skip_ws_le [OF t1] skip_ws_le [OF q]
    parse_chars_shorter [OF k]
  have "length r < length s \<and> (\<forall>j. length s - length r \<le> Suc j \<longrightarrow> parse_members (Suc j) s = Some (kvs, r))"
  proof (cases "c = CHR '',''")
    case True
    with p q k t1 v c obtain ws where ws: "parse_members n t2 = Some (ws, r)" "kvs = (k, v) # ws" by auto
    note le = fuel_boundD [OF M ws(1)]
    have "length r < length s" using lv(1) lc le(1) by simp
    moreover have "parse_members (Suc j) s = Some (kvs, r)" if "length s - length r \<le> Suc j" for j
      using that lv(1) lc le(1) lv(2) [of j] le(2) [of j] q k t1 c True ws(2) by simp
    ultimately show ?thesis by blast
  next
    case False
    with p q k t1 v c have e: "c = CHR ''}''" "r = t2" "kvs = [(k, v)]" by (auto split: if_splits)
    have "length r < length s" using lv(1) lc e by simp
    moreover have "parse_members (Suc j) s = Some (kvs, r)" if "length s - length r \<le> Suc j" for j
      using that lv(1) lc lv(2) [of j] q k t1 c e by simp
    ultimately show ?thesis by blast
  qed
  then show "length r < length s"
    and "\<And>j. length s - length r \<le> Suc j \<Longrightarrow> parse_members (Suc j) s = Some (kvs, r)" by blast+
qed

lemma fuel_bound_value:
  assumes E: "fuel_bound parse_elems n" and M: "fuel_bound parse_members n"
  shows "fuel_bound parse_value (Suc n)"
proof (rule fuel_boundI)
  fix s v r
  assume p: "parse_value (Suc n) s = Some (v, r)"
  then obtain c t where c: "skip_ws s = c # t" by (auto split: list.splits)
  note lc = skip_ws_le [OF c]
  have "length r < length s \<and> (\<forall>k. length s - length r \<le> Suc k \<longrightarrow> parse_value (Suc k) s = Some (v, r))"
  proof (cases "c = CHR ''[''")
    case True
    with p c obtain d t1 where d: "skip_ws t = d # t1" by (auto split: list.splits)
    note ld = skip_ws_le [OF d]
    show ?thesis
    proof (cases "d = CHR '']''")
      case True
      with p c d \<open>c = CHR ''[''\<close> lc ld show ?thesis by auto
    next
      case False
      with p c d \<open>c = CHR ''[''\<close> obtain vs where vs: "parse_elems n (d # t1) = Some (vs, r)" "v = GArr vs" by auto
      note le = fuel_boundD [OF E vs(1)]
      have "length (d # t1) \<le> length t" using d length_skip_ws [of t] by simp
      then show ?thesis
        using le(1) le(2) vs(2) lc c d False \<open>c = CHR ''[''\<close> by (auto intro!: le(2))
    qed
  next
    case no_array: False
    show ?thesis
    proof (cases "c = CHR ''{''")
      case True
      with p c obtain d t1 where d: "skip_ws t = d # t1" by (auto split: list.splits)
      note ld = skip_ws_le [OF d]
      show ?thesis
      proof (cases "d = CHR ''}''")
        case True
        with p c d \<open>c = CHR ''{''\<close> lc ld show ?thesis by auto
      next
        case False
        with p c d \<open>c = CHR ''{''\<close> obtain kvs where
            kvs: "parse_members n (d # t1) = Some (kvs, r)" "v = json_object kvs" by auto
        note le = fuel_boundD [OF M kvs(1)]
        have "length (d # t1) \<le> length t" using d length_skip_ws [of t] by simp
        then show ?thesis
          using le(1) le(2) kvs(2) lc c d False \<open>c = CHR ''{''\<close> by (auto intro!: le(2))
      qed
    next
      case False
      with no_array p c have "length r < length (c # t)"
        by (auto simp del: has_prefix.simps dest: parse_chars_shorter parse_number_shorter split: if_splits)
      moreover have "length (c # t) \<le> length s" using c length_skip_ws [of s] by simp
      moreover have "parse_value (Suc k) s = parse_value (Suc n) s" for k
        using c no_array False by simp
      ultimately show ?thesis using p by simp
    qed
  qed
  then show "length r < length s"
    and "\<And>k. length s - length r \<le> Suc k \<Longrightarrow> parse_value (Suc k) s = Some (v, r)" by blast+
qed

lemma parse_fuel: "fuel_bound parse_value n \<and> fuel_bound parse_elems n \<and> fuel_bound parse_members n"
proof (induction n)
  case 0
  then show ?case by (simp add: fuel_bound_def)
next
  case (Suc n)
  then show ?case by (simp add: fuel_bound_value fuel_bound_elems fuel_bound_members)
qed

text \<open>So a text that parses with any fuel parses with as much as it is long.\<close>

lemma fuel_enough: "parse_value n s = Some (v, r) \<Longrightarrow> parse_value (length s) s = Some (v, r)"
  by (rule fuel_boundD(2) [OF conjunct1 [OF parse_fuel [of n]]]) simp_all

end
