(* ===== verification/HIRB_Store.thy ===== *)
theory HIRB_Store
  imports JSON_Codec
begin

text \<open>
  The client of the oblivious map of indices (\<open>libs/hirb/HIRB.go\<close>) and the HTTP server in front of
  it (\<open>deps/obliv/obliv_server.py\<close>).

  The transport (\<open>http.Post\<close>) is a parameter: a function from the request body and the state of
  the world to a reply and the new world. The HIRB data structure itself is third-party code; the
  server takes its three operations as a parameter.
\<close>

section \<open>The client\<close>

datatype http_reply = NoReply | Reply int string

type_synonym 'w transport = "string \<Rightarrow> 'w \<Rightarrow> http_reply \<times> 'w"

datatype client_error = PostFailed | StatusError int string | DecodeFailed

text \<open>\<open>json.Marshal\<close> of the request map; a nil value is left out.\<close>

definition hirb_body :: "string \<Rightarrow> string \<Rightarrow> gval \<Rightarrow> string" where
  "hirb_body op key val =
     marshal (GObj ([(''op'', GStr op), (''key'', GStr key)] @ (if val \<noteq> GNil then [(''val'', val)] else [])))"

text \<open>Decoding into \<open>map[string]interface{}\<close>: null leaves the map nil.\<close>

definition decode_map :: "string \<Rightarrow> (string, gval) gmap option" where
  "decode_map body = (case decode body of
     Some (GObj m) \<Rightarrow> Some m | Some GNil \<Rightarrow> Some [] | _ \<Rightarrow> None)"

definition field_or_nil :: "string \<Rightarrow> (string, gval) gmap \<Rightarrow> gval" where
  "field_or_nil k m = (case gm_get m k of None \<Rightarrow> GNil | Some v \<Rightarrow> v)"

definition sendHIRBRequest ::
  "'w transport \<Rightarrow> string \<Rightarrow> string \<Rightarrow> gval \<Rightarrow> 'w \<Rightarrow> (client_error + gval) \<times> 'w" where
  "sendHIRBRequest post op key val w =
     (case post (hirb_body op key val) w of
        (NoReply, w') \<Rightarrow> (Inl PostFailed, w')
      | (Reply status body, w') \<Rightarrow>
          (case decode_map body of
             None \<Rightarrow> (Inl DecodeFailed, w')
           | Some result \<Rightarrow> (Inr (field_or_nil ''result'' result), w')))"

definition hirb_Get :: "'w transport \<Rightarrow> string \<Rightarrow> 'w \<Rightarrow> (client_error + gval) \<times> 'w" where
  "hirb_Get post key w = sendHIRBRequest post ''get'' key GNil w"

definition hirb_Set :: "'w transport \<Rightarrow> string \<Rightarrow> gval \<Rightarrow> 'w \<Rightarrow> (client_error + unit) \<times> 'w" where
  "hirb_Set post key val w = map_prod (map_sum id (\<lambda>_. ())) id (sendHIRBRequest post ''set'' key val w)"

definition hirb_Delete :: "'w transport \<Rightarrow> string \<Rightarrow> 'w \<Rightarrow> (client_error + unit) \<times> 'w" where
  "hirb_Delete post key w = map_prod (map_sum id (\<lambda>_. ())) id (sendHIRBRequest post ''del'' key GNil w)"

section \<open>The server\<close>

text \<open>
  The operations of \<open>Hirb\<close> the server calls; \<open>Inl\<close> is an exception with its text, \<open>bad_body\<close> the
  text of the exception a body raises that is not a JSON object with the two members.
\<close>

record 's hirb_ops =
  h_get :: "gval \<Rightarrow> 's \<Rightarrow> (string + gval) \<times> 's"
  h_set :: "gval \<Rightarrow> gval \<Rightarrow> 's \<Rightarrow> (string + unit) \<times> 's"
  h_del :: "gval \<Rightarrow> 's \<Rightarrow> (string + unit) \<times> 's"
  bad_body :: "string \<Rightarrow> string"

text \<open>\<open>do_POST\<close>: an exception becomes a reply 500 whose body is its text.\<close>

definition do_POST :: "'s hirb_ops \<Rightarrow> string \<Rightarrow> 's \<Rightarrow> http_reply \<times> 's" where
  "do_POST ops body s =
     (case unmarshal body of
        Some (GObj req) \<Rightarrow>
          (case (gm_get req ''op'', gm_get req ''key'') of
             (Some op, Some key) \<Rightarrow>
               (let reply = (\<lambda>r. Reply 200 (py_dumps (GObj [(''result'', r)]))) in
                if op = GStr ''get'' then
                  (case h_get ops key s of
                     (Inr v, s') \<Rightarrow> (reply v, s') | (Inl e, s') \<Rightarrow> (Reply 500 e, s'))
                else if op = GStr ''set'' then
                  (case h_set ops key (field_or_nil ''val'' req) s of
                     (Inr u, s') \<Rightarrow> (reply (GStr ''ok''), s') | (Inl e, s') \<Rightarrow> (Reply 500 e, s'))
                else if op = GStr ''del'' then
                  (case h_del ops key s of
                     (Inr u, s') \<Rightarrow> (reply (GStr ''ok''), s') | (Inl e, s') \<Rightarrow> (Reply 500 e, s'))
                else (Reply 400 ''Invalid operation'', s))
           | _ \<Rightarrow> (Reply 500 (bad_body ops body), s))
      | _ \<Rightarrow> (Reply 500 (bad_body ops body), s))"

lemma field_or_nil_single [simp]: "field_or_nil k [(k, v)] = v"
  by (simp add: field_or_nil_def gm_get_def)

section \<open>The contracts\<close>

text \<open>
  What the server relies on of \<open>Hirb\<close>, a dictionary: a read returns the stored value or the given
  default, an accepted value is stored under its key, a stored key can be deleted, and deleting
  a key that is not there raises an exception whose text is no JSON object.
\<close>

locale dict_store =
  fixes ops :: "'s hirb_ops"
    and view :: "'s \<Rightarrow> gval \<rightharpoonup> gval"
    and accepts :: "gval \<Rightarrow> bool"
  assumes get_law: "\<exists>s'. h_get ops k s = (Inr (case view s k of None \<Rightarrow> GNil | Some v \<Rightarrow> v), s') \<and> view s' = view s"
    and set_law: "accepts v \<Longrightarrow> \<exists>s'. h_set ops k v s = (Inr (), s') \<and> view s' = (view s)(k \<mapsto> v)"
    and del_law: "view s k \<noteq> None \<Longrightarrow> \<exists>s'. h_del ops k s = (Inr (), s') \<and> view s' = (view s)(k := None)"
    and del_missing: "view s k = None \<Longrightarrow>
      \<exists>e s'. h_del ops k s = (Inl e, s') \<and> decode_map e = None \<and> view s' = view s"

text \<open>
  What the multi-map relies on of the HIRB client: \<open>Get\<close> answers with the value of the key, or nil,
  and changes nothing; \<open>Set\<close> stores a value it can.
\<close>

locale index_map =
  fixes hget :: "string \<Rightarrow> 'w \<Rightarrow> (client_error + gval) \<times> 'w"
    and hset :: "string \<Rightarrow> gval \<Rightarrow> 'w \<Rightarrow> (client_error + unit) \<times> 'w"
    and ids :: "'w \<Rightarrow> string \<rightharpoonup> gval"
    and ok :: "'w \<Rightarrow> bool"
    and storable :: "gval \<Rightarrow> bool"
  assumes hget_law: "ok w \<Longrightarrow> \<exists>w'. hget k w = (Inr (case ids w k of None \<Rightarrow> GNil | Some v \<Rightarrow> v), w') \<and>
      ok w' \<and> ids w' = ids w"
    and hset_law: "ok w \<Longrightarrow> storable v \<Longrightarrow> \<exists>w'. hset k v w = (Inr (), w') \<and> ok w' \<and> ids w' = (ids w)(k \<mapsto> v)"

section \<open>The client on the server\<close>

definition hirb_request :: "string \<Rightarrow> string \<Rightarrow> gval \<Rightarrow> (string, gval) gmap" where
  "hirb_request op key val =
     [(''key'', GStr key), (''op'', GStr op)] @ (if val \<noteq> GNil then [(''val'', val)] else [])"

lemma key_order: "''key'' < ''op''" "''op'' < ''val''" "''key'' < ''val''"
  by code_simp+

lemma unmarshal_hirb_body:
  assumes "gval_ok val"
  shows "unmarshal (hirb_body op key val) = Some (GObj (hirb_request op key val))"
proof -
  let ?v = "GObj ([(''op'', GStr op), (''key'', GStr key)] @ (if val \<noteq> GNil then [(''val'', val)] else []))"
  have "by_keys ?v = GObj (hirb_request op key val)"
    using key_order assms by (auto simp: hirb_request_def by_keys_id)
  moreover have "gval_ok (GObj (hirb_request op key val))"
    using key_order assms by (simp add: hirb_request_def)
  ultimately show ?thesis
    unfolding hirb_body_def using unmarshal_by_keys [of ?v] by simp
qed

lemma hirb_request_fields:
  "gm_get (hirb_request op key val) ''op'' = Some (GStr op)"
  "gm_get (hirb_request op key val) ''key'' = Some (GStr key)"
  "field_or_nil ''val'' (hirb_request op key val) = val"
  by (simp_all add: hirb_request_def gm_get_def field_or_nil_def)

lemma reply_result:
  "gval_ok v \<Longrightarrow> decode_map (py_dumps (GObj [(''result'', v)])) = Some [(''result'', v)]"
  by (simp add: decode_map_def decode_dumps)

context dict_store
begin

definition stored_ok :: "'s \<Rightarrow> bool" where
  "stored_ok s \<longleftrightarrow> (\<forall>k v. view s k = Some v \<longrightarrow> gval_ok v)"

lemma stored_ok_cong: "view s' = view s \<Longrightarrow> stored_ok s \<Longrightarrow> stored_ok s'"
  by (simp add: stored_ok_def)

lemma Get_law:
  assumes "stored_ok s"
  shows "\<exists>s'. hirb_Get (do_POST ops) k s = (Inr (case view s (GStr k) of None \<Rightarrow> GNil | Some v \<Rightarrow> v), s') \<and>
    stored_ok s' \<and> view s' = view s"
proof -
  define v where "v = (case view s (GStr k) of None \<Rightarrow> GNil | Some v \<Rightarrow> v)"
  from get_law [where s = s and k = "GStr k"] obtain s' where s':
      "h_get ops (GStr k) s = (Inr v, s')" "view s' = view s"
    by (auto simp: v_def)
  have "gval_ok v"
    using assms by (auto simp: v_def stored_ok_def split: option.split)
  then have "hirb_Get (do_POST ops) k s = (Inr v, s')"
    using s'(1)
    by (simp add: hirb_Get_def sendHIRBRequest_def do_POST_def unmarshal_hirb_body hirb_request_fields
        reply_result)
  with s'(2) stored_ok_cong [OF s'(2) assms] show ?thesis by (simp add: v_def)
qed

lemma Set_law:
  assumes "stored_ok s" and "accepts v" and "gval_ok v"
  shows "\<exists>s'. hirb_Set (do_POST ops) k v s = (Inr (), s') \<and> stored_ok s' \<and>
    view s' = (view s)(GStr k \<mapsto> v)"
proof -
  from set_law [OF assms(2), where s = s and k = "GStr k"] obtain s' where s':
      "h_set ops (GStr k) v s = (Inr (), s')" "view s' = (view s)(GStr k \<mapsto> v)"
    by blast
  then have "hirb_Set (do_POST ops) k v s = (Inr (), s')"
    using assms(3)
    by (simp add: hirb_Set_def sendHIRBRequest_def do_POST_def unmarshal_hirb_body hirb_request_fields
        reply_result)
  moreover have "stored_ok s'" using assms(1,3) s'(2) by (simp add: stored_ok_def)
  ultimately show ?thesis using s'(2) by blast
qed

lemma Delete_law:
  assumes "stored_ok s"
  shows "\<exists>s'. hirb_Delete (do_POST ops) k s =
      (if view s (GStr k) = None then Inl DecodeFailed else Inr (), s') \<and> stored_ok s' \<and>
    view s' = (view s)(GStr k := None)"
proof (cases "view s (GStr k) = None")
  case True
  from del_missing [OF True] obtain e s' where s':
      "h_del ops (GStr k) s = (Inl e, s')" "decode_map e = None" "view s' = view s"
    by blast
  then have "hirb_Delete (do_POST ops) k s = (Inl DecodeFailed, s')"
    by (simp add: hirb_Delete_def sendHIRBRequest_def do_POST_def unmarshal_hirb_body hirb_request_fields)
  moreover have "view s' = (view s)(GStr k := None)" using s'(3) True by (simp add: fun_upd_idem)
  ultimately show ?thesis using True stored_ok_cong [OF s'(3) assms] by simp
next
  case False
  from del_law [OF False] obtain s' where s': "h_del ops (GStr k) s = (Inr (), s')"
      "view s' = (view s)(GStr k := None)"
    by blast
  then have "hirb_Delete (do_POST ops) k s = (Inr (), s')"
    by (simp add: hirb_Delete_def sendHIRBRequest_def do_POST_def unmarshal_hirb_body hirb_request_fields
        reply_result)
  moreover have "stored_ok s'" using assms s'(2) by (simp add: stored_ok_def)
  ultimately show ?thesis using s'(2) False by simp
qed

end

sublocale dict_store \<subseteq> index_map "hirb_Get (do_POST ops)" "hirb_Set (do_POST ops)"
  "\<lambda>s k. view s (GStr k)" stored_ok "\<lambda>v. accepts v \<and> gval_ok v"
proof unfold_locales
  show "stored_ok w \<Longrightarrow> \<exists>w'. hirb_Get (do_POST ops) k w =
      (Inr (case view w (GStr k) of None \<Rightarrow> GNil | Some v \<Rightarrow> v), w') \<and>
      stored_ok w' \<and> (\<lambda>k. view w' (GStr k)) = (\<lambda>k. view w (GStr k))" for w k
    using Get_law [of w k] by auto
  show "stored_ok w \<Longrightarrow> accepts v \<and> gval_ok v \<Longrightarrow> \<exists>w'. hirb_Set (do_POST ops) k v w = (Inr (), w') \<and>
      stored_ok w' \<and> (\<lambda>k. view w' (GStr k)) = (\<lambda>k. view w (GStr k))(k \<mapsto> v)" for w k v
    using Set_law [of w v k] by (auto simp: fun_eq_iff)
qed

text \<open>A dictionary in place of the HIRB.\<close>

definition dict_ops :: "(gval, gval) gmap hirb_ops" where
  "dict_ops =
     \<lparr>h_get = \<lambda>k d. (Inr (case gm_get d k of None \<Rightarrow> GNil | Some v \<Rightarrow> v), d),
      h_set = \<lambda>k v d. (Inr (), gm_set k v d),
      h_del = \<lambda>k d. (if gm_get d k = None then Inl ''KeyError'' else Inr (), gm_del k d),
      bad_body = \<lambda>_. ''bad request''\<rparr>"

interpretation dict: dict_store dict_ops gm_get "\<lambda>_. True"
proof unfold_locales
  show "\<exists>s'. h_get dict_ops k s = (Inr (case gm_get s k of None \<Rightarrow> GNil | Some v \<Rightarrow> v), s') \<and> gm_get s' = gm_get s" for s k
    by (simp add: dict_ops_def)
  show "\<exists>s'. h_set dict_ops k v s = (Inr (), s') \<and> gm_get s' = (gm_get s)(k \<mapsto> v)" for k v s
    by (simp add: dict_ops_def gm_get_set fun_eq_iff)
  show "gm_get s k \<noteq> None \<Longrightarrow> \<exists>s'. h_del dict_ops k s = (Inr (), s') \<and> gm_get s' = (gm_get s)(k := None)" for s k
    by (simp add: dict_ops_def gm_get_del fun_eq_iff)
  show "gm_get s k = None \<Longrightarrow>
      \<exists>e s'. h_del dict_ops k s = (Inl e, s') \<and> decode_map e = None \<and> gm_get s' = gm_get s" for s k
    by (simp add: dict_ops_def gm_get_del fun_eq_iff decode_map_def decode_def skip_ws_def is_ws_def is_digit_def)
qed

section \<open>Properties of the client and the server together\<close>

datatype hirb_call = HGet string | HSet string gval | HDel string

primrec do_hirb :: "'w transport \<Rightarrow> hirb_call \<Rightarrow> 'w \<Rightarrow> (client_error + gval) \<times> 'w" where
  "do_hirb post (HGet k) w = hirb_Get post k w"
| "do_hirb post (HSet k v) w = map_prod (map_sum id (\<lambda>_. GNil)) id (hirb_Set post k v w)"
| "do_hirb post (HDel k) w = map_prod (map_sum id (\<lambda>_. GNil)) id (hirb_Delete post k w)"

primrec hirb_run :: "'w transport \<Rightarrow> hirb_call list \<Rightarrow> 'w \<Rightarrow> (client_error + gval) list \<times> 'w" where
  "hirb_run post [] w = ([], w)"
| "hirb_run post (c # cs) w =
     (let (r, w1) = do_hirb post c w; (rs, w2) = hirb_run post cs w1 in (r # rs, w2))"

text \<open>The specification: a finite map, whose deletion of a missing key is an error.\<close>

primrec map_call :: "hirb_call \<Rightarrow> (string \<rightharpoonup> gval) \<Rightarrow> (client_error + gval) \<times> (string \<rightharpoonup> gval)" where
  "map_call (HGet k) m = (Inr (case m k of None \<Rightarrow> GNil | Some v \<Rightarrow> v), m)"
| "map_call (HSet k v) m = (Inr GNil, m(k \<mapsto> v))"
| "map_call (HDel k) m = (if m k = None then Inl DecodeFailed else Inr GNil, m(k := None))"

primrec map_run :: "hirb_call list \<Rightarrow> (string \<rightharpoonup> gval) \<Rightarrow> (client_error + gval) list \<times> (string \<rightharpoonup> gval)" where
  "map_run [] m = ([], m)"
| "map_run (c # cs) m = (let (r, m1) = map_call c m; (rs, m2) = map_run cs m1 in (r # rs, m2))"

definition settable :: "(gval \<Rightarrow> bool) \<Rightarrow> hirb_call \<Rightarrow> bool" where
  "settable accepts c = (case c of HSet k v \<Rightarrow> accepts v \<and> gval_ok v | _ \<Rightarrow> True)"

context dict_store
begin

definition by_string :: "'s \<Rightarrow> string \<rightharpoonup> gval" where
  "by_string s = (\<lambda>k. view s (GStr k))"

lemma do_hirb_law:
  assumes "stored_ok s" and "settable accepts c"
  shows "\<exists>s'. do_hirb (do_POST ops) c s = (fst (map_call c (by_string s)), s') \<and> stored_ok s' \<and>
    by_string s' = snd (map_call c (by_string s))"
proof (cases c)
  case (HGet k)
  with Get_law [OF assms(1), of k] show ?thesis by (auto simp: by_string_def)
next
  case (HSet k v)
  with Set_law [OF assms(1), of v k] assms(2) show ?thesis
    by (auto simp: by_string_def settable_def fun_eq_iff)
next
  case (HDel k)
  with Delete_law [OF assms(1), of k] show ?thesis by (auto simp: by_string_def fun_eq_iff)
qed

lemma hirb_run_law:
  "stored_ok s \<Longrightarrow> list_all (settable accepts) cs \<Longrightarrow>
     \<exists>s'. hirb_run (do_POST ops) cs s = (fst (map_run cs (by_string s)), s') \<and> stored_ok s' \<and>
       by_string s' = snd (map_run cs (by_string s))"
proof (induction cs arbitrary: s)
  case (Cons c cs)
  from do_hirb_law [OF Cons.prems(1), of c] Cons.prems(2) obtain s1 where s1:
      "do_hirb (do_POST ops) c s = (fst (map_call c (by_string s)), s1)" "stored_ok s1"
      "by_string s1 = snd (map_call c (by_string s))"
    by auto
  from Cons.IH [OF s1(2)] Cons.prems(2) s1 show ?case by (auto simp: split_beta Let_def)
qed auto

end

text \<open>C16: The HIRB client and its HTTP server together implement a finite map from names to JSON
  values over any store that is a dictionary: every sequence of \<open>Get\<close>, \<open>Set\<close> and \<open>Delete\<close> on a
  fresh store gets the answers of the map, through the JSON texts of requests and replies;
  \<open>Get\<close> of a missing key is nil and no error, \<open>Delete\<close> of one is a decoding error.\<close>

theorem hirb_refines_map:
  assumes "dict_store ops view accepts" and "list_all (settable accepts) cs" and "view s = Map.empty"
  shows "fst (hirb_run (do_POST ops) cs s) = fst (map_run cs Map.empty)"
proof -
  note law = dict_store.hirb_run_law [OF assms(1) _ assms(2), of s]
  have "dict_store.stored_ok view s" using assms(3) by (simp add: dict_store.stored_ok_def [OF assms(1)])
  from law [OF this] show ?thesis
    using assms(3) by (auto simp: dict_store.by_string_def [OF assms(1)])
qed

theorem hirb_refines_map_witness:
  "fst (hirb_run (do_POST dict_ops)
      [HSet ''k'' (GNum 7), HGet ''k'', HDel ''k'', HGet ''k'', HDel ''k''] []) =
   [Inr GNil, Inr (GNum 7), Inr GNil, Inr GNil, Inl DecodeFailed]"
proof -
  have "gm_get [] = Map.empty" by (rule ext) simp
  with hirb_refines_map [OF dict.dict_store_axioms, where s = "[]"
      and cs = "[HSet ''k'' (GNum 7), HGet ''k'', HDel ''k'', HGet ''k'', HDel ''k'']"]
  show ?thesis by (simp add: settable_def)
qed

section \<open>The self-test of the HIRB\<close>

text \<open>A printed line: a value after its heading, or an error after it.\<close>

datatype test_line = Shown string gval | Failed string client_error

definition on_error :: "string \<Rightarrow> client_error + 'a \<Rightarrow> test_line list" where
  "on_error heading r = (case r of Inl e \<Rightarrow> [Failed heading e] | Inr v \<Rightarrow> [])"

definition on_value :: "string \<Rightarrow> string \<Rightarrow> client_error + gval \<Rightarrow> test_line list" where
  "on_value failed shown r = (case r of Inl e \<Rightarrow> [Failed failed e] | Inr v \<Rightarrow> [Shown shown v])"

text \<open>\<open>testHIRB\<close> of \<open>secure.go\<close>, with the headings of its eight tests left out.\<close>

definition testHIRB :: "'w transport \<Rightarrow> 'w \<Rightarrow> test_line list \<times> 'w" where
  "testHIRB post w0 =
     (let keyOne = ''English''; keyTwo = ''French'';
          valOne = GStr ''Hello, World!''; valTwo = GStr ''Bonjour, Monde!'';
          (r1, w1) = hirb_Set post keyOne valOne w0;
          (r2, w2) = hirb_Get post keyOne w1;
          (r3, w3) = hirb_Delete post keyOne w2;
          (r4, w4) = hirb_Get post keyOne w3;
          (r5, w5) = hirb_Set post keyTwo valTwo w4;
          (r6, w6) = hirb_Set post keyOne valOne w5;
          (r7, w7) = hirb_Get post keyOne w6;
          (r8, w8) = hirb_Get post keyTwo w7
      in (on_error ''HIRB Set failed'' r1 @ on_value ''HIRB Get failed'' ''HIRB Retrieved value'' r2 @
          on_error ''HIRB Delete failed'' r3 @ on_value ''HIRB Delete succeeded'' ''HIRB Delete failed'' r4 @
          on_error ''HIRB Set failed'' r5 @ on_error ''HIRB Set failed'' r6 @
          on_value ''HIRB Get failed'' ''HIRB Retrieved value'' r7 @
          on_value ''HIRB Get failed'' ''HIRB Retrieved value'' r8, w8))"

text \<open>C17: Against a working server over any dictionary that accepts texts the self-test retrieves what
  it wrote, but reports \<open>HIRB Delete failed\<close> although the deletion worked: it expects an error
  from the read of a deleted key, and the client answers such a read with nil.\<close>

theorem testHIRB_output:
  assumes "dict_store ops view accepts" and "\<And>t. accepts (GStr t)" and "view s = Map.empty"
  shows "fst (testHIRB (do_POST ops) s) =
    [Shown ''HIRB Retrieved value'' (GStr ''Hello, World!''), Shown ''HIRB Delete failed'' GNil,
     Shown ''HIRB Retrieved value'' (GStr ''Hello, World!''),
     Shown ''HIRB Retrieved value'' (GStr ''Bonjour, Monde!'')]"
proof -
  note D = assms(1)
  note G = dict_store.Get_law [OF D] and S = dict_store.Set_law [OF D _ assms(2)]
  let ?e = "''English''" and ?f = "''French''" and ?h = "GStr ''Hello, World!''" and ?b = "GStr ''Bonjour, Monde!''"
  have 0: "dict_store.stored_ok view s" using assms(3) by (simp add: dict_store.stored_ok_def [OF D])
  obtain s1 where 1: "hirb_Set (do_POST ops) ?e ?h s = (Inr (), s1)" "dict_store.stored_ok view s1"
      "view s1 = [GStr ?e \<mapsto> ?h]"
    using S [OF 0, of _ ?e] assms(3) by fastforce
  obtain s2 where 2: "hirb_Get (do_POST ops) ?e s1 = (Inr ?h, s2)" "dict_store.stored_ok view s2"
      "view s2 = [GStr ?e \<mapsto> ?h]"
    using G [OF 1(2), of ?e] 1(3) by fastforce
  obtain s3 where 3: "hirb_Delete (do_POST ops) ?e s2 = (Inr (), s3)" "dict_store.stored_ok view s3"
      "view s3 = Map.empty"
    using dict_store.Delete_law [OF D 2(2), of ?e] 2(3) by fastforce
  obtain s4 where 4: "hirb_Get (do_POST ops) ?e s3 = (Inr GNil, s4)" "dict_store.stored_ok view s4"
      "view s4 = Map.empty"
    using G [OF 3(2), of ?e] 3(3) by fastforce
  obtain s5 where 5: "hirb_Set (do_POST ops) ?f ?b s4 = (Inr (), s5)" "dict_store.stored_ok view s5"
      "view s5 = [GStr ?f \<mapsto> ?b]"
    using S [OF 4(2), of _ ?f] 4(3) by fastforce
  obtain s6 where 6: "hirb_Set (do_POST ops) ?e ?h s5 = (Inr (), s6)" "dict_store.stored_ok view s6"
      "view s6 = [GStr ?f \<mapsto> ?b, GStr ?e \<mapsto> ?h]"
    using S [OF 5(2), of _ ?e] 5(3) by fastforce
  obtain s7 where 7: "hirb_Get (do_POST ops) ?e s6 = (Inr ?h, s7)" "dict_store.stored_ok view s7"
      "view s7 = view s6"
    using G [OF 6(2), of ?e] 6(3) by fastforce
  obtain s8 where 8: "hirb_Get (do_POST ops) ?f s7 = (Inr ?b, s8)"
    using G [OF 7(2), of ?f] 6(3) 7(3) by fastforce
  show ?thesis
    by (simp add: testHIRB_def Let_def 1(1) 2(1) 3(1) 4(1) 5(1) 6(1) 7(1) 8 on_error_def on_value_def)
qed

theorem testHIRB_output_witness:
  "fst (testHIRB (do_POST dict_ops) []) =
    [Shown ''HIRB Retrieved value'' (GStr ''Hello, World!''), Shown ''HIRB Delete failed'' GNil,
     Shown ''HIRB Retrieved value'' (GStr ''Hello, World!''),
     Shown ''HIRB Retrieved value'' (GStr ''Bonjour, Monde!'')]"
  by (rule testHIRB_output [OF dict.dict_store_axioms]) (simp_all add: fun_eq_iff)

end
