(* ===== verification/EMM_Server.thy ===== *)
theory EMM_Server
  imports HIRB_Store Path_ORAM GCM
begin

text \<open>
  The server of the encrypted multi-map (\<open>libs/emm/EMM_server.go\<close>) and its HTTP client
  (\<open>libs/emm/EMM_client.go\<close>). The server finds the index of a key in the HIRB (or gives it the
  next one), and keeps the value as AES-GCM ciphertext of its JSON text in the block of that
  index in the ORAM. It reads a block back up to its first zero byte.

  Parameters are the HIRB client's two operations \<open>hget\<close> and \<open>hset\<close> on a world \<open>'w\<close>, and, per
  request, the record \<open>emm_env\<close>: the block cipher, what \<open>rand.Read\<close> delivers, the bytes behind
  the ORAM's buffers, and the text of a HIRB error. A fault is a Go panic or undefined C.
\<close>

section \<open>Keys, encryption, decryption\<close>

datatype emm_error =
    BadKeySize
  | RandFailed
  | ShortCiphertext
  | OpenFailed
  | HirbSetFailed client_error

text \<open>\<open>loadOrGenerateKey\<close>: the key file if it holds 32 bytes, else a new key, which is written to the
  file; \<open>Inl\<close> is the exit of \<open>log.Fatalf\<close>.\<close>

definition loadOrGenerateKey ::
  "byte list option \<Rightarrow> byte list option \<Rightarrow> bool \<Rightarrow> string + byte list \<times> byte list option" where
  "loadOrGenerateKey keyFile newKey canWrite =
     (case keyFile of
        Some data \<Rightarrow>
          if length data = 32 then Inr (data, keyFile)
          else (case newKey of
            None \<Rightarrow> Inl ''ERROR 0''
          | Some k \<Rightarrow> if canWrite then Inr (k, Some k) else Inl ''ERROR 1'')
      | None \<Rightarrow> (case newKey of
            None \<Rightarrow> Inl ''ERROR 0''
          | Some k \<Rightarrow> if canWrite then Inr (k, Some k) else Inl ''ERROR 1''))"

definition aes_key_size :: "byte list \<Rightarrow> bool" where
  "aes_key_size key \<longleftrightarrow> length key = 16 \<or> length key = 24 \<or> length key = 32"

definition encrypt ::
  "block_cipher \<Rightarrow> byte list \<Rightarrow> byte list option \<Rightarrow> byte list \<Rightarrow> emm_error + byte list" where
  "encrypt E symKey rnd val =
     (if \<not> aes_key_size symKey then Inl BadKeySize
      else (case rnd of
        None \<Rightarrow> Inl RandFailed
      | Some nonce \<Rightarrow> Inr (gcm_seal E symKey nonce nonce val)))"

definition decrypt :: "block_cipher \<Rightarrow> byte list \<Rightarrow> byte list \<Rightarrow> emm_error + byte list" where
  "decrypt E symKey ciphertext =
     (if \<not> aes_key_size symKey then Inl BadKeySize
      else if length ciphertext < nonce_size then Inl ShortCiphertext
      else (case gcm_open E symKey (take nonce_size ciphertext) (drop nonce_size ciphertext) of
        None \<Rightarrow> Inl OpenFailed
      | Some plain \<Rightarrow> Inr plain))"

section \<open>The server's state\<close>

record emm_state =
  oramStore :: "ORAM option"
  symKey :: "byte list"
  idCounter :: "64 word"

definition blockSize :: "32 word" where "blockSize = 256"

definition logCapacity :: "32 word" where "logCapacity = 6"

definition zBuckets :: "32 word" where "zBuckets = 4"

text \<open>The globals before \<open>InitServer\<close>.\<close>

definition emm_globals :: emm_state where
  "emm_globals = \<lparr>oramStore = None, symKey = [], idCounter = 1\<rparr>"

datatype start_error = Fatal string | InitFault fault

definition InitServer ::
  "byte list option \<Rightarrow> byte list option \<Rightarrow> bool \<Rightarrow> emm_state \<Rightarrow> start_error + emm_state \<times> byte list option" where
  "InitServer keyFile newKey canWrite st =
     (case loadOrGenerateKey keyFile newKey canWrite of
        Inl m \<Rightarrow> Inl (Fatal m)
      | Inr (k, file) \<Rightarrow> (case ORAM_Init logCapacity blockSize zBuckets of
          Inl f \<Rightarrow> Inl (InitFault f)
        | Inr orm \<Rightarrow> Inr (st\<lparr>symKey := k, oramStore := Some orm\<rparr>, file)))"

definition ShutdownServer :: "emm_state \<Rightarrow> emm_state" where
  "ShutdownServer st = st\<lparr>oramStore := map_option ORAM_Destruct (oramStore st)\<rparr>"

section \<open>Indices\<close>

type_synonym 'w hirb_get = "string \<Rightarrow> 'w \<Rightarrow> (client_error + gval) \<times> 'w"
type_synonym 'w hirb_set = "string \<Rightarrow> gval \<Rightarrow> 'w \<Rightarrow> (client_error + unit) \<times> 'w"

text \<open>The conversion \<open>uint64(idFloat)\<close>, of integers that fit.\<close>

definition uint64_of :: "int \<Rightarrow> 64 word" where
  "uint64_of n = word_of_int n"

definition getOrCreateIndex ::
  "'w hirb_get \<Rightarrow> 'w hirb_set \<Rightarrow> string \<Rightarrow> emm_state \<Rightarrow> 'w \<Rightarrow> (emm_error + 64 word) \<times> emm_state \<times> 'w" where
  "getOrCreateIndex hget hset key st w =
     (case hget key w of
        (Inr (GNum n), w1) \<Rightarrow> (Inr (uint64_of n), st, w1)
      | (_, w1) \<Rightarrow>
          (let newID = idCounter st; st1 = st\<lparr>idCounter := idCounter st + 1\<rparr> in
           case hset key (GNum (uint newID)) w1 of
             (Inl e, w2) \<Rightarrow> (Inl (HirbSetFailed e), st1, w2)
           | (Inr _, w2) \<Rightarrow> (Inr newID, st1, w2)))"

section \<open>Requests\<close>

record emm_request =
  rq_op :: string
  rq_key :: string
  rq_val :: gval

text \<open>
  \<open>json.Unmarshal\<close> into the struct: the members of the object in order, each to the field of its
  name, whatever the case of its letters; null leaves a string alone.
\<close>

definition object_members :: "string \<Rightarrow> (string \<times> gval) list option" where
  "object_members s = (case skip_ws s of
     [] \<Rightarrow> None
   | c # t \<Rightarrow>
       if c = CHR ''{'' then
         (case skip_ws t of
            [] \<Rightarrow> None
          | d # r \<Rightarrow>
              if d = CHR ''}'' then (if skip_ws r = [] then Some [] else None)
              else (case parse_members (length s) (d # r) of
                Some (kvs, r') \<Rightarrow> (if skip_ws r' = [] then Some kvs else None)
              | None \<Rightarrow> None))
       else (if unmarshal s = Some GNil then Some [] else None))"

definition set_field :: "string \<times> gval \<Rightarrow> emm_request \<Rightarrow> emm_request option" where
  "set_field m r =
     (let name = to_lower (fst m); v = snd m in
      if name = ''op'' then
        (case v of GStr s \<Rightarrow> Some (r\<lparr>rq_op := s\<rparr>) | GNil \<Rightarrow> Some r | _ \<Rightarrow> None)
      else if name = ''key'' then
        (case v of GStr s \<Rightarrow> Some (r\<lparr>rq_key := s\<rparr>) | GNil \<Rightarrow> Some r | _ \<Rightarrow> None)
      else if name = ''val'' then Some (r\<lparr>rq_val := v\<rparr>)
      else Some r)"

primrec set_fields :: "(string \<times> gval) list \<Rightarrow> emm_request \<Rightarrow> emm_request option" where
  "set_fields [] r = Some r"
| "set_fields (m # ms) r = Option.bind (set_field m r) (set_fields ms)"

definition decode_request :: "string \<Rightarrow> emm_request option" where
  "decode_request body =
     Option.bind (object_members body)
       (\<lambda>ms. set_fields ms \<lparr>rq_op = '''', rq_key = '''', rq_val = GNil\<rparr>)"

text \<open>\<open>http.Error\<close>, and the encoded \<open>Response\<close> with its newline.\<close>

definition http_error :: "string \<Rightarrow> int \<Rightarrow> http_reply" where
  "http_error msg status = Reply status (msg @ [CHR 0x0A])"

definition encode_response :: "gval \<Rightarrow> http_reply" where
  "encode_response v = Reply 200 (marshal (GObj [(''result'', v)]) @ [CHR 0x0A])"

section \<open>The handler\<close>

record emm_env =
  aes :: block_cipher
  rnd :: "byte list option"
  mem_behind :: "nat \<Rightarrow> byte"
  err_text :: "emm_error \<Rightarrow> string"

text \<open>The bytes up to the first zero, decrypted and decoded: the value a block is read as.\<close>

definition cut_zero :: "byte list \<Rightarrow> byte list" where
  "cut_zero bs = (let e = index_byte bs 0 in take (nat (if e = -1 then int (length bs) else e)) bs)"

definition read_block :: "block_cipher \<Rightarrow> byte list \<Rightarrow> byte list \<Rightarrow> gval" where
  "read_block E key ciphertext =
     (case decrypt E key (cut_zero ciphertext) of
        Inl e \<Rightarrow> GNil
      | Inr plaintext \<Rightarrow> (case unmarshal (string_of plaintext) of None \<Rightarrow> GNil | Some v \<Rightarrow> v))"

text \<open>The part after the index is known: the operation's effect on the ORAM, and the reply.\<close>

definition emm_op ::
  "emm_env \<Rightarrow> emm_request \<Rightarrow> 64 word \<Rightarrow> emm_state \<Rightarrow> fault + http_reply \<times> emm_state" where
  "emm_op E req idx st =
     (if rq_op req = ''set'' then
        (case encrypt (aes E) (symKey st) (rnd E) (bytes_of (marshal (rq_val req))) of
           Inl e \<Rightarrow> Inr (http_error ''Encryption failed'' 500, st)
         | Inr ciphertext \<Rightarrow> (case oramStore st of
             None \<Rightarrow> Inl GoPanic
           | Some orm \<Rightarrow> map_sum id (\<lambda>orm'. (encode_response (GStr ''ok''), st\<lparr>oramStore := Some orm'\<rparr>))
               (ORAM_Set (mem_behind E) orm idx ciphertext)))
      else if rq_op req = ''get'' then
        (case oramStore st of
           None \<Rightarrow> Inl GoPanic
         | Some orm \<Rightarrow> map_sum id
             (\<lambda>bs. (encode_response (read_block (aes E) (symKey st) (case bs of None \<Rightarrow> [] | Some b \<Rightarrow> b)), st))
             (ORAM_Get (mem_behind E) orm idx (uint blockSize)))
      else if rq_op req = ''del'' then
        (case oramStore st of
           None \<Rightarrow> Inl GoPanic
         | Some orm \<Rightarrow> map_sum id (\<lambda>orm'. (encode_response (GStr ''deleted''), st\<lparr>oramStore := Some orm'\<rparr>))
             (ORAM_Delete (mem_behind E) orm idx blockSize))
      else Inr (http_error ''Unsupported operation'' 400, st))"

definition HandleEMMRequest ::
  "'w hirb_get \<Rightarrow> 'w hirb_set \<Rightarrow> emm_env \<Rightarrow> string option \<Rightarrow> emm_state \<Rightarrow> 'w
     \<Rightarrow> fault + http_reply \<times> emm_state \<times> 'w" where
  "HandleEMMRequest hget hset E body st w =
     (case Option.bind body decode_request of
        None \<Rightarrow> Inr (http_error ''Invalid request'' 400, st, w)
      | Some req \<Rightarrow>
          (case getOrCreateIndex hget hset (rq_key req) st w of
             (Inl e, st1, w1) \<Rightarrow> Inr (http_error (''HIRB failure: '' @ err_text E e) 500, st1, w1)
           | (Inr idx, st1, w1) \<Rightarrow>
               map_sum id (\<lambda>(r, st2). (r, st2, w1)) (emm_op E req idx st1)))"

section \<open>The client\<close>

text \<open>\<open>omitempty\<close> leaves out a nil value.\<close>

definition emm_body :: "string \<Rightarrow> string \<Rightarrow> gval \<Rightarrow> string" where
  "emm_body op key val =
     text_of json_esc '','' '':''
       (GObj ([(''op'', GStr op), (''key'', GStr key)] @ (if val \<noteq> GNil then [(''val'', by_keys val)] else [])))"

text \<open>Decoding into \<open>Response\<close>: the member of the field's name, whatever its case.\<close>

definition decode_response :: "string \<Rightarrow> gval option" where
  "decode_response body = (case decode body of
     Some (GObj m) \<Rightarrow> Some (foldl (\<lambda>r (k, v). if to_lower k = ''result'' then v else r) GNil m)
   | Some GNil \<Rightarrow> Some GNil
   | _ \<Rightarrow> None)"

definition sendEMMRequest ::
  "'w transport \<Rightarrow> string \<Rightarrow> string \<Rightarrow> gval \<Rightarrow> 'w \<Rightarrow> (client_error + gval) \<times> 'w" where
  "sendEMMRequest post op key val w =
     (case post (emm_body op key val) w of
        (NoReply, w') \<Rightarrow> (Inl PostFailed, w')
      | (Reply status body, w') \<Rightarrow>
          if status < 200 \<or> 300 \<le> status then (Inl (StatusError status body), w')
          else (case decode_response body of
            None \<Rightarrow> (Inl DecodeFailed, w')
          | Some v \<Rightarrow> (Inr v, w')))"

definition emm_Get :: "'w transport \<Rightarrow> string \<Rightarrow> 'w \<Rightarrow> (client_error + gval) \<times> 'w" where
  "emm_Get post key w = sendEMMRequest post ''get'' key GNil w"

definition emm_Set :: "'w transport \<Rightarrow> string \<Rightarrow> gval \<Rightarrow> 'w \<Rightarrow> (client_error + unit) \<times> 'w" where
  "emm_Set post key val w = map_prod (map_sum id (\<lambda>_. ())) id (sendEMMRequest post ''set'' key val w)"

definition emm_Delete :: "'w transport \<Rightarrow> string \<Rightarrow> 'w \<Rightarrow> (client_error + unit) \<times> 'w" where
  "emm_Delete post key w = map_prod (map_sum id (\<lambda>_. ())) id (sendEMMRequest post ''del'' key GNil w)"

end
