(* ===== verification/EMM_Laws.thy ===== *)
theory EMM_Laws
  imports EMM_Server
begin

text \<open>
  The lemmas on the parts of the encrypted multi-map's server: requests are decoded as they were
  sent, the HIRB gives every key its own index, and a block is read back as the value written to
  it when its ciphertext has no zero byte and a zero follows it.
\<close>

section \<open>The texts of requests and replies\<close>

lemma to_lower_names [simp]:
  "to_lower ''op'' = ''op''" "to_lower ''key'' = ''key''" "to_lower ''val'' = ''val''"
  "to_lower ''result'' = ''result''"
  by code_simp+

lemma object_members_text:
  assumes "members_ok kvs" and "kvs \<noteq> []"
  shows "object_members (text_of json_esc '','' '':'' (GObj kvs)) = Some kvs"
proof -
  let ?t = "sep_with '','' (members_of json_esc '','' '':'' kvs)"
  have p: "length ?t < n \<Longrightarrow> parse_members n (?t @ ''}'') = Some (kvs, [])" for n
    using parse_text(3) [OF esc_ok_go refl _ refl, of "[]" "[]" kvs n "[]"] assms by simp
  obtain k v rest where "kvs = (k, v) # rest" using assms(2) by (cases kvs) auto
  then obtain t' where t': "?t = quote # t'"
    by (cases "members_of json_esc '','' '':'' rest") (auto simp: json_string_def)
  show ?thesis
    using p [of "length (text_of json_esc '','' '':'' (GObj kvs))"]
    by (simp add: object_members_def skip_ws_Cons t' del: parse_members.simps) (simp add: skip_ws_def)
qed

definition request_of :: "string \<Rightarrow> string \<Rightarrow> gval \<Rightarrow> emm_request" where
  "request_of op key val = \<lparr>rq_op = op, rq_key = key, rq_val = by_keys val\<rparr>"

lemma by_keys_nil_iff [simp]: "by_keys v = GNil \<longleftrightarrow> v = GNil"
  by (cases v) simp_all

lemma decode_emm_body:
  assumes "gval_ok (by_keys val)"
  shows "decode_request (emm_body op key val) = Some (request_of op key val)"
proof -
  have "members_ok ([(''op'', GStr op), (''key'', GStr key)] @ (if val \<noteq> GNil then [(''val'', by_keys val)] else []))"
    using assms by simp
  note object_members_text [OF this]
  then show ?thesis
    by (simp add: decode_request_def emm_body_def request_of_def set_field_def)
qed

lemma decode_encoded:
  assumes "gval_ok (by_keys v)"
  shows "decode_response (marshal (GObj [(''result'', v)]) @ [CHR 0x0A]) = Some (by_keys v)"
proof -
  have "ends_number [CHR 0x0A]" by (simp add: ends_number_def is_digit_def)
  from decode_by_keys [OF _ this, of "GObj [(''result'', v)]"] assms
  have "decode (marshal (GObj [(''result'', v)]) @ [CHR 0x0A]) = Some (GObj [(''result'', by_keys v)])"
    by simp
  then show ?thesis by (simp add: decode_response_def)
qed

section \<open>Blocks\<close>

lemma cut_zero_eq: "cut_zero bs = takeWhile (\<lambda>b. b \<noteq> 0) bs"
proof (cases "0 \<in> set bs")
  case True
  then show ?thesis by (simp add: cut_zero_def index_byte_def Let_def takeWhile_eq_take [symmetric])
next
  case False
  then have all: "takeWhile (\<lambda>b. b \<noteq> 0) bs = bs" by (intro takeWhile_eq_all_conv [THEN iffD2]) auto
  show ?thesis unfolding all using False by (simp add: cut_zero_def index_byte_def)
qed

lemma decrypt_short: "length c < nonce_size + tag_size \<Longrightarrow> \<exists>e. decrypt E key c = Inl e"
  using gcm.open_short [of "drop nonce_size c" E key "take nonce_size c"]
  by (auto simp: decrypt_def)

lemma decrypt_encrypt:
  assumes "aes_key_size key" and "length nonce = nonce_size"
  shows "decrypt E key (gcm_seal E key nonce nonce plain) = Inr plain"
proof -
  have e: "gcm_seal E key nonce nonce plain = nonce @ gcm_seal E key [] nonce plain"
    by (rule gcm_seal_prefix)
  show ?thesis
    unfolding e using assms by (simp add: decrypt_def gcm_open_seal)
qed

text \<open>A short block part, in particular an all-zero block, reads as nil.\<close>

lemma read_block_short: "length (cut_zero bs) < nonce_size + tag_size \<Longrightarrow> read_block E key bs = GNil"
  using decrypt_short [of "cut_zero bs" E key] by (auto simp: read_block_def)

lemma read_block_zeros: "read_block E key (replicate n 0) = GNil"
  by (rule read_block_short) (cases n; simp add: cut_zero_eq nonce_size_def)

text \<open>A ciphertext survives in its block if it fits, has no zero byte and is followed by one.\<close>

definition survives :: "(nat \<Rightarrow> byte) \<Rightarrow> byte list \<Rightarrow> bool" where
  "survives behind ct \<longleftrightarrow> 0 \<notin> set ct \<and> length ct \<le> block_bytes \<and>
     (length ct = block_bytes \<or> length ct mod 4 \<noteq> 0 \<or> behind 0 = 0)"

lemma takeWhile_nonzero_append: "0 \<notin> set xs \<Longrightarrow> takeWhile (\<lambda>b. b \<noteq> 0) (xs @ 0 # ys) = (xs :: byte list)"
  by (induction xs) auto

lemma cut_survives:
  assumes "survives behind ct"
  shows "cut_zero (set_block behind ct) = ct"
proof -
  have nz: "0 \<notin> set ct" and len: "length ct \<le> block_bytes" using assms by (simp_all add: survives_def)
  show ?thesis
  proof (cases "length ct = block_bytes")
    case True
    then have "set_block behind ct = ct" by (simp add: set_block_def memory_at_def pad4_def block_bytes_def)
    with nz show ?thesis by (auto simp: cut_zero_eq takeWhile_eq_all_conv)
  next
    case False
    with len have lt: "length ct < block_bytes" by simp
    have "\<exists>rest. set_block behind ct = ct @ 0 # rest"
    proof (cases "length ct mod 4 = 0")
      case True
      with assms False have b: "behind 0 = 0" by (simp add: survives_def)
      obtain m where m: "block_bytes - length ct = Suc m" using lt by (metis Suc_diff_Suc)
      have "set_block behind ct = ct @ map behind [0..<Suc m]"
        using True lt m by (simp add: set_block_def memory_at_def pad4_def)
      with b show ?thesis by (simp add: upt_conv_Cons del: upt_Suc)
    next
      case False
      have "length ct mod 4 < 4" by simp
      then have "0 < 4 - length ct mod 4" "4 - length ct mod 4 < 4" using False by linarith+
      then obtain p where p: "(4 - length ct mod 4) mod 4 = Suc p" using gr0_implies_Suc by fastforce
      have "take (Suc (length ct)) (set_block behind ct) = take (Suc (length ct)) (pad4 ct)"
        unfolding set_block_def by (rule take_memory_at) (use lt p in \<open>simp_all add: pad4_def\<close>)
      also have "\<dots> = ct @ [0]" by (simp add: pad4_def p)
      finally have "set_block behind ct = (ct @ [0]) @ drop (Suc (length ct)) (set_block behind ct)"
        by (metis append_take_drop_id)
      then show ?thesis by auto
    qed
    then show ?thesis using nz by (auto simp: cut_zero_eq takeWhile_nonzero_append)
  qed
qed

lemma string_bytes_marshal: "unmarshal (string_of (bytes_of (marshal v))) = unmarshal (marshal v)"
  by simp

lemma read_back:
  assumes "aes_key_size key" and "length nonce = nonce_size" and "gval_ok (by_keys v)"
    and "survives behind (gcm_seal A key nonce nonce (bytes_of (marshal v)))"
  shows "read_block A key (set_block behind (gcm_seal A key nonce nonce (bytes_of (marshal v)))) = by_keys v"
  using cut_survives [OF assms(4)] decrypt_encrypt [OF assms(1,2), of A "bytes_of (marshal v)"]
    unmarshal_by_keys [OF assms(3)] by (simp add: read_block_def)

lemma takeWhile_stops:
  assumes "i < length xs" and "xs ! i = (0 :: byte)"
  shows "length (takeWhile (\<lambda>b. b \<noteq> 0) xs) \<le> i"
proof (rule ccontr)
  assume "\<not> length (takeWhile (\<lambda>b. b \<noteq> 0) xs) \<le> i"
  then have l: "i < length (takeWhile (\<lambda>b. b \<noteq> 0) xs)" by simp
  then have "takeWhile (\<lambda>b. b \<noteq> 0) xs ! i \<in> set (takeWhile (\<lambda>b. b \<noteq> 0) xs)" by (rule nth_mem)
  then have "takeWhile (\<lambda>b. b \<noteq> 0) xs ! i \<noteq> 0" by (auto dest: set_takeWhileD)
  with assms(2) takeWhile_nth [OF l] show False by simp
qed

text \<open>A zero in the first 28 bytes, the nonce and what could at most be the tag, destroys it.\<close>

lemma read_lost:
  assumes "0 \<in> set (take (nonce_size + tag_size) ct)" and "length ct \<le> block_bytes"
  shows "read_block A key (set_block behind ct) = GNil"
proof (rule read_block_short)
  let ?n = "nonce_size + tag_size"
  obtain i where i: "i < length ct" "i < ?n" "ct ! i = 0"
    using assms(1) by (auto simp: in_set_conv_nth)
  have "i < block_bytes" using i(1) assms(2) by simp
  have "set_block behind ct ! i = 0"
  proof -
    have "take (length ct) (set_block behind ct) = take (length ct) (pad4 ct)"
      unfolding set_block_def using assms(2) by (intro take_memory_at) (simp_all add: pad4_def)
    then have "take (length ct) (set_block behind ct) = ct" by (simp add: pad4_def)
    with i show ?thesis by (metis nth_take)
  qed
  moreover have "i < length (set_block behind ct)" using \<open>i < block_bytes\<close> by (simp add: set_block_def)
  ultimately have "length (takeWhile (\<lambda>b. b \<noteq> 0) (set_block behind ct)) \<le> i"
    using takeWhile_stops [of i "set_block behind ct"] by simp
  with i(2) show "length (cut_zero (set_block behind ct)) < ?n" by (simp add: cut_zero_eq)
qed

end
