(* ===== verification/EMM_Refine.thy ===== *)
theory EMM_Refine
  imports EMM_Laws
begin

text \<open>
  The server of the encrypted multi-map refines a table: a map from keys to indices, handed out
  in order, and for each of the 64 blocks the value it is read as. The HIRB client is used
  through the contract \<open>id_map\<close> only.
\<close>

section \<open>The contract of the index store\<close>

locale id_map = index_map hget hset ids ok storable
  for hget :: "string \<Rightarrow> 'w \<Rightarrow> (client_error + gval) \<times> 'w"
    and hset :: "string \<Rightarrow> gval \<Rightarrow> 'w \<Rightarrow> (client_error + unit) \<times> 'w"
    and ids :: "'w \<Rightarrow> string \<rightharpoonup> gval"
    and ok :: "'w \<Rightarrow> bool"
    and storable :: "gval \<Rightarrow> bool" +
  assumes storable_id: "0 \<le> n \<Longrightarrow> n \<le> 2 ^ 53 \<Longrightarrow> storable (GNum n)"

interpretation dict_ids: id_map "hirb_Get (do_POST dict_ops)" "hirb_Set (do_POST dict_ops)"
  "\<lambda>s k. gm_get s (GStr k)" dict.stored_ok "\<lambda>v. True \<and> gval_ok v"
  by unfold_locales simp

section \<open>The table\<close>

record emm_table =
  t_ids :: "string \<rightharpoonup> int"
  t_next :: int
  t_val :: "int \<Rightarrow> gval"

definition empty_table :: emm_table where
  "empty_table = \<lparr>t_ids = Map.empty, t_next = 1, t_val = \<lambda>_. GNil\<rparr>"

definition num_slots :: int where "num_slots = 64"

definition table_index :: "string \<Rightarrow> emm_table \<Rightarrow> int \<times> emm_table" where
  "table_index key T = (case t_ids T key of
     Some n \<Rightarrow> (n, T)
   | None \<Rightarrow> (t_next T, T\<lparr>t_ids := (t_ids T)(key \<mapsto> t_next T), t_next := t_next T + 1\<rparr>))"

text \<open>A write to an index beyond the last block is dropped; a read of one gives nil.\<close>

definition table_put :: "int \<Rightarrow> gval \<Rightarrow> emm_table \<Rightarrow> emm_table" where
  "table_put n v T = (if n < num_slots then T\<lparr>t_val := (t_val T)(n := v)\<rparr> else T)"

definition table_get :: "int \<Rightarrow> emm_table \<Rightarrow> gval" where
  "table_get n T = (if n < num_slots then t_val T n else GNil)"

text \<open>What a value is read back as, once sealed and written to a block.\<close>

definition sealed_value :: "byte list \<Rightarrow> emm_env \<Rightarrow> byte list \<Rightarrow> gval \<Rightarrow> gval" where
  "sealed_value key E nonce v = read_block (aes E) key
     (set_block (mem_behind E) (gcm_seal (aes E) key nonce nonce (bytes_of (marshal v))))"

definition table_op :: "byte list \<Rightarrow> emm_env \<Rightarrow> emm_request \<Rightarrow> int \<Rightarrow> emm_table \<Rightarrow> http_reply \<times> emm_table" where
  "table_op key E req n T =
     (if rq_op req = ''set'' then
        (case rnd E of
           None \<Rightarrow> (http_error ''Encryption failed'' 500, T)
         | Some nonce \<Rightarrow> (encode_response (GStr ''ok''), table_put n (sealed_value key E nonce (rq_val req)) T))
      else if rq_op req = ''get'' then (encode_response (table_get n T), T)
      else if rq_op req = ''del'' then (encode_response (GStr ''deleted''), table_put n GNil T)
      else (http_error ''Unsupported operation'' 400, T))"

definition table_request :: "byte list \<Rightarrow> emm_env \<Rightarrow> string option \<Rightarrow> emm_table \<Rightarrow> http_reply \<times> emm_table" where
  "table_request key E body T = (case Option.bind body decode_request of
     None \<Rightarrow> (http_error ''Invalid request'' 400, T)
   | Some req \<Rightarrow> (let (n, T1) = table_index (rq_key req) T in table_op key E req n T1))"

section \<open>The refinement\<close>

lemma slot_of_id:
  assumes "0 \<le> n" and "n < 2 ^ 31"
  shows "slot (uint64_of n) = n"
proof -
  have "take_bit 64 n = n"
    using assms by (simp add: take_bit_int_eq_self)
  then have "(ucast (word_of_int n :: 64 word) :: 32 word) = word_of_int n"
    using assms(1) by (simp add: unsigned_of_int of_nat_nat)
  then have "slot (uint64_of n) = signed_take_bit 31 n"
    by (simp add: slot_def uint64_of_def signed_of_int)
  also have "\<dots> = n"
    using assms by (simp add: signed_take_bit_int_eq_self)
  finally show ?thesis .
qed

lemma delete_block_reads_nil: "read_block A key (delete_block behind blockSize) = GNil"
proof -
  have "delete_block behind blockSize = replicate block_bytes 0"
    by (simp add: delete_block_def blockSize_def int_buffer_def memory_at_def block_bytes_def)
  then show ?thesis by (simp add: read_block_zeros)
qed

text \<open>The ORAM of the server against the values of the table.\<close>

definition blocks_rel :: "block_cipher \<Rightarrow> emm_state \<Rightarrow> emm_table \<Rightarrow> bool" where
  "blocks_rel A st T \<longleftrightarrow> (\<exists>c. oramStore st = Some \<lparr>ptr = Some c\<rparr> \<and> oram_wf (nat num_slots) c \<and>
     (\<forall>i < nat num_slots. read_block A (symKey st) (block_at c i) = t_val T (int i)))"

lemma blocks_rel_put:
  assumes "oramStore st = Some \<lparr>ptr = Some c\<rparr>" and "oram_wf (nat num_slots) c"
    and "\<forall>i < nat num_slots. read_block A (symKey st) (block_at c i) = t_val T (int i)"
    and "0 \<le> n" and "n < num_slots" and "length bs = block_bytes" and "read_block A (symKey st) bs = v"
  shows "blocks_rel A (st\<lparr>oramStore := Some \<lparr>ptr = Some (put_block (nat n) bs c)\<rparr>\<rparr>) (T\<lparr>t_val := (t_val T)(n := v)\<rparr>)"
proof -
  have "nat n < nat num_slots" using assms(4,5) by simp
  then show ?thesis
    using blocks.wr_ok [OF assms(2) _ assms(6), of "nat n"] blocks.rd_wr [OF assms(2), of "nat n"] assms(3,4,7)
    by (auto simp: blocks_rel_def)
qed

text \<open>The three operations of the ORAM on the server's store, at an index of the table.\<close>

lemma store_set:
  assumes rel: "blocks_rel A st T" and n: "0 \<le> n" "n < 2 ^ 31" and ne: "ct \<noteq> []"
  shows "\<exists>orm orm'. oramStore st = Some orm \<and> ORAM_Set b orm (uint64_of n) ct = Inr orm' \<and>
    blocks_rel A (st\<lparr>oramStore := Some orm'\<rparr>) (table_put n (read_block A (symKey st) (set_block b ct)) T)"
proof -
  from rel obtain c where c: "oramStore st = Some \<lparr>ptr = Some c\<rparr>" "oram_wf (nat num_slots) c"
      "\<forall>i < nat num_slots. read_block A (symKey st) (block_at c i) = t_val T (int i)"
    by (auto simp: blocks_rel_def)
  have p: "ptr \<lparr>ptr = Some c\<rparr> = Some c" by simp
  note eq = ORAM_Set_eq [OF p c(2) ne, of b "uint64_of n", unfolded slot_of_id [OF n]]
  show ?thesis
  proof (cases "n < num_slots")
    case True
    with eq n have "ORAM_Set b \<lparr>ptr = Some c\<rparr> (uint64_of n) ct =
        Inr \<lparr>ptr = Some (put_block (nat n) (set_block b ct) c)\<rparr>"
      by (simp add: num_slots_def)
    with c(1) blocks_rel_put [OF c n(1) True, of "set_block b ct", OF _ refl] True show ?thesis
      by (simp add: table_put_def set_block_def)
  next
    case False
    with eq n have "ORAM_Set b \<lparr>ptr = Some c\<rparr> (uint64_of n) ct = Inr \<lparr>ptr = Some c\<rparr>"
      by (simp add: num_slots_def)
    moreover have "blocks_rel A (st\<lparr>oramStore := Some \<lparr>ptr = Some c\<rparr>\<rparr>) T"
      using c by (auto simp: blocks_rel_def)
    ultimately show ?thesis using c(1) False by (simp add: table_put_def)
  qed
qed

lemma store_delete:
  assumes rel: "blocks_rel A st T" and n: "0 \<le> n" "n < 2 ^ 31"
  shows "\<exists>orm orm'. oramStore st = Some orm \<and> ORAM_Delete b orm (uint64_of n) blockSize = Inr orm' \<and>
    blocks_rel A (st\<lparr>oramStore := Some orm'\<rparr>) (table_put n GNil T)"
proof -
  from rel obtain c where c: "oramStore st = Some \<lparr>ptr = Some c\<rparr>" "oram_wf (nat num_slots) c"
      "\<forall>i < nat num_slots. read_block A (symKey st) (block_at c i) = t_val T (int i)"
    by (auto simp: blocks_rel_def)
  have p: "ptr \<lparr>ptr = Some c\<rparr> = Some c" by simp
  note eq = ORAM_Delete_eq [OF p c(2), of b "uint64_of n" blockSize, unfolded slot_of_id [OF n]]
  show ?thesis
  proof (cases "n < num_slots")
    case True
    with eq n have "ORAM_Delete b \<lparr>ptr = Some c\<rparr> (uint64_of n) blockSize =
        Inr \<lparr>ptr = Some (put_block (nat n) (delete_block b blockSize) c)\<rparr>"
      by (simp add: num_slots_def)
    with c(1) blocks_rel_put [OF c n(1) True, of "delete_block b blockSize", OF _ delete_block_reads_nil] True
    show ?thesis by (simp add: table_put_def delete_block_def)
  next
    case False
    with eq n have "ORAM_Delete b \<lparr>ptr = Some c\<rparr> (uint64_of n) blockSize = Inr \<lparr>ptr = Some c\<rparr>"
      by (simp add: num_slots_def)
    moreover have "blocks_rel A (st\<lparr>oramStore := Some \<lparr>ptr = Some c\<rparr>\<rparr>) T"
      using c by (auto simp: blocks_rel_def)
    ultimately show ?thesis using c(1) False by (simp add: table_put_def)
  qed
qed

lemma store_get:
  assumes rel: "blocks_rel A st T" and n: "0 \<le> n" "n < 2 ^ 31"
  shows "\<exists>orm bs. oramStore st = Some orm \<and> ORAM_Get b orm (uint64_of n) (uint blockSize) = Inr (Some bs) \<and>
    read_block A (symKey st) bs = table_get n T"
proof -
  from rel obtain c where c: "oramStore st = Some \<lparr>ptr = Some c\<rparr>" "oram_wf (nat num_slots) c"
      "\<forall>i < nat num_slots. read_block A (symKey st) (block_at c i) = t_val T (int i)"
    by (auto simp: blocks_rel_def)
  have p: "ptr \<lparr>ptr = Some c\<rparr> = Some c" by simp
  have bs: "uint blockSize = int 256" by (simp add: blockSize_def)
  note eq = ORAM_Get_eq [OF p c(2), of 256 b "uint64_of n", unfolded slot_of_id [OF n]]
  show ?thesis
  proof (cases "n < num_slots")
    case True
    then have i: "nat n < nat num_slots" using n by simp
    then have "memory_at (block_at c (nat n)) b 256 = block_at c (nat n)"
      using blocks.rd_length [OF c(2)] by (simp add: memory_at_def block_bytes_def)
    with eq n True have "ORAM_Get b \<lparr>ptr = Some c\<rparr> (uint64_of n) (int 256) = Inr (Some (block_at c (nat n)))"
      by (simp add: num_slots_def)
    with c(1,3) i n True show ?thesis by (simp add: bs table_get_def)
  next
    case False
    with eq n have "ORAM_Get b \<lparr>ptr = Some c\<rparr> (uint64_of n) (int 256) = Inr (Some (replicate 256 0))"
      by (simp add: num_slots_def)
    with c(1) False show ?thesis by (simp add: bs table_get_def read_block_zeros)
  qed
qed

lemma gcm_seal_nonempty: "gcm_seal A key dst nonce msg \<noteq> []"
proof -
  have "gcm_seal A key dst nonce msg = dst @ gcm_seal A key [] nonce msg" by (rule gcm_seal_prefix)
  moreover have "length (gcm_seal A key [] nonce msg) = length msg + tag_size" by (rule gcm.seal_length)
  ultimately show ?thesis by (auto simp: tag_size_def)
qed

lemma emm_op_law:
  assumes rel: "blocks_rel A st T" and key: "aes_key_size (symKey st)" and A: "aes E = A"
    and n: "0 \<le> n" "n < 2 ^ 31"
  shows "\<exists>st'. emm_op E req (uint64_of n) st = Inr (fst (table_op (symKey st) E req n T), st') \<and>
    blocks_rel A st' (snd (table_op (symKey st) E req n T)) \<and> symKey st' = symKey st \<and>
    idCounter st' = idCounter st"
proof -
  consider "rq_op req = ''set''" | "rq_op req = ''get''" | "rq_op req = ''del''"
    | "rq_op req \<noteq> ''set''" "rq_op req \<noteq> ''get''" "rq_op req \<noteq> ''del''" by blast
  then show ?thesis
  proof cases
    case 1
    show ?thesis
    proof (cases "rnd E")
      case None
      with 1 key rel show ?thesis by (simp add: emm_op_def table_op_def encrypt_def)
    next
      case (Some nonce)
      let ?ct = "gcm_seal (aes E) (symKey st) nonce nonce (bytes_of (marshal (rq_val req)))"
      from store_set [OF rel n gcm_seal_nonempty, of "mem_behind E" "aes E" "symKey st" nonce nonce "bytes_of (marshal (rq_val req))"]
      obtain orm orm' where "oramStore st = Some orm" "ORAM_Set (mem_behind E) orm (uint64_of n) ?ct = Inr orm'"
        "blocks_rel A (st\<lparr>oramStore := Some orm'\<rparr>) (table_put n (read_block A (symKey st) (set_block (mem_behind E) ?ct)) T)"
        by blast
      with 1 Some key A show ?thesis by (simp add: emm_op_def table_op_def encrypt_def sealed_value_def)
    qed
  next
    case 2
    from store_get [OF rel n, of "mem_behind E"] obtain orm bs where "oramStore st = Some orm"
        "ORAM_Get (mem_behind E) orm (uint64_of n) (uint blockSize) = Inr (Some bs)"
        "read_block A (symKey st) bs = table_get n T"
      by blast
    with 2 A rel show ?thesis by (simp add: emm_op_def table_op_def)
  next
    case 3
    from store_delete [OF rel n, of "mem_behind E"] obtain orm orm' where "oramStore st = Some orm"
        "ORAM_Delete (mem_behind E) orm (uint64_of n) blockSize = Inr orm'"
        "blocks_rel A (st\<lparr>oramStore := Some orm'\<rparr>) (table_put n GNil T)"
      by blast
    with 3 show ?thesis by (simp add: emm_op_def table_op_def)
  next
    case 4
    with rel show ?thesis by (simp add: emm_op_def table_op_def)
  qed
qed

text \<open>The indices: handed out in order, one per key.\<close>

definition table_ok :: "emm_table \<Rightarrow> bool" where
  "table_ok T \<longleftrightarrow> 1 \<le> t_next T \<and> (\<forall>k n. t_ids T k = Some n \<longrightarrow> 1 \<le> n \<and> n < t_next T) \<and>
     inj_on (t_ids T) (dom (t_ids T))"

definition ids_rel :: "(string \<rightharpoonup> gval) \<Rightarrow> emm_state \<Rightarrow> emm_table \<Rightarrow> bool" where
  "ids_rel m st T \<longleftrightarrow> m = (\<lambda>k. map_option GNum (t_ids T k)) \<and> uint (idCounter st) = t_next T \<and> table_ok T"

lemma table_ok_index:
  assumes "table_ok T" and "table_index key T = (n, T1)"
  shows "table_ok T1" and "1 \<le> n" and "n \<le> t_next T" and "t_ids T1 key = Some n"
    and "t_next T1 \<le> t_next T + 1" and "t_val T1 = t_val T"
proof -
  have fresh: "t_ids T y \<noteq> Some (t_next T)" for y
    using assms(1) by (auto simp: table_ok_def)
  have "inj_on ((t_ids T)(key \<mapsto> t_next T)) (insert key (dom (t_ids T)))" if "t_ids T key = None"
  proof (rule inj_onI)
    fix x y
    assume "x \<in> insert key (dom (t_ids T))" "y \<in> insert key (dom (t_ids T))"
      "((t_ids T)(key \<mapsto> t_next T)) x = ((t_ids T)(key \<mapsto> t_next T)) y"
    then show "x = y"
      using assms(1) that fresh [of x] fresh [of y] by (auto simp: table_ok_def inj_on_def split: if_splits)
  qed
  note inj = this
  have low: "1 \<le> t_next T" using assms(1) by (simp add: table_ok_def)
  have bound: "1 \<le> m \<and> m < t_next T" if "t_ids T k = Some m" for k m
    using assms(1) that by (simp add: table_ok_def)
  have "table_ok T1 \<and> 1 \<le> n \<and> n \<le> t_next T \<and> t_ids T1 key = Some n \<and> t_next T1 \<le> t_next T + 1 \<and>
    t_val T1 = t_val T"
  proof (cases "t_ids T key")
    case None
    with assms(2) have e: "n = t_next T" "T1 = T\<lparr>t_ids := (t_ids T)(key \<mapsto> t_next T), t_next := t_next T + 1\<rparr>"
      by (auto simp: table_index_def)
    have "1 \<le> m \<and> m < t_next T + 1" if "((t_ids T)(key \<mapsto> t_next T)) k = Some m" for k m
    proof (cases "k = key")
      case True
      with that low show ?thesis using assms(1) by (simp add: table_ok_def)
    next
      case False
      with that bound [of k m] show ?thesis by simp
    qed
    moreover have "dom ((t_ids T)(key \<mapsto> t_next T)) = insert key (dom (t_ids T))" by auto
    ultimately have "table_ok T1"
      unfolding table_ok_def using assms(1) inj [OF None] by (simp add: e table_ok_def)
    with assms(1) show ?thesis by (simp add: e table_ok_def)
  next
    case (Some m)
    with assms bound [OF Some] show ?thesis by (simp add: table_index_def)
  qed
  then show "table_ok T1" and "1 \<le> n" and "n \<le> t_next T" and "t_ids T1 key = Some n"
    and "t_next T1 \<le> t_next T + 1" and "t_val T1 = t_val T"
    by simp_all
qed

lemma table_put_other [simp]:
  "t_ids (table_put n v T) = t_ids T" "t_next (table_put n v T) = t_next T"
  by (simp_all add: table_put_def)

lemma table_op_other [simp]:
  "t_ids (snd (table_op key E req n T)) = t_ids T" "t_next (snd (table_op key E req n T)) = t_next T"
  by (simp_all add: table_op_def split: option.split)

context id_map
begin

lemma index_law:
  assumes "ok w" and "ids_rel (ids w) st T" and "t_next T < 2 ^ 31" and idx: "table_index key T = (n, T1)"
  shows "\<exists>st1 w1. getOrCreateIndex hget hset key st w = (Inr (uint64_of n), st1, w1) \<and> ok w1 \<and>
    ids_rel (ids w1) st1 T1 \<and> oramStore st1 = oramStore st \<and> symKey st1 = symKey st"
proof -
  from assms(2) have m: "ids w = (\<lambda>k. map_option GNum (t_ids T k))" and c: "uint (idCounter st) = t_next T"
    and T: "table_ok T" by (simp_all add: ids_rel_def)
  note tok = table_ok_index [OF T idx]
  from hget_law [OF assms(1), of key] obtain w1 where w1:
      "hget key w = (Inr (case ids w key of None \<Rightarrow> GNil | Some v \<Rightarrow> v), w1)" "ok w1" "ids w1 = ids w"
    by blast
  show ?thesis
  proof (cases "t_ids T key")
    case (Some n')
    with idx have "n' = n" "T1 = T" by (simp_all add: table_index_def)
    with Some w1 m assms(2) show ?thesis by (simp add: getOrCreateIndex_def)
  next
    case None
    with idx have n: "n = t_next T" "T1 = T\<lparr>t_ids := (t_ids T)(key \<mapsto> t_next T), t_next := t_next T + 1\<rparr>"
      by (auto simp: table_index_def)
    have "storable (GNum (t_next T))" using T assms(3) by (intro storable_id) (simp_all add: table_ok_def)
    from hset_law [OF w1(2) this, of key] obtain w2 where w2: "hset key (GNum (t_next T)) w1 = (Inr (), w2)"
        "ok w2" "ids w2 = (ids w1)(key \<mapsto> GNum (t_next T))"
      by blast
    have id: "uint64_of (t_next T) = idCounter st"
      using c by (metis uint64_of_def word_of_int_uint)
    have "uint (idCounter st + 1) = t_next T + 1"
      using c assms(3) T by (simp add: uint_word_ariths table_ok_def mod_pos_pos_trivial)
    moreover have "ids w2 = (\<lambda>k. map_option GNum (t_ids T1 k))"
      using w2(3) w1(3) m n(2) by (auto simp: fun_eq_iff)
    ultimately show ?thesis
      using w1 None m w2 c n id tok(1)
      by (simp add: getOrCreateIndex_def Let_def ids_rel_def)
  qed
qed

lemma handle_law:
  assumes "ok w" and "ids_rel (ids w) st T" and "t_next T < 2 ^ 31"
    and "blocks_rel A st T" and "aes_key_size (symKey st)" and "aes E = A"
  shows "\<exists>st' w'. HandleEMMRequest hget hset E body st w =
      Inr (fst (table_request (symKey st) E body T), st', w') \<and>
    ok w' \<and> ids_rel (ids w') st' (snd (table_request (symKey st) E body T)) \<and>
    blocks_rel A st' (snd (table_request (symKey st) E body T)) \<and> symKey st' = symKey st \<and>
    t_next (snd (table_request (symKey st) E body T)) \<le> t_next T + 1"
proof (cases "Option.bind body decode_request")
  case None
  with assms show ?thesis by (simp add: HandleEMMRequest_def table_request_def)
next
  case (Some req)
  obtain n T1 where idx: "table_index (rq_key req) T = (n, T1)" by force
  from index_law [OF assms(1-3) idx] obtain st1 w1 where 1:
      "getOrCreateIndex hget hset (rq_key req) st w = (Inr (uint64_of n), st1, w1)" "ok w1"
      "ids_rel (ids w1) st1 T1" "oramStore st1 = oramStore st" "symKey st1 = symKey st"
    by blast
  have T: "table_ok T" using assms(2) by (simp add: ids_rel_def)
  note tok = table_ok_index [OF T idx]
  have "blocks_rel A st1 T1" using assms(4) 1(4,5) tok(6) by (simp add: blocks_rel_def)
  moreover have "aes_key_size (symKey st1)" using assms(5) 1(5) by simp
  moreover have "0 \<le> n" "n < 2 ^ 31" using tok(2,3) assms(3) by simp_all
  ultimately obtain st2 where 2:
      "emm_op E req (uint64_of n) st1 = Inr (fst (table_op (symKey st1) E req n T1), st2)"
      "blocks_rel A st2 (snd (table_op (symKey st1) E req n T1))" "symKey st2 = symKey st1"
      "idCounter st2 = idCounter st1"
    using emm_op_law [of A st1 T1 E n req] assms(6) by blast
  have "ids_rel (ids w1) st2 (snd (table_op (symKey st1) E req n T1))"
    using 1(3) 2(4) by (simp add: ids_rel_def table_ok_def)
  with Some idx 1 2 tok(5) show ?thesis
    by (simp add: HandleEMMRequest_def table_request_def)
qed

end

end
