(* ===== verification/EMM_Runs.thy ===== *)
theory EMM_Runs
  imports EMM_Refine
begin

text \<open>
  Runs of the encrypted multi-map: the server over a sequence of requests, and the client of
  \<open>EMM_client.go\<close> calling it. The runs follow the table of \<open>EMM_Refine\<close>; from the table come the
  round trip of a value, what is lost, and what a restart of the server does.
\<close>

section \<open>The server over a sequence of requests\<close>

type_synonym emm_input = "emm_env \<times> string option"

primrec emm_run ::
  "'w hirb_get \<Rightarrow> 'w hirb_set \<Rightarrow> emm_input list \<Rightarrow> emm_state \<Rightarrow> 'w \<Rightarrow> fault + http_reply list \<times> emm_state \<times> 'w" where
  "emm_run hget hset [] st w = Inr ([], st, w)"
| "emm_run hget hset (q # qs) st w =
     (case HandleEMMRequest hget hset (fst q) (snd q) st w of
        Inl f \<Rightarrow> Inl f
      | Inr (r, st1, w1) \<Rightarrow> map_sum id (\<lambda>(rs, st2, w2). (r # rs, st2, w2)) (emm_run hget hset qs st1 w1))"

primrec table_run :: "byte list \<Rightarrow> emm_input list \<Rightarrow> emm_table \<Rightarrow> http_reply list \<times> emm_table" where
  "table_run key [] T = ([], T)"
| "table_run key (q # qs) T =
     (let (r, T1) = table_request key (fst q) (snd q) T; (rs, T2) = table_run key qs T1 in (r # rs, T2))"

lemma table_run_append:
  "table_run key (qs @ qs') T =
     (let (rs, T1) = table_run key qs T; (rs', T2) = table_run key qs' T1 in (rs @ rs', T2))"
  by (induction qs arbitrary: T) (simp_all add: Let_def split_beta)

lemma length_table_run [simp]: "length (fst (table_run key qs T)) = length qs"
  by (induction qs arbitrary: T) (simp_all add: Let_def split_beta)

lemma table_run_next: "t_next (snd (table_run key qs T)) \<le> t_next T + int (length qs)"
proof (induction qs arbitrary: T)
  case (Cons q qs)
  have "t_next (snd (table_request key (fst q) (snd q) T)) \<le> t_next T + 1"
    by (simp add: table_request_def table_index_def split_beta split: option.split)
  with Cons.IH [of "snd (table_request key (fst q) (snd q) T)"] show ?case
    by (simp add: Let_def split_beta)
qed simp

context id_map
begin

definition emm_inv :: "block_cipher \<Rightarrow> byte list \<Rightarrow> emm_state \<Rightarrow> 'w \<Rightarrow> emm_table \<Rightarrow> bool" where
  "emm_inv A key st w T \<longleftrightarrow> ok w \<and> ids_rel (ids w) st T \<and> blocks_rel A st T \<and> symKey st = key \<and> aes_key_size key"

lemma handle_inv:
  assumes "emm_inv A key st w T" and "t_next T < 2 ^ 31" and "aes E = A"
  shows "\<exists>st' w'. HandleEMMRequest hget hset E body st w = Inr (fst (table_request key E body T), st', w') \<and>
    emm_inv A key st' w' (snd (table_request key E body T))"
  using handle_law [of w st T A E body] assms by (auto simp: emm_inv_def)

lemma emm_run_law:
  "emm_inv A key st w T \<Longrightarrow> t_next T + int (length qs) \<le> 2 ^ 31 \<Longrightarrow> \<forall>q \<in> set qs. aes (fst q) = A \<Longrightarrow>
     \<exists>st' w'. emm_run hget hset qs st w = Inr (fst (table_run key qs T), st', w') \<and>
       emm_inv A key st' w' (snd (table_run key qs T))"
proof (induction qs arbitrary: st w T)
  case (Cons q qs)
  let ?T = "snd (table_request key (fst q) (snd q) T)"
  from handle_inv [OF Cons.prems(1), of "fst q" "snd q"] Cons.prems(2,3) obtain st1 w1 where 1:
      "HandleEMMRequest hget hset (fst q) (snd q) st w = Inr (fst (table_request key (fst q) (snd q) T), st1, w1)"
      "emm_inv A key st1 w1 ?T"
    by auto
  have "t_next ?T \<le> t_next T + 1" using table_run_next [of key "[q]" T] by (simp add: Let_def split_beta)
  then have "t_next ?T + int (length qs) \<le> 2 ^ 31" using Cons.prems(2) by simp
  from Cons.IH [OF 1(2) this] Cons.prems(3) 1(1) show ?case by (auto simp: Let_def split_beta)
qed simp

end

section \<open>The start of the server\<close>

definition started :: "byte list option \<Rightarrow> byte list option \<Rightarrow> emm_state \<Rightarrow> bool" where
  "started keyFile newKey st \<longleftrightarrow> (\<forall>k. newKey = Some k \<longrightarrow> length k = 32) \<and>
     (\<exists>canWrite kf. InitServer keyFile newKey canWrite emm_globals = Inr (st, kf))"

lemma started_state:
  assumes "started keyFile newKey st"
  shows "aes_key_size (symKey st)" and "idCounter st = 1" and "blocks_rel A st empty_table"
proof -
  from assms obtain canWrite kf where
      "InitServer keyFile newKey canWrite emm_globals = Inr (st, kf)"
    by (auto simp: started_def)
  then obtain k orm where k: "loadOrGenerateKey keyFile newKey canWrite = Inr (k, kf)"
      and orm: "ORAM_Init logCapacity blockSize zBuckets = Inr orm"
      and st: "st = emm_globals\<lparr>symKey := k, oramStore := Some orm\<rparr>"
    by (auto simp: InitServer_def split: sum.splits)
  have "length k = 32"
    using k assms by (auto simp: loadOrGenerateKey_def started_def split: option.splits if_splits)
  then show "aes_key_size (symKey st)" and "idCounter st = 1"
    using st by (simp_all add: aes_key_size_def emm_globals_def)
  have "unat logCapacity < 31" "2 ^ unat logCapacity = nat num_slots"
    by (simp_all add: logCapacity_def num_slots_def)
  with oram_wf_new [of logCapacity blockSize zBuckets] obtain c where c:
      "new_ORAMClass logCapacity blockSize zBuckets = Inr c" "oram_wf (nat num_slots) c"
      "\<forall>i < nat num_slots. block_at c i = replicate block_bytes 0"
    by auto
  then have "orm = \<lparr>ptr = Some c\<rparr>" using orm by (simp add: ORAM_Init_def oram_init_def)
  with c(2,3) st show "blocks_rel A st empty_table"
    by (simp add: blocks_rel_def empty_table_def read_block_zeros)
qed

lemma empty_table_ok: "table_ok empty_table"
  by (simp add: table_ok_def empty_table_def)

context id_map
begin

lemma started_inv:
  assumes "started keyFile newKey st" and "ok w" and "ids w = Map.empty"
  shows "emm_inv A (symKey st) st w empty_table"
  using started_state(1,2) [OF assms(1)] started_state(3) [OF assms(1), of A] assms(2,3) empty_table_ok
  by (simp add: emm_inv_def ids_rel_def) (simp add: empty_table_def)

end

section \<open>The client on the server\<close>

text \<open>
  The world of the client: the server's state, the index store, and what the environment gives
  the successive requests. A fault of the handler leaves the client without a reply.
\<close>

type_synonym 'w emm_world = "emm_state \<times> 'w \<times> (nat \<Rightarrow> emm_env)"

definition emm_post :: "'w hirb_get \<Rightarrow> 'w hirb_set \<Rightarrow> 'w emm_world transport" where
  "emm_post hget hset body world =
     (let (st, w, es) = world in
      case HandleEMMRequest hget hset (es 0) (Some body) st w of
        Inl f \<Rightarrow> (NoReply, (st, w, \<lambda>i. es (Suc i)))
      | Inr (r, st', w') \<Rightarrow> (r, (st', w', \<lambda>i. es (Suc i))))"

datatype emm_call = EGet string | ESet string gval | EDel string

primrec do_emm :: "'w transport \<Rightarrow> emm_call \<Rightarrow> 'w \<Rightarrow> (client_error + gval) \<times> 'w" where
  "do_emm post (EGet k) w = emm_Get post k w"
| "do_emm post (ESet k v) w = map_prod (map_sum id (\<lambda>_. GNil)) id (emm_Set post k v w)"
| "do_emm post (EDel k) w = map_prod (map_sum id (\<lambda>_. GNil)) id (emm_Delete post k w)"

primrec emm_calls :: "'w transport \<Rightarrow> emm_call list \<Rightarrow> 'w \<Rightarrow> (client_error + gval) list \<times> 'w" where
  "emm_calls post [] w = ([], w)"
| "emm_calls post (c # cs) w =
     (let (r, w1) = do_emm post c w; (rs, w2) = emm_calls post cs w1 in (r # rs, w2))"

primrec call_key :: "emm_call \<Rightarrow> string" where
  "call_key (EGet k) = k"
| "call_key (ESet k v) = k"
| "call_key (EDel k) = k"

text \<open>The request a call sends, and what the client makes of the reply to it.\<close>

primrec call_request :: "emm_call \<Rightarrow> emm_request" where
  "call_request (EGet k) = request_of ''get'' k GNil"
| "call_request (ESet k v) = request_of ''set'' k v"
| "call_request (EDel k) = request_of ''del'' k GNil"

definition call_ok :: "emm_call \<Rightarrow> bool" where
  "call_ok c \<longleftrightarrow> (case c of ESet k v \<Rightarrow> gval_ok (by_keys v) | _ \<Rightarrow> True)"

definition answer_of :: "emm_call \<Rightarrow> http_reply \<Rightarrow> client_error + gval" where
  "answer_of c r = fst (do_emm (\<lambda>body w. (r, w)) c ())"

definition table_call :: "byte list \<Rightarrow> emm_env \<Rightarrow> emm_call \<Rightarrow> emm_table \<Rightarrow> (client_error + gval) \<times> emm_table" where
  "table_call key E c T =
     (let (n, T1) = table_index (call_key c) T; (r, T2) = table_op key E (call_request c) n T1
      in (answer_of c r, T2))"

primrec table_calls :: "byte list \<Rightarrow> emm_call list \<Rightarrow> (nat \<Rightarrow> emm_env) \<Rightarrow> emm_table \<Rightarrow> (client_error + gval) list \<times> emm_table" where
  "table_calls key [] es T = ([], T)"
| "table_calls key (c # cs) es T =
     (let (r, T1) = table_call key (es 0) c T; (rs, T2) = table_calls key cs (\<lambda>i. es (Suc i)) T1 in (r # rs, T2))"

lemma call_request_key [simp]: "rq_key (call_request c) = call_key c"
  by (cases c) (simp_all add: request_of_def)

primrec call_body :: "emm_call \<Rightarrow> string" where
  "call_body (EGet k) = emm_body ''get'' k GNil"
| "call_body (ESet k v) = emm_body ''set'' k v"
| "call_body (EDel k) = emm_body ''del'' k GNil"

lemma call_body_request: "call_ok c \<Longrightarrow> decode_request (call_body c) = Some (call_request c)"
  by (cases c) (simp_all add: call_ok_def decode_emm_body)

lemma do_emm_post:
  "post (call_body c) w = (r, w') \<Longrightarrow> do_emm post c w = (answer_of c r, w')"
  by (cases c; cases r)
    (simp_all add: answer_of_def emm_Get_def emm_Set_def emm_Delete_def sendEMMRequest_def split: option.split)

context id_map
begin

lemma do_emm_law:
  assumes "emm_inv A key st w T" and "t_next T < 2 ^ 31" and "aes (es 0) = A" and "call_ok c"
  shows "\<exists>st' w'. do_emm (emm_post hget hset) c (st, w, es) = (fst (table_call key (es 0) c T), (st', w', \<lambda>i. es (Suc i))) \<and>
    emm_inv A key st' w' (snd (table_call key (es 0) c T))"
proof -
  from handle_inv [OF assms(1-3), of "Some (call_body c)"] obtain st' w' where h:
      "HandleEMMRequest hget hset (es 0) (Some (call_body c)) st w =
        Inr (fst (table_request key (es 0) (Some (call_body c)) T), st', w')"
      "emm_inv A key st' w' (snd (table_request key (es 0) (Some (call_body c)) T))"
    by blast
  have "emm_post hget hset (call_body c) (st, w, es) =
      (fst (table_request key (es 0) (Some (call_body c)) T), (st', w', \<lambda>i. es (Suc i)))"
    using h(1) by (simp add: emm_post_def)
  from do_emm_post [of "emm_post hget hset", OF this] h(2) call_body_request [OF assms(4)] show ?thesis
    by (auto simp: table_request_def table_call_def split_beta)
qed

lemma emm_calls_law:
  "emm_inv A key st w T \<Longrightarrow> t_next T + int (length cs) \<le> 2 ^ 31 \<Longrightarrow> \<forall>i. aes (es i) = A \<Longrightarrow> list_all call_ok cs \<Longrightarrow>
     \<exists>st' w' es'. emm_calls (emm_post hget hset) cs (st, w, es) = (fst (table_calls key cs es T), (st', w', es')) \<and>
       emm_inv A key st' w' (snd (table_calls key cs es T))"
proof (induction cs arbitrary: st w T es)
  case (Cons c cs)
  let ?T = "snd (table_call key (es 0) c T)"
  from do_emm_law [OF Cons.prems(1), of es c] Cons.prems(2-4) obtain st1 w1 where 1:
      "do_emm (emm_post hget hset) c (st, w, es) = (fst (table_call key (es 0) c T), (st1, w1, \<lambda>i. es (Suc i)))"
      "emm_inv A key st1 w1 ?T"
    by auto
  have "t_next ?T \<le> t_next T + 1"
    by (simp add: table_call_def table_index_def split_beta split: option.split)
  then have "t_next ?T + int (length cs) \<le> 2 ^ 31" using Cons.prems(2) by simp
  from Cons.IH [OF 1(2) this, of "\<lambda>i. es (Suc i)"] Cons.prems(3,4) 1(1) show ?case
    by (auto simp: Let_def split_beta)
qed simp

end

section \<open>The table over a run of calls\<close>

lemma table_calls_append:
  "table_calls key (cs @ cs') es T =
     (let (rs, T1) = table_calls key cs es T;
          (rs', T2) = table_calls key cs' (\<lambda>i. es (length cs + i)) T1 in (rs @ rs', T2))"
proof (induction cs arbitrary: es T)
  case (Cons c cs)
  show ?case using Cons.IH [of "\<lambda>i. es (Suc i)"] by (simp add: Let_def split_beta)
qed simp

lemma length_table_calls [simp]: "length (fst (table_calls key cs es T)) = length cs"
  by (induction cs arbitrary: es T) (simp_all add: Let_def split_beta)

text \<open>The table counts its keys.\<close>

definition counted :: "emm_table \<Rightarrow> bool" where
  "counted T \<longleftrightarrow> finite (dom (t_ids T)) \<and> t_next T = 1 + int (card (dom (t_ids T)))"

lemma table_index_counted:
  "counted T \<Longrightarrow> counted (snd (table_index k T))"
  "dom (t_ids (snd (table_index k T))) = insert k (dom (t_ids T))"
  by (auto simp: counted_def table_index_def domIff split: option.split)

lemma table_call_ids:
  "t_ids (snd (table_call key E c T)) = t_ids (snd (table_index (call_key c) T))"
  "t_next (snd (table_call key E c T)) = t_next (snd (table_index (call_key c) T))"
  by (simp_all add: table_call_def split_beta)

lemma table_calls_ok:
  "table_ok T \<Longrightarrow> counted T \<Longrightarrow>
     table_ok (snd (table_calls key cs es T)) \<and> counted (snd (table_calls key cs es T)) \<and>
     dom (t_ids (snd (table_calls key cs es T))) = call_key ` set cs \<union> dom (t_ids T)"
proof (induction cs arbitrary: es T)
  case (Cons c cs)
  let ?T = "snd (table_call key (es 0) c T)"
  have "table_ok (snd (table_index (call_key c) T))"
    using table_ok_index(1) [OF Cons.prems(1)] by (metis prod.collapse)
  then have "table_ok ?T" by (simp add: table_ok_def table_call_ids)
  moreover have "counted ?T"
    using table_index_counted(1) [OF Cons.prems(2), of "call_key c"] by (simp add: counted_def table_call_ids)
  moreover have "dom (t_ids ?T) = insert (call_key c) (dom (t_ids T))"
    by (simp add: table_call_ids table_index_counted)
  ultimately show ?case using Cons.IH [of ?T "\<lambda>i. es (Suc i)"] by (auto simp: Let_def split_beta)
qed simp

text \<open>Calls on other keys leave an index and its value alone.\<close>

lemma table_call_frame:
  assumes "table_ok T" and "t_ids T k = Some n" and "call_key c \<noteq> k"
  shows "t_ids (snd (table_call key E c T)) k = Some n" and "t_val (snd (table_call key E c T)) n = t_val T n"
proof -
  obtain m T1 where idx: "table_index (call_key c) T = (m, T1)" by force
  note tok = table_ok_index [OF assms(1) idx]
  have n1: "t_ids T1 k = Some n"
    using idx assms(2,3) by (auto simp: table_index_def split: option.splits)
  then show "t_ids (snd (table_call key E c T)) k = Some n" by (simp add: table_call_ids idx)
  have "inj_on (t_ids T1) (dom (t_ids T1))" using tok(1) by (simp add: table_ok_def)
  then have "m \<noteq> n"
    using tok(4) n1 assms(3) by (metis domI inj_onD)
  then have "t_val (snd (table_op key E (call_request c) m T1)) n = t_val T1 n"
    by (simp add: table_op_def table_put_def split: option.split)
  with tok(6) show "t_val (snd (table_call key E c T)) n = t_val T n"
    by (simp add: table_call_def idx split_beta)
qed

lemma table_calls_frame:
  "table_ok T \<Longrightarrow> counted T \<Longrightarrow> t_ids T k = Some n \<Longrightarrow> k \<notin> call_key ` set cs \<Longrightarrow>
     t_ids (snd (table_calls key cs es T)) k = Some n \<and> t_val (snd (table_calls key cs es T)) n = t_val T n"
proof (induction cs arbitrary: es T)
  case (Cons c cs)
  let ?T = "snd (table_call key (es 0) c T)"
  have "table_ok ?T \<and> counted ?T"
    using table_calls_ok [OF Cons.prems(1,2), of key "[c]" es] by (simp add: Let_def split_beta)
  moreover have "t_ids ?T k = Some n" "t_val ?T n = t_val T n"
    using table_call_frame [OF Cons.prems(1,3), of c key "es 0"] Cons.prems(4) by auto
  ultimately show ?case using Cons.IH [of ?T "\<lambda>i. es (Suc i)"] Cons.prems(4) by (simp add: Let_def split_beta)
qed simp

end
