(* ===== verification/EMM_Demo.thy ===== *)
theory EMM_Demo
  imports EMM_Runs
begin

text \<open>
  A concrete block cipher, nonce and environment, on which the witnesses of the encrypted
  multi-map's properties are evaluated. The cipher maps the zero block to itself, so that the
  hash of GCM vanishes and the sealed bytes can be computed.
\<close>

unbundle bit_operations_syntax

lemma gf_mult_zero: "gf_mult x 0 = 0"
proof -
  have "gf_steps n x 0 0 = 0" for n x by (induction n arbitrary: x) simp_all
  then show ?thesis by (simp add: gf_mult_def)
qed

lemma ghash_zero: "ghash 0 ct = 0"
proof -
  have "foldl (\<lambda>y x. gf_mult (y XOR x) 0) 0 bs = 0" for bs by (induction bs) (simp_all add: gf_mult_zero)
  then show ?thesis unfolding ghash_def .
qed

definition demo_cipher :: block_cipher where
  "demo_cipher k b = (let m = 0x5B5B5B5B5B5B5B5B5B5B5B5B5B5B5B5B in if b = 0 \<or> b = m then b else b XOR m)"

definition demo_nonce :: "byte list" where
  "demo_nonce = [1, 2, 3, 4, 5, 6, 7, 8, 9, 10, 11, 12]"

lemma gcm_seal_demo:
  "gcm_seal demo_cipher k dst demo_nonce msg =
    dst @ ctr_crypt demo_cipher [] demo_nonce msg @ bytes_of_block (demo_cipher [] (counter_block demo_nonce 1))"
proof -
  have 1: "demo_cipher k = demo_cipher []" by (rule ext) (simp add: demo_cipher_def)
  have 0: "demo_cipher k 0 = 0" by (simp add: demo_cipher_def)
  show ?thesis
    by (simp add: gcm_seal_def gcm_tag_def Let_def ghash_zero 0 ctr_crypt_def keystream_def) (simp add: 1)
qed

lemma demo_tag: "bytes_of_block (demo_cipher [] (counter_block demo_nonce 1)) = [90, 89, 88, 95, 94, 93, 92, 83, 82, 81, 80, 87, 91, 91, 91, 90]"
  by code_simp
lemma demo_ct: "ctr_crypt demo_cipher [] demo_nonce (bytes_of (marshal (GStr ''Alice''))) = [120, 24, 52, 54, 61, 56, 126]"
  by code_simp
lemmas demo_sealed = gcm_seal_demo demo_tag demo_ct

lemma demo_nonce_size: "length demo_nonce = nonce_size"
  by (simp add: demo_nonce_def nonce_size_def)

definition demo_emm_env :: emm_env where
  "demo_emm_env = \<lparr>aes = demo_cipher, rnd = Some demo_nonce, mem_behind = \<lambda>_. 0, err_text = \<lambda>_. ''error''\<rparr>"

lemma demo_emm_env_simps [simp]:
  "aes demo_emm_env = demo_cipher" "rnd demo_emm_env = Some demo_nonce" "mem_behind demo_emm_env = (\<lambda>_. 0)"
  by (simp_all add: demo_emm_env_def)

text \<open>A ciphertext that survives.\<close>

lemma demo_survives:
  "survives (\<lambda>_. 0) (gcm_seal demo_cipher k demo_nonce demo_nonce (bytes_of (marshal (GStr ''Alice''))))"
  unfolding demo_sealed by (simp add: survives_def demo_nonce_def block_bytes_def)

lemma demo_ct_seven: "ctr_crypt demo_cipher [] demo_nonce (bytes_of (marshal (GStr ''7''))) = [120, 110, 122]"
  by code_simp

lemma demo_survives_seven:
  "survives (\<lambda>_. 0) (gcm_seal demo_cipher k demo_nonce demo_nonce (bytes_of (marshal (GStr ''7''))))"
  unfolding gcm_seal_demo demo_tag demo_ct_seven by (simp add: survives_def demo_nonce_def block_bytes_def)

text \<open>A server whose key was just generated.\<close>

lemma demo_started: "\<exists>st. started None (Some (replicate 32 7)) st"
proof -
  have "unat logCapacity < 31" by (simp add: logCapacity_def)
  from oram_wf_new [OF this, of blockSize zBuckets] obtain c where
      "new_ORAMClass logCapacity blockSize zBuckets = Inr c"
    by blast
  then have "InitServer None (Some (replicate 32 7)) True emm_globals =
      Inr (emm_globals\<lparr>symKey := replicate 32 7, oramStore := Some \<lparr>ptr = Some c\<rparr>\<rparr>, Some (replicate 32 7))"
    by (simp add: InitServer_def loadOrGenerateKey_def ORAM_Init_def oram_init_def)
  moreover have "\<forall>k. Some (replicate 32 (7::byte)) = Some k \<longrightarrow> length k = 32" by simp
  ultimately show ?thesis unfolding started_def by blast
qed

lemma demo_ids: "gm_get [] (GStr k) = None" "dict.stored_ok []"
  by (simp_all add: dict.stored_ok_def)

abbreviation demo_get :: "(gval, gval) gmap hirb_get" where
  "demo_get \<equiv> hirb_Get (do_POST dict_ops)"

abbreviation demo_set :: "(gval, gval) gmap hirb_set" where
  "demo_set \<equiv> hirb_Set (do_POST dict_ops)"

end
