(* ===== verification/EMM_Properties.thy ===== *)
theory EMM_Properties
  imports EMM_Demo
begin

text \<open>
  The properties of the encrypted multi-map, from a started server and an empty index store: it
  refines the table, a value whose ciphertext survives its block is read back, one that does not
  is lost without an error, and so is every value of a key beyond the 63rd.
\<close>

section \<open>Single calls on the table\<close>

lemma by_keys_twice [simp]: "gval_ok (by_keys v) \<Longrightarrow> by_keys (by_keys v) = by_keys v"
  by (rule by_keys_id)

lemma answer_get: "gval_ok (by_keys v) \<Longrightarrow> answer_of (EGet k) (encode_response v) = Inr (by_keys v)"
  by (simp add: answer_of_def emm_Get_def sendEMMRequest_def encode_response_def decode_encoded)

lemma answer_set [simp]: "answer_of (ESet k v) (encode_response (GStr t)) = Inr GNil"
  by (simp add: answer_of_def emm_Set_def sendEMMRequest_def encode_response_def decode_encoded)

lemma answer_del [simp]: "answer_of (EDel k) (encode_response (GStr t)) = Inr GNil"
  by (simp add: answer_of_def emm_Delete_def sendEMMRequest_def encode_response_def decode_encoded)

lemma table_call_set:
  assumes "rnd E = Some nonce" and "table_index k T = (n, T1)"
  shows "table_call key E (ESet k v) T = (Inr GNil, table_put n (sealed_value key E nonce (by_keys v)) T1)"
  using assms by (simp add: table_call_def table_op_def request_of_def)

lemma table_call_get:
  assumes "t_ids T k = Some n"
  shows "table_call key E (EGet k) T = (answer_of (EGet k) (encode_response (table_get n T)), T)"
  using assms by (simp add: table_call_def table_index_def table_op_def request_of_def)

text \<open>The index a key gets: one more than the number of the keys before it.\<close>

lemma empty_counted: "counted empty_table"
  by (simp add: counted_def empty_table_def)

lemma index_after:
  assumes "k \<notin> call_key ` set before"
  shows "fst (table_index k (snd (table_calls key before es empty_table))) = 1 + int (card (call_key ` set before))"
    (is "fst (table_index k ?T) = _")
proof -
  have "counted ?T" and "dom (t_ids ?T) = call_key ` set before"
    using table_calls_ok [OF empty_table_ok empty_counted, of key before es] by (simp_all add: empty_table_def)
  with assms show ?thesis by (auto simp: counted_def table_index_def domIff split: option.split)
qed

lemma index_bound:
  assumes "table_index k (snd (table_calls key before es empty_table)) = (n, T1)"
  shows "n \<le> int (card (insert k (call_key ` set before)))"
proof -
  let ?T = "snd (table_calls key before es empty_table)"
  have T: "table_ok ?T" "counted ?T" and d: "dom (t_ids ?T) = call_key ` set before"
    using table_calls_ok [OF empty_table_ok empty_counted, of key before es] by (simp_all add: empty_table_def)
  have "table_ok T1" and "t_ids T1 k = Some n" using table_ok_index [OF T(1) assms] by simp_all
  then have "n < t_next T1" by (simp add: table_ok_def)
  also have "t_next T1 = 1 + int (card (dom (t_ids T1)))"
    using table_index_counted(1) [OF T(2), of k] assms by (simp add: counted_def)
  also have "dom (t_ids T1) = insert k (call_key ` set before)"
    using table_index_counted(2) [of k ?T] assms d by simp
  finally show ?thesis by simp
qed

text \<open>A call \<open>c\<close> that makes the value of its key read as \<open>x\<close>, calls on other keys, and a get.\<close>

definition puts_value :: "byte list \<Rightarrow> emm_env \<Rightarrow> emm_call \<Rightarrow> gval \<Rightarrow> bool" where
  "puts_value key E c x \<longleftrightarrow> (\<forall>T. table_call key E c T =
     (Inr GNil, table_put (fst (table_index (call_key c) T)) x (snd (table_index (call_key c) T))))"

lemma set_puts: "rnd E = Some nonce \<Longrightarrow> puts_value key E (ESet k v) (sealed_value key E nonce (by_keys v))"
  by (simp add: puts_value_def table_call_def table_op_def request_of_def split_beta)

lemma del_puts: "puts_value key E (EDel k) GNil"
  by (simp add: puts_value_def table_call_def table_op_def request_of_def split_beta)

lemma table_put_get:
  assumes "call_key c \<notin> call_key ` set between" and put: "puts_value key (es (length before)) c x"
    and idx: "table_index (call_key c) (snd (table_calls key before es empty_table)) = (n, T1)"
  shows "last (fst (table_calls key (before @ c # between @ [EGet (call_key c)]) es empty_table)) =
      answer_of (EGet (call_key c)) (encode_response (if n < num_slots then x else GNil))"
    and "fst (table_calls key (before @ c # between @ [EGet (call_key c)]) es empty_table) ! length before = Inr GNil"
proof -
  let ?T = "snd (table_calls key before es empty_table)" and ?k = "call_key c"
  let ?T2 = "table_put n x T1" and ?es = "\<lambda>i. es (Suc (length before + i))"
  let ?T3 = "snd (table_calls key between ?es ?T2)"
  have T: "table_ok ?T" "counted ?T"
    using table_calls_ok [OF empty_table_ok empty_counted, of key before es] by simp_all
  note tok = table_ok_index [OF T(1) idx]
  have set: "table_call key (es (length before)) c ?T = (Inr GNil, ?T2)"
    using put idx by (simp add: puts_value_def)
  have "table_ok ?T2" using tok(1) by (simp add: table_ok_def)
  moreover have "counted ?T2"
    using table_index_counted(1) [OF T(2), of ?k] idx by (simp add: counted_def)
  moreover have "t_ids ?T2 ?k = Some n" using tok(4) by simp
  ultimately have 3: "t_ids ?T3 ?k = Some n" "t_val ?T3 n = t_val ?T2 n"
    using table_calls_frame [of ?T2 ?k n between key ?es] assms(1) by simp_all
  have get: "table_get n ?T3 = (if n < num_slots then x else GNil)"
    by (cases "n < num_slots") (use 3(2) in \<open>simp_all add: table_get_def table_put_def\<close>)
  have "fst (table_calls key (before @ c # between @ [EGet ?k]) es empty_table) =
      fst (table_calls key before es empty_table) @ Inr GNil # fst (table_calls key between ?es ?T2) @
      [answer_of (EGet ?k) (encode_response (table_get n ?T3))]"
    by (simp add: table_calls_append Let_def split_beta set table_call_get [OF 3(1)])
  then show "last (fst (table_calls key (before @ c # between @ [EGet ?k]) es empty_table)) =
      answer_of (EGet ?k) (encode_response (if n < num_slots then x else GNil))"
    and "fst (table_calls key (before @ c # between @ [EGet ?k]) es empty_table) ! length before = Inr GNil"
    unfolding get by (simp_all add: nth_append)
qed

text \<open>An index, once given, stays; a key beyond the last block reads nil.\<close>

lemma table_calls_index:
  "t_ids T k = Some n \<Longrightarrow> t_ids (snd (table_calls key cs es T)) k = Some n"
proof (induction cs arbitrary: es T)
  case (Cons c cs)
  have "t_ids (snd (table_call key (es 0) c T)) k = Some n"
    using Cons.prems by (auto simp: table_call_ids table_index_def split: option.split)
  from Cons.IH [OF this] show ?case by (simp add: Let_def split_beta)
qed simp

lemma table_beyond:
  assumes idx: "table_index k (snd (table_calls key before es empty_table)) = (n, T1)" and "num_slots \<le> n"
    and "rnd (es (length before)) = Some nonce"
  shows "fst (table_calls key (before @ ESet k v # later @ [EGet k]) es empty_table) ! length before = Inr GNil"
    and "last (fst (table_calls key (before @ ESet k v # later @ [EGet k]) es empty_table)) = Inr GNil"
proof -
  let ?T = "snd (table_calls key before es empty_table)" and ?es = "\<lambda>i. es (Suc (length before + i))"
  let ?T3 = "snd (table_calls key later ?es T1)"
  have T: "table_ok ?T"
    using table_calls_ok [OF empty_table_ok empty_counted, of key before es] by simp
  have set: "table_call key (es (length before)) (ESet k v) ?T = (Inr GNil, T1)"
    using table_call_set [of "es (length before)" nonce k ?T n T1 key v] assms by (simp add: table_put_def)
  have 3: "t_ids ?T3 k = Some n"
    by (rule table_calls_index) (rule table_ok_index(4) [OF T idx])
  have "fst (table_calls key (before @ ESet k v # later @ [EGet k]) es empty_table) =
      fst (table_calls key before es empty_table) @ Inr GNil # fst (table_calls key later ?es T1) @ [Inr GNil]"
    using assms(2)
    by (simp add: table_calls_append Let_def split_beta set table_call_get [OF 3] table_get_def answer_get)
  then show "fst (table_calls key (before @ ESet k v # later @ [EGet k]) es empty_table) ! length before = Inr GNil"
    and "last (fst (table_calls key (before @ ESet k v # later @ [EGet k]) es empty_table)) = Inr GNil"
    by (simp_all add: nth_append)
qed

context id_map
begin

text \<open>The same on the server.\<close>

lemma emm_put_get_law:
  assumes st: "started kf nk st" and w: "ok w" "ids w = Map.empty" and A: "\<forall>i. aes (es i) = A"
    and calls: "list_all call_ok (before @ c # between)"
    and len: "length before + length between \<le> 2 ^ 31 - 3"
    and k: "call_key c \<notin> call_key ` set between" and put: "puts_value (symKey st) (es (length before)) c x"
    and idx: "table_index (call_key c) (snd (table_calls (symKey st) before es empty_table)) = (n, T1)"
  shows "last (fst (emm_calls (emm_post hget hset) (before @ c # between @ [EGet (call_key c)]) (st, w, es))) =
      answer_of (EGet (call_key c)) (encode_response (if n < num_slots then x else GNil))"
    and "fst (emm_calls (emm_post hget hset) (before @ c # between @ [EGet (call_key c)]) (st, w, es)) ! length before = Inr GNil"
proof -
  let ?cs = "before @ c # between @ [EGet (call_key c)]"
  have len': "t_next empty_table + int (length ?cs) \<le> 2 ^ 31"
    using len by (simp add: empty_table_def)
  have "list_all call_ok ?cs" using calls by (simp add: call_ok_def)
  from emm_calls_law [OF started_inv [OF st w] len' A this]
  have "fst (emm_calls (emm_post hget hset) ?cs (st, w, es)) = fst (table_calls (symKey st) ?cs es empty_table)"
    by auto
  with table_put_get [OF k put idx] show
    "last (fst (emm_calls (emm_post hget hset) ?cs (st, w, es))) =
      answer_of (EGet (call_key c)) (encode_response (if n < num_slots then x else GNil))"
    and "fst (emm_calls (emm_post hget hset) ?cs (st, w, es)) ! length before = Inr GNil"
    by simp_all
qed

text \<open>A key among the first 63 reads the value its ciphertext survives as; a deleted key reads nil.\<close>

lemma emm_set_get_value:
  assumes "started kf nk st" and "ok w" and "ids w = Map.empty" and "\<forall>i. aes (es i) = A"
    and calls: "list_all call_ok (before @ ESet k v # between)" and "length before + length between \<le> 2 ^ 31 - 3"
    and "card (insert k (call_key ` set before)) < 64" and "k \<notin> call_key ` set between"
    and "rnd (es (length before)) = Some nonce" and "length nonce = nonce_size"
    and "survives (mem_behind (es (length before))) (gcm_seal A (symKey st) nonce nonce (bytes_of (marshal (by_keys v))))"
  shows "last (fst (emm_calls (emm_post hget hset) (before @ ESet k v # between @ [EGet k]) (st, w, es))) = Inr (by_keys v)"
    and "fst (emm_calls (emm_post hget hset) (before @ ESet k v # between @ [EGet k]) (st, w, es)) ! length before = Inr GNil"
proof -
  obtain n T1 where idx: "table_index k (snd (table_calls (symKey st) before es empty_table)) = (n, T1)" by force
  have "n < num_slots" using index_bound [OF idx] assms(7) by (simp add: num_slots_def)
  moreover have v: "gval_ok (by_keys v)" using calls by (simp add: call_ok_def)
  moreover have "sealed_value (symKey st) (es (length before)) nonce (by_keys v) = by_keys v"
    using read_back [OF started_state(1) [OF assms(1)] assms(10), of "by_keys v" _ A] v assms(4,11)
    by (simp add: sealed_value_def)
  ultimately show "last (fst (emm_calls (emm_post hget hset) (before @ ESet k v # between @ [EGet k]) (st, w, es))) = Inr (by_keys v)"
    and "fst (emm_calls (emm_post hget hset) (before @ ESet k v # between @ [EGet k]) (st, w, es)) ! length before = Inr GNil"
    using emm_put_get_law [OF assms(1-4) calls assms(6) _ set_puts [OF assms(9)]] idx assms(8)
    by (simp_all add: answer_get)
qed

lemma emm_del_get_value:
  assumes "started kf nk st" and "ok w" and "ids w = Map.empty" and "\<forall>i. aes (es i) = A"
    and "list_all call_ok (before @ EDel k # between)" and "length before + length between \<le> 2 ^ 31 - 3"
    and "k \<notin> call_key ` set between"
  shows "last (fst (emm_calls (emm_post hget hset) (before @ EDel k # between @ [EGet k]) (st, w, es))) = Inr GNil"
proof -
  obtain n T1 where idx: "table_index k (snd (table_calls (symKey st) before es empty_table)) = (n, T1)" by force
  show ?thesis
    using emm_put_get_law(1) [OF assms(1-6) _ del_puts] idx assms(7) by (simp add: answer_get)
qed

end

section \<open>Properties\<close>

text \<open>C18: Over any index store that is a map, the server started on an empty one refines the table:
  every sequence of fewer than 2\<open>^\<close>31 requests, malformed ones, unsupported operations and failing
  random sources included, gets the table's replies, with no fault and no failure of the HIRB.\<close>

theorem emm_refines_table:
  assumes "id_map hget hset ids ok storable" and "ok w" and "ids w = Map.empty"
    and "started keyFile newKey st" and "\<forall>q \<in> set qs. aes (fst q) = A" and "length qs < 2 ^ 31"
  shows "\<exists>st' w'. emm_run hget hset qs st w = Inr (fst (table_run (symKey st) qs empty_table), st', w')"
proof -
  have "t_next empty_table + int (length qs) \<le> 2 ^ 31"
    using assms(6) by (simp add: empty_table_def)
  from id_map.emm_run_law [OF assms(1) id_map.started_inv [OF assms(1,4,2,3)] this assms(5)]
  show ?thesis by blast
qed

theorem emm_refines_table_witness:
  "\<exists>st st' w'. started None (Some (replicate 32 7)) st \<and>
     emm_run demo_get demo_set [(demo_emm_env, Some (emm_body ''set'' ''user'' (GStr ''Alice''))), (demo_emm_env, None)] st [] =
       Inr ([encode_response (GStr ''ok''), http_error ''Invalid request'' 400], st', w')"
proof -
  from demo_started obtain st where st: "started None (Some (replicate 32 7)) st" by blast
  let ?qs = "[(demo_emm_env, Some (emm_body ''set'' ''user'' (GStr ''Alice''))), (demo_emm_env, None)]"
  from emm_refines_table [OF dict_ids.id_map_axioms, of "[]" None "Some (replicate 32 7)" st ?qs demo_cipher] st
  have "\<exists>st' w'. emm_run demo_get demo_set ?qs st [] = Inr (fst (table_run (symKey st) ?qs empty_table), st', w')"
    by (simp add: demo_ids)
  moreover have "fst (table_run (symKey st) ?qs empty_table) =
      [encode_response (GStr ''ok''), http_error ''Invalid request'' 400]"
    by (simp add: table_request_def decode_emm_body request_of_def table_op_def split_beta Let_def)
  ultimately show ?thesis using st by metis
qed

text \<open>C19: Through the client, the server, GCM, the ORAM and the HIRB: a value set under a key is what
  a later get of the key returns (with the members of its objects sorted), after any calls before
  and any calls on other keys between, provided the key is among the first 63, and its ciphertext
  has no zero byte, fits the block and is followed by a zero.\<close>

theorem emm_set_get:
  assumes "id_map hget hset ids ok storable" and "ok w" and "ids w = Map.empty"
    and "started keyFile newKey st" and "\<forall>i. aes (es i) = A"
    and "list_all call_ok (before @ ESet k v # between)" and "length before + length between \<le> 2 ^ 31 - 3"
    and "card (insert k (call_key ` set before)) < 64" and "k \<notin> call_key ` set between"
    and "rnd (es (length before)) = Some nonce" and "length nonce = nonce_size"
    and "survives (mem_behind (es (length before))) (gcm_seal A (symKey st) nonce nonce (bytes_of (marshal (by_keys v))))"
  shows "last (fst (emm_calls (emm_post hget hset) (before @ ESet k v # between @ [EGet k]) (st, w, es))) = Inr (by_keys v)"
  by (rule id_map.emm_set_get_value(1) [OF assms(1,4,2,3,5-12)])

theorem emm_set_get_witness:
  "\<exists>st. started None (Some (replicate 32 7)) st \<and>
     last (fst (emm_calls (emm_post demo_get demo_set)
       [EGet ''host'', ESet ''user'' (GStr ''Alice''), EDel ''host'', EGet ''user''] (st, [], \<lambda>_. demo_emm_env))) =
     Inr (GStr ''Alice'')"
proof -
  from demo_started obtain st where st: "started None (Some (replicate 32 7)) st" by blast
  from emm_set_get [OF dict_ids.id_map_axioms, of "[]" None "Some (replicate 32 7)" st "\<lambda>_. demo_emm_env" demo_cipher
      "[EGet ''host'']" "''user''" "GStr ''Alice''" "[EDel ''host'']" demo_nonce] st
  show ?thesis by (auto simp: demo_ids call_ok_def demo_nonce_size demo_survives)
qed

text \<open>C20: A value is lost without an error when one of the first 28 bytes of its ciphertext, the
  nonce and the start of the sealed text, is zero: the set answers ok, and the get, which cuts
  the block at its first zero byte, answers nil.\<close>

theorem emm_zero_byte_loses:
  assumes "id_map hget hset ids ok storable" and "ok w" and "ids w = Map.empty"
    and "started keyFile newKey st" and "\<forall>i. aes (es i) = A"
    and "list_all call_ok (before @ ESet k v # between)" and "length before + length between \<le> 2 ^ 31 - 3"
    and "k \<notin> call_key ` set between" and "rnd (es (length before)) = Some nonce"
    and "ct = gcm_seal A (symKey st) nonce nonce (bytes_of (marshal (by_keys v)))"
    and "0 \<in> set (take 28 ct)" and "length ct \<le> 256"
  shows "fst (emm_calls (emm_post hget hset) (before @ ESet k v # between @ [EGet k]) (st, w, es)) ! length before = Inr GNil \<and>
    last (fst (emm_calls (emm_post hget hset) (before @ ESet k v # between @ [EGet k]) (st, w, es))) = Inr GNil"
proof -
  obtain n T1 where idx: "table_index k (snd (table_calls (symKey st) before es empty_table)) = (n, T1)" by force
  have "sealed_value (symKey st) (es (length before)) nonce (by_keys v) = GNil"
    using read_lost [of ct A "symKey st"] assms(5,10-12)
    by (simp add: sealed_value_def nonce_size_def tag_size_def block_bytes_def)
  then show ?thesis
    using id_map.emm_put_get_law [OF assms(1,4,2,3,5,6,7) _ set_puts [OF assms(9)]] idx assms(8)
    by (simp add: answer_get)
qed

theorem emm_zero_byte_loses_witness:
  "\<exists>st. started None (Some (replicate 32 7)) st \<and>
     fst (emm_calls (emm_post demo_get demo_set) [ESet ''user'' (GStr ''Alice''), EGet ''user'']
       (st, [], \<lambda>_. demo_emm_env\<lparr>rnd := Some (0 # replicate 11 1)\<rparr>)) = [Inr GNil, Inr GNil]"
proof -
  from demo_started obtain st where st: "started None (Some (replicate 32 7)) st" by blast
  let ?es = "\<lambda>_ :: nat. demo_emm_env\<lparr>rnd := Some (0 # replicate 11 1)\<rparr>" and ?n = "0 # replicate 11 1 :: byte list"
  let ?ct = "gcm_seal demo_cipher (symKey st) ?n ?n (bytes_of (marshal (GStr ''Alice'')))"
  have ct: "?ct = ?n @ gcm_seal demo_cipher (symKey st) [] ?n (bytes_of (marshal (GStr ''Alice'')))"
    by (rule gcm_seal_prefix)
  moreover have "length (gcm_seal demo_cipher (symKey st) [] ?n (bytes_of (marshal (GStr ''Alice'')))) = 23"
    by (simp add: gcm.seal_length tag_size_def marshal_def json_string_def json_esc_def)
  ultimately have "length ?ct \<le> 256" and "0 \<in> set (take 28 ?ct)" by simp_all
  with emm_zero_byte_loses [OF dict_ids.id_map_axioms, of "[]" None "Some (replicate 32 7)" st ?es demo_cipher
      "[]" "''user''" "GStr ''Alice''" "[]" ?n ?ct] st
  show ?thesis by (auto simp: demo_ids call_ok_def Let_def split_beta intro!: exI [of _ st])
qed

text \<open>C21: The store has room for the 63 keys with the indices 1 to 63: once 63 other keys have been
  used, in sets, deletes or mere gets, a set of a further key still answers ok but stores nothing,
  and the key reads nil for ever, whatever is set later.\<close>

theorem emm_beyond_capacity:
  assumes "id_map hget hset ids ok storable" and "ok w" and "ids w = Map.empty"
    and "started keyFile newKey st" and "\<forall>i. aes (es i) = A"
    and "list_all call_ok (before @ ESet k v # later)" and "length before + length later \<le> 2 ^ 31 - 3"
    and "k \<notin> call_key ` set before" and "63 \<le> card (call_key ` set before)"
    and "rnd (es (length before)) = Some nonce"
  shows "fst (emm_calls (emm_post hget hset) (before @ ESet k v # later @ [EGet k]) (st, w, es)) ! length before = Inr GNil \<and>
    last (fst (emm_calls (emm_post hget hset) (before @ ESet k v # later @ [EGet k]) (st, w, es))) = Inr GNil"
proof -
  let ?cs = "before @ ESet k v # later @ [EGet k]"
  obtain n T1 where idx: "table_index k (snd (table_calls (symKey st) before es empty_table)) = (n, T1)" by force
  have n: "num_slots \<le> n"
    using index_after [OF assms(8), of "symKey st" es] idx assms(9) by (simp add: num_slots_def)
  have "list_all call_ok ?cs" using assms(6) by (simp add: call_ok_def)
  moreover have "t_next empty_table + int (length ?cs) \<le> 2 ^ 31"
    using assms(7) by (simp add: empty_table_def)
  ultimately have "fst (emm_calls (emm_post hget hset) ?cs (st, w, es)) = fst (table_calls (symKey st) ?cs es empty_table)"
    using id_map.emm_calls_law [OF assms(1) id_map.started_inv [OF assms(1,4,2,3)] _ assms(5), of ?cs] by auto
  with table_beyond [OF idx n assms(10), of v later]
  show ?thesis by simp
qed

lemma demo_keys: "card (call_key ` set (map (\<lambda>i. EGet (replicate i CHR ''a'')) [0..<63])) = 63"
proof -
  have "inj_on (\<lambda>i. replicate i CHR ''a'') {0..<63}"
    by (rule inj_onI) (metis length_replicate)
  moreover have "call_key ` set (map (\<lambda>i. EGet (replicate i CHR ''a'')) [0..<63]) = (\<lambda>i. replicate i CHR ''a'') ` {0..<63}"
    by (simp only: set_map set_upt image_image call_key.simps)
  ultimately show ?thesis by (simp only: card_image card_atLeastLessThan)
qed

theorem emm_beyond_capacity_witness:
  "\<exists>st. started None (Some (replicate 32 7)) st \<and>
     last (fst (emm_calls (emm_post demo_get demo_set)
       (map (\<lambda>i. EGet (replicate i CHR ''a'')) [0..<63] @ ESet ''user'' (GStr ''Alice'') # [] @ [EGet ''user''])
       (st, [], \<lambda>_. demo_emm_env))) = Inr GNil"
proof -
  from demo_started obtain st where st: "started None (Some (replicate 32 7)) st" by blast
  let ?b = "map (\<lambda>i. EGet (replicate i CHR ''a'')) [0..<63]"
  have "\<forall>i. ''user'' \<noteq> replicate i CHR ''a''"
  proof
    show "''user'' \<noteq> replicate i CHR ''a''" for i by (cases i) simp_all
  qed
  then have "''user'' \<notin> call_key ` set ?b" by auto
  moreover have "list_all call_ok (?b @ ESet ''user'' (GStr ''Alice'') # [])"
    by (simp add: list_all_iff call_ok_def)
  moreover have "63 \<le> card (call_key ` set ?b)" unfolding demo_keys by simp
  ultimately have "last (fst (emm_calls (emm_post demo_get demo_set)
       (?b @ ESet ''user'' (GStr ''Alice'') # [] @ [EGet ''user'']) (st, [], \<lambda>_. demo_emm_env))) = Inr GNil"
    using emm_beyond_capacity [OF dict_ids.id_map_axioms, of "[]" None "Some (replicate 32 7)" st
      "\<lambda>_. demo_emm_env" demo_cipher ?b "''user''" "GStr ''Alice''" "[]" demo_nonce] st
    by (simp add: demo_ids del: map_eq_conv upt_rec upt_rec_numeral)
  with st show ?thesis by blast
qed

text \<open>C22: Whatever the requests, every key keeps an index of its own: from a started server on an empty
  index store no two keys ever share an index, and every index given is at least 1 and less than
  the server's counter.\<close>

theorem emm_indices_unique:
  assumes "id_map hget hset ids ok storable" and "ok w" and "ids w = Map.empty"
    and "started keyFile newKey st" and "\<forall>q \<in> set qs. aes (fst q) = A" and "length qs < 2 ^ 31"
    and "emm_run hget hset qs st w = Inr (rs, st', w')"
  shows "inj_on (ids w') (dom (ids w')) \<and>
    (\<forall>k x. ids w' k = Some x \<longrightarrow> (\<exists>n. x = GNum n \<and> 1 \<le> n \<and> n < uint (idCounter st')))"
proof -
  have "t_next empty_table + int (length qs) \<le> 2 ^ 31"
    using assms(6) by (simp add: empty_table_def)
  from id_map.emm_run_law [OF assms(1) id_map.started_inv [OF assms(1,4,2,3)] this assms(5)] assms(7)
  obtain T where "ids_rel (ids w') st' T" by (auto simp: id_map.emm_inv_def [OF assms(1)])
  then have ids: "ids w' = (\<lambda>k. map_option GNum (t_ids T k))" and T: "table_ok T" "uint (idCounter st') = t_next T"
    by (simp_all add: ids_rel_def)
  from T(1) have inj: "inj_on (t_ids T) (dom (t_ids T))"
    and bound: "1 \<le> n \<and> n < t_next T" if "t_ids T k = Some n" for k n
    using that by (simp_all add: table_ok_def)
  have "inj_on (ids w') (dom (ids w'))"
  proof (rule inj_onI)
    fix x y assume "x \<in> dom (ids w')" "y \<in> dom (ids w')" "ids w' x = ids w' y"
    then show "x = y" using inj by (auto simp: ids inj_on_def domIff)
  qed
  moreover have "\<exists>n. x = GNum n \<and> 1 \<le> n \<and> n < uint (idCounter st')" if "ids w' k = Some x" for k x
    using that bound [of k] by (auto simp: ids T(2))
  ultimately show ?thesis by blast
qed

theorem emm_indices_unique_witness:
  "\<exists>st st' w' rs. started None (Some (replicate 32 7)) st \<and>
     emm_run demo_get demo_set [(demo_emm_env, Some (emm_body ''get'' ''a'' GNil)), (demo_emm_env, Some (emm_body ''get'' ''b'' GNil))]
       st [] = Inr (rs, st', w') \<and>
     inj_on (\<lambda>k. gm_get w' (GStr k)) (dom (\<lambda>k. gm_get w' (GStr k)))"
proof -
  from demo_started obtain st where st: "started None (Some (replicate 32 7)) st" by blast
  let ?qs = "[(demo_emm_env, Some (emm_body ''get'' ''a'' GNil)), (demo_emm_env, Some (emm_body ''get'' ''b'' GNil))]"
  have emm_inv_ok: "dict_ids.emm_inv demo_cipher (symKey st) st [] empty_table"
    by (rule dict_ids.started_inv [OF st]) (simp_all add: demo_ids)
  from dict_ids.emm_run_law [OF emm_inv_ok, of ?qs] obtain rs st' w' where
      r: "emm_run demo_get demo_set ?qs st [] = Inr (rs, st', w')"
    by (auto simp: empty_table_def)
  from emm_indices_unique [OF dict_ids.id_map_axioms, of "[]" None "Some (replicate 32 7)" st ?qs demo_cipher] st r
  have "inj_on (\<lambda>k. gm_get w' (GStr k)) (dom (\<lambda>k. gm_get w' (GStr k)))"
    by (simp add: demo_ids)
  with st r show ?thesis by blast
qed

end
