(* ===== verification/EMM_Restart.thy ===== *)
theory EMM_Restart
  imports EMM_Properties
begin

text \<open>
  The multi-map's server beyond the contract of its index store: its state stays well-typed and it
  never panics, whatever the HIRB answers; and a restart, which starts a new store and a new
  counter beside the old HIRB, gives two keys one index.
\<close>

section \<open>The server against any index store\<close>

definition emm_typed :: "emm_state \<Rightarrow> bool" where
  "emm_typed st \<longleftrightarrow> aes_key_size (symKey st) \<and>
     (\<exists>c. oramStore st = Some \<lparr>ptr = Some c\<rparr> \<and> oram_wf (nat num_slots) c)"

definition typed_result :: "fault + 'r \<times> emm_state \<times> 'w \<Rightarrow> bool" where
  "typed_result r \<longleftrightarrow> (case r of Inl f \<Rightarrow> f = CUndefined | Inr (_, st, _) \<Rightarrow> emm_typed st)"

lemma started_typed: "started kf nk st \<Longrightarrow> emm_typed st"
  using started_state(1,3) [of kf nk st] by (auto simp: emm_typed_def blocks_rel_def)

lemma put_typed:
  assumes "oram_wf (nat num_slots) c" and "aes_key_size (symKey st)" and "length bs = block_bytes"
    and "\<not> num_slots \<le> slot i" and "0 \<le> slot i"
  shows "emm_typed (st\<lparr>oramStore := Some \<lparr>ptr = Some (put_block (nat (slot i)) bs c)\<rparr>\<rparr>)"
proof -
  have "nat (slot i) < nat num_slots" using assms(4,5) by simp
  then show ?thesis using blocks.wr_ok [OF assms(1) _ assms(3)] assms(2) by (simp add: emm_typed_def)
qed

lemma emm_op_typed:
  assumes "emm_typed st"
  shows "typed_result (map_sum id (\<lambda>(r, st'). (r, st', ())) (emm_op E req i st))"
proof -
  from assms obtain c where c: "oramStore st = Some \<lparr>ptr = Some c\<rparr>" "oram_wf (nat num_slots) c"
      "aes_key_size (symKey st)"
    by (auto simp: emm_typed_def)
  have p: "ptr \<lparr>ptr = Some c\<rparr> = Some c" and bs: "uint blockSize = int 256" and len: "0 < (256::nat)"
    by (simp_all add: blockSize_def)
  have same: "emm_typed (st\<lparr>oramStore := Some \<lparr>ptr = Some c\<rparr>\<rparr>)" using c(2,3) by (simp add: emm_typed_def)
  have n: "0 \<le> num_slots" by (simp add: num_slots_def)
  have set: "length (set_block b ct) = block_bytes" and del: "length (delete_block b n) = block_bytes" for b ct n
    by (simp_all add: set_block_def delete_block_def)
  show ?thesis
    unfolding emm_op_def bs c(1) option.case
      ORAM_Delete_eq [OF p c(2)] ORAM_Get_eq [OF p c(2) len]
    using assms c set del same
    by (auto simp: typed_result_def encrypt_def ORAM_Set_eq [OF p c(2) gcm_seal_nonempty] n put_typed split: option.split)
qed

lemma index_typed:
  "getOrCreateIndex hget hset k st w = (r, st1, w1) \<Longrightarrow> symKey st1 = symKey st \<and> oramStore st1 = oramStore st"
  by (auto simp: getOrCreateIndex_def Let_def split: prod.splits sum.splits gval.splits)

lemma handle_typed:
  assumes "emm_typed st"
  shows "typed_result (HandleEMMRequest hget hset E body st w)"
proof (cases "Option.bind body decode_request")
  case None
  with assms show ?thesis by (simp add: HandleEMMRequest_def typed_result_def)
next
  case (Some req)
  obtain r st1 w1 where i: "getOrCreateIndex hget hset (rq_key req) st w = (r, st1, w1)" by (metis prod_cases3)
  with assms have st1: "emm_typed st1" using index_typed [OF i] by (simp add: emm_typed_def)
  show ?thesis
  proof (cases r)
    case (Inl e)
    with Some i st1 show ?thesis by (simp add: HandleEMMRequest_def typed_result_def)
  next
    case (Inr n)
    with Some i emm_op_typed [OF st1, of E req n] show ?thesis
      by (cases "emm_op E req n st1") (auto simp: HandleEMMRequest_def typed_result_def)
  qed
qed

text \<open>C23: Against any index store at all, failing and misbehaving ones included, a started server keeps
  its key of an AES size and its 64 blocks of 256 bytes, answers every request, and never panics:
  the only fault it can have is the ORAM's undefined access at a negative index.\<close>

theorem emm_stays_typed:
  assumes "started keyFile newKey st"
  shows "case emm_run hget hset qs st w of
      Inl f \<Rightarrow> f = CUndefined
    | Inr (rs, st', w') \<Rightarrow> length rs = length qs \<and> emm_typed st'"
proof -
  have "emm_typed st \<Longrightarrow> case emm_run hget hset qs st w of
      Inl f \<Rightarrow> f = CUndefined | Inr (rs, st', w') \<Rightarrow> length rs = length qs \<and> emm_typed st'"
  proof (induction qs arbitrary: st w)
    case (Cons q qs)
    show ?case
    proof (cases "HandleEMMRequest hget hset (fst q) (snd q) st w")
      case (Inl f)
      with handle_typed [OF Cons.prems, of hget hset "fst q" "snd q" w] show ?thesis
        by (simp add: typed_result_def)
    next
      case (Inr x)
      obtain r st1 w1 where x: "x = (r, st1, w1)" by (metis prod_cases3)
      with Inr handle_typed [OF Cons.prems, of hget hset "fst q" "snd q" w] have "emm_typed st1"
        by (simp add: typed_result_def)
      from Cons.IH [OF this, of w1] Inr x show ?thesis
        by (cases "emm_run hget hset qs st1 w1") auto
    qed
  qed simp
  then show ?thesis using started_typed [OF assms] by blast
qed

theorem emm_stays_typed_witness:
  "\<exists>st. started None (Some (replicate 32 7)) st \<and>
    (case emm_run (\<lambda>k w. (Inr (GNum (- 1)), w)) (\<lambda>k v w. (Inl PostFailed, w)) [(demo_emm_env, Some (emm_body ''get'' ''a'' GNil))] st () of
      Inl f \<Rightarrow> f = CUndefined | Inr (rs, st', w') \<Rightarrow> length rs = 1 \<and> emm_typed st')"
proof -
  from demo_started obtain st where st: "started None (Some (replicate 32 7)) st" by blast
  from emm_stays_typed [OF st, where hget = "\<lambda>k w. (Inr (GNum (- 1)), w)" and hset = "\<lambda>k v w. (Inl PostFailed, w)"
      and qs = "[(demo_emm_env, Some (emm_body ''get'' ''a'' GNil))]" and w = "()"] st
  show ?thesis by (auto split: sum.splits)
qed

section \<open>Restarting the server\<close>

context id_map
begin

lemma old_index:
  assumes "ok w" and "ids w k = Some (GNum n)"
  shows "\<exists>w1. getOrCreateIndex hget hset k st w = (Inr (uint64_of n), st, w1) \<and> ok w1 \<and> ids w1 = ids w"
  using hget_law [OF assms(1), of k] assms(2) by (auto simp: getOrCreateIndex_def)

lemma first_index:
  assumes "ok w" and "ids w k = None" and "idCounter st = 1"
  shows "\<exists>w2. getOrCreateIndex hget hset k st w = (Inr (uint64_of 1), st\<lparr>idCounter := 2\<rparr>, w2) \<and> ok w2 \<and>
    ids w2 = (ids w)(k \<mapsto> GNum 1)"
proof -
  from hget_law [OF assms(1), of k] assms(2) obtain w1 where 1: "hget k w = (Inr GNil, w1)" "ok w1" "ids w1 = ids w"
    by auto
  have "storable (GNum 1)" by (rule storable_id) simp_all
  from hset_law [OF 1(2) this, of k] 1 assms(3) show ?thesis
    by (auto simp: getOrCreateIndex_def Let_def uint64_of_def)
qed

text \<open>A call on a key with index 1, old or new, acts on the value of that index.\<close>

lemma call_on_first:
  assumes idx: "getOrCreateIndex hget hset (call_key c) st w = (Inr (uint64_of 1), st1, w1)"
    and rel: "blocks_rel A st1 T" and key: "aes_key_size (symKey st1)" and A: "aes (es 0) = A" and c: "call_ok c"
  shows "\<exists>st2. do_emm (emm_post hget hset) c (st, w, es) =
      (answer_of c (fst (table_op (symKey st1) (es 0) (call_request c) 1 T)), (st2, w1, \<lambda>i. es (Suc i))) \<and>
    blocks_rel A st2 (snd (table_op (symKey st1) (es 0) (call_request c) 1 T)) \<and> symKey st2 = symKey st1"
proof -
  from emm_op_law [OF rel key A, of 1 "call_request c"] obtain st2 where 2:
      "emm_op (es 0) (call_request c) (uint64_of 1) st1 =
        Inr (fst (table_op (symKey st1) (es 0) (call_request c) 1 T), st2)"
      "blocks_rel A st2 (snd (table_op (symKey st1) (es 0) (call_request c) 1 T))" "symKey st2 = symKey st1"
    by auto
  then have "emm_post hget hset (call_body c) (st, w, es) =
      (fst (table_op (symKey st1) (es 0) (call_request c) 1 T), (st2, w1, \<lambda>i. es (Suc i)))"
    using idx call_body_request [OF c] by (simp add: emm_post_def HandleEMMRequest_def)
  from do_emm_post [of "emm_post hget hset", OF this] 2 show ?thesis by blast
qed

lemma restart_law:
  assumes w: "ok w" "ids w k1 = Some (GNum 1)" "ids w k2 = None" and st: "started kf nk st"
    and A: "\<forall>i. aes (es i) = A" and v: "gval_ok (by_keys v)"
    and rnd: "rnd (es 0) = Some nonce" "length nonce = nonce_size"
    and ct: "survives (mem_behind (es 0)) (gcm_seal A (symKey st) nonce nonce (bytes_of (marshal (by_keys v))))"
  shows "fst (emm_calls (emm_post hget hset) [ESet k2 v, EGet k1] (st, w, es)) = [Inr GNil, Inr (by_keys v)]"
proof -
  note s = started_state [OF st]
  from first_index [OF w(1,3) s(2)] obtain w1 where 1:
      "getOrCreateIndex hget hset k2 st w = (Inr (uint64_of 1), st\<lparr>idCounter := 2\<rparr>, w1)" "ok w1"
      "ids w1 = (ids w)(k2 \<mapsto> GNum 1)"
    by blast
  let ?T = "table_put 1 (by_keys v) empty_table"
  have "sealed_value (symKey st) (es 0) nonce (by_keys v) = by_keys v"
    using read_back [OF s(1) rnd(2), of "by_keys v" _ A] v ct A by (simp add: sealed_value_def)
  moreover have "blocks_rel A (st\<lparr>idCounter := 2\<rparr>) empty_table" using s(3) [of A] by (simp add: blocks_rel_def)
  ultimately obtain st2 where 2: "do_emm (emm_post hget hset) (ESet k2 v) (st, w, es) =
      (Inr GNil, (st2, w1, \<lambda>i. es (Suc i)))" "blocks_rel A st2 ?T" "symKey st2 = symKey st"
    using call_on_first [of "ESet k2 v" st w "st\<lparr>idCounter := 2\<rparr>" w1 A empty_table es] A 1(1) v s(1) rnd(1)
    by (auto simp: call_ok_def table_op_def request_of_def)
  have "k1 \<noteq> k2" using w(2,3) by auto
  with w(2) 1(3) have "ids w1 k1 = Some (GNum 1)" by simp
  from old_index [OF 1(2) this] obtain w2 where 3: "getOrCreateIndex hget hset k1 st2 w1 = (Inr (uint64_of 1), st2, w2)"
    by blast
  have "aes_key_size (symKey st2)" using s(1) 2(3) by simp
  from call_on_first [of "EGet k1", OF _ 2(2) this, of st2 w1 w2 "\<lambda>i. es (Suc i)"] 3 A
  have "fst (do_emm (emm_post hget hset) (EGet k1) (st2, w1, \<lambda>i. es (Suc i))) = Inr (by_keys v)"
    using v by (auto simp: call_ok_def table_op_def request_of_def table_get_def table_put_def num_slots_def answer_get)
  with 2(1) show ?thesis by (simp add: Let_def split_beta)
qed

end

text \<open>C24: The counter of indices is not kept over a restart, while the HIRB is: after a first process has
  served calls, \<open>c\<close> the first of them, a second process, started with the same or another key file,
  gives a new key the index of \<open>c\<close>'s key. What is set under the new key is then read under the old
  one, in plaintext.\<close>

theorem emm_restart_shares_index:
  assumes "id_map hget hset ids ok storable" and "ok w0" and "ids w0 = Map.empty"
    and "started kf1 nk1 st1" and "\<forall>i. aes (es1 i) = A" and "list_all call_ok (c # cs)" and "length cs < 2 ^ 31 - 1"
    and "emm_calls (emm_post hget hset) (c # cs) (st1, w0, es1) = (rs, (st1', w, es1'))"
    and "started kf2 nk2 st2" and "\<forall>i. aes (es i) = A" and "k2 \<notin> call_key ` set (c # cs)" and "gval_ok (by_keys v)"
    and "rnd (es 0) = Some nonce" and "length nonce = nonce_size"
    and "survives (mem_behind (es 0)) (gcm_seal A (symKey st2) nonce nonce (bytes_of (marshal (by_keys v))))"
  shows "fst (emm_calls (emm_post hget hset) [ESet k2 v, EGet (call_key c)] (st2, w, es)) = [Inr GNil, Inr (by_keys v)]"
proof -
  let ?T = "snd (table_calls (symKey st1) (c # cs) es1 empty_table)"
  have "t_next empty_table + int (length (c # cs)) \<le> 2 ^ 31"
    using assms(7) by (simp add: empty_table_def)
  from id_map.emm_calls_law [OF assms(1) id_map.started_inv [OF assms(1,4,2,3)] this assms(5,6)] assms(8)
  have "id_map.emm_inv ids ok A (symKey st1) st1' w ?T" by auto
  then have w: "ok w" and ids: "ids w = (\<lambda>k. map_option GNum (t_ids ?T k))"
    by (simp_all add: id_map.emm_inv_def [OF assms(1)] ids_rel_def)
  have "t_ids (snd (table_call (symKey st1) (es1 0) c empty_table)) (call_key c) = Some 1"
    by (simp add: table_call_ids) (simp add: table_index_def empty_table_def)
  from table_calls_index [OF this, of "symKey st1" cs "\<lambda>i. es1 (Suc i)"] have "t_ids ?T (call_key c) = Some 1"
    by (simp add: Let_def split_beta)
  moreover have "dom (t_ids ?T) = call_key ` set (c # cs)"
    using table_calls_ok [OF empty_table_ok empty_counted, of "symKey st1" "c # cs" es1]
    by (simp add: empty_table_def)
  then have "t_ids ?T k2 = None" using assms(11) by blast
  ultimately show ?thesis
    using id_map.restart_law [OF assms(1) w _ _ assms(9,10,12-15), of "call_key c" k2] ids by simp
qed

theorem emm_restart_shares_index_witness:
  "\<exists>st w st' es'. started None (Some (replicate 32 7)) st \<and>
     emm_calls (emm_post demo_get demo_set) [EGet ''user''] (st, [], \<lambda>_. demo_emm_env) = ([Inr GNil], (st', w, es')) \<and>
     fst (emm_calls (emm_post demo_get demo_set) [ESet ''admin'' (GStr ''Alice''), EGet ''user''] (st, w, \<lambda>_. demo_emm_env)) =
       [Inr GNil, Inr (GStr ''Alice'')]"
proof -
  from demo_started obtain st where st: "started None (Some (replicate 32 7)) st" by blast
  have inv: "dict_ids.emm_inv demo_cipher (symKey st) st [] empty_table"
    by (rule dict_ids.started_inv [OF st]) (simp_all add: demo_ids)
  have "table_calls (symKey st) [EGet ''user''] (\<lambda>_. demo_emm_env) empty_table =
      ([Inr GNil], snd (table_index ''user'' empty_table))"
    by (simp add: table_call_def table_op_def request_of_def answer_get empty_table_def table_index_def table_get_def num_slots_def)
  with dict_ids.emm_calls_law [OF inv, of "[EGet ''user'']" "\<lambda>_. demo_emm_env"] obtain st' w es' where
      r: "emm_calls (emm_post demo_get demo_set) [EGet ''user''] (st, [], \<lambda>_. demo_emm_env) = ([Inr GNil], (st', w, es'))"
    by (auto simp: call_ok_def empty_table_def)
  from emm_restart_shares_index [OF dict_ids.id_map_axioms, of "[]" None "Some (replicate 32 7)" st "\<lambda>_. demo_emm_env"
      demo_cipher "EGet ''user''" "[]" "[Inr GNil]" st' w es' None "Some (replicate 32 7)" st "\<lambda>_. demo_emm_env"
      "''admin''" "GStr ''Alice''" demo_nonce] st r
  show ?thesis by (auto simp: demo_ids call_ok_def demo_nonce_size demo_survives simp del: emm_calls.simps)
qed

end
