(* ===== verification/EMM_SelfTest.thy ===== *)
theory EMM_SelfTest
  imports EMM_Properties
begin

text \<open>The self-test of the multi-map, \<open>testEMM\<close> of \<open>secure.go\<close>, and what it prints.\<close>

definition testEMM :: "'w transport \<Rightarrow> 'w \<Rightarrow> test_line list \<times> 'w" where
  "testEMM post w0 =
     (let keyOne = ''username''; keyTwo = ''password'';
          valOne = GStr ''Alice''; valTwo = GStr ''MyHiddenPassword''; valThree = GStr ''MySecretPassword'';
          (r1, w1) = emm_Set post keyOne valOne w0;
          (r2, w2) = emm_Set post keyTwo valTwo w1;
          (r3, w3) = emm_Get post keyOne w2;
          (r4, w4) = emm_Set post keyTwo valThree w3;
          (r5, w5) = emm_Get post keyTwo w4;
          (r6, w6) = emm_Delete post keyTwo w5;
          (r7, w7) = emm_Get post keyTwo w6
      in (on_error ''EMM Set failed'' r1 @ on_error ''EMM Set failed'' r2 @
          on_value ''EMM Get failed'' ''EMM Retrieved value'' r3 @
          on_error ''EMM Set failed'' r4 @
          on_value ''EMM Get failed'' ''EMM Retrieved value'' r5 @
          on_error ''EMM Delete failed'' r6 @
          on_value ''EMM Get failed'' ''EMM Retrieved value (should be NIL)'' r7, w7))"

text \<open>The calls of the test, and its lines from their results.\<close>

definition test_calls :: "emm_call list" where
  "test_calls = [ESet ''username'' (GStr ''Alice''), ESet ''password'' (GStr ''MyHiddenPassword''), EGet ''username'',
     ESet ''password'' (GStr ''MySecretPassword''), EGet ''password'', EDel ''password'', EGet ''password'']"

lemma on_error_map [simp]: "on_error h (map_sum id f r) = on_error h r"
  by (cases r) (simp_all add: on_error_def)

lemma testEMM_calls:
  "fst (testEMM post w) = (let rs = fst (emm_calls post test_calls w) in
     on_error ''EMM Set failed'' (rs ! 0) @ on_error ''EMM Set failed'' (rs ! 1) @
     on_value ''EMM Get failed'' ''EMM Retrieved value'' (rs ! 2) @
     on_error ''EMM Set failed'' (rs ! 3) @
     on_value ''EMM Get failed'' ''EMM Retrieved value'' (rs ! 4) @
     on_error ''EMM Delete failed'' (rs ! 5) @
     on_value ''EMM Get failed'' ''EMM Retrieved value (should be NIL)'' (rs ! 6))"
  by (simp add: testEMM_def test_calls_def Let_def split_beta)

definition sealed_at :: "block_cipher \<Rightarrow> byte list \<Rightarrow> emm_env \<Rightarrow> gval \<Rightarrow> bool" where
  "sealed_at A key E v \<longleftrightarrow> (\<exists>nonce. rnd E = Some nonce \<and> length nonce = nonce_size \<and>
     survives (mem_behind E) (gcm_seal A key nonce nonce (bytes_of (marshal (by_keys v)))))"

lemma table_call_seal:
  assumes "sealed_at A key E v" and "aes_key_size key" and "aes E = A" and "gval_ok (by_keys v)"
  shows "table_call key E (ESet k v) T =
    (Inr GNil, table_put (fst (table_index k T)) (by_keys v) (snd (table_index k T)))"
proof -
  from assms(1) obtain nonce where "rnd E = Some nonce" "length nonce = nonce_size"
      "survives (mem_behind E) (gcm_seal A key nonce nonce (bytes_of (marshal (by_keys v))))"
    by (auto simp: sealed_at_def)
  with table_call_set [of E nonce k T _ _ key v] read_back [OF assms(2), of nonce "by_keys v" _ A] assms(3,4)
  show ?thesis by (metis by_keys_twice prod.collapse sealed_value_def)
qed

lemma table_call_del:
  "table_call key E (EDel k) T =
    (Inr GNil, table_put (fst (table_index k T)) GNil (snd (table_index k T)))"
  using del_puts by (simp add: puts_value_def)

text \<open>C25: On a fresh server whose three ciphertexts survive in their blocks, the self-test reads the
  first value, the updated second one, and nil after its deletion.\<close>

theorem testEMM_output:
  assumes "id_map hget hset ids ok storable" and "ok w" and "ids w = Map.empty"
    and "started keyFile newKey st" and "\<forall>i. aes (es i) = A"
    and "sealed_at A (symKey st) (es 0) (GStr ''Alice'')" and "sealed_at A (symKey st) (es 1) (GStr ''MyHiddenPassword'')"
    and "sealed_at A (symKey st) (es 3) (GStr ''MySecretPassword'')"
  shows "fst (testEMM (emm_post hget hset) (st, w, es)) =
    [Shown ''EMM Retrieved value'' (GStr ''Alice''), Shown ''EMM Retrieved value'' (GStr ''MySecretPassword''),
     Shown ''EMM Retrieved value (should be NIL)'' GNil]"
proof -
  have "list_all call_ok test_calls" by (simp add: test_calls_def call_ok_def)
  moreover have "t_next empty_table + int (length test_calls) \<le> 2 ^ 31" by (simp add: empty_table_def test_calls_def)
  ultimately have calls: "fst (emm_calls (emm_post hget hset) test_calls (st, w, es)) =
      fst (table_calls (symKey st) test_calls es empty_table)"
    using id_map.emm_calls_law [OF assms(1) id_map.started_inv [OF assms(1,4,2,3)] _ assms(5), of test_calls] by auto
  note key = started_state(1) [OF assms(4)] and A = assms(5)
  note s = table_call_seal [OF assms(6) key] table_call_seal [OF assms(7) key] table_call_seal [OF assms(8) key]
  have "fst (table_calls (symKey st) test_calls es empty_table) =
      [Inr GNil, Inr GNil, Inr (GStr ''Alice''), Inr GNil, Inr (GStr ''MySecretPassword''), Inr GNil, Inr GNil]"
    using s A
    by (simp add: test_calls_def table_call_get table_call_del table_index_def empty_table_def table_put_def
        table_get_def num_slots_def answer_get numeral_2_eq_2 numeral_3_eq_3)
  then show ?thesis
    by (simp add: testEMM_calls calls on_error_def on_value_def)
qed

lemma demo_sealed_at:
  assumes "0 \<notin> set (ctr_crypt demo_cipher [] demo_nonce (bytes_of (marshal (GStr t))))" and "length (marshal (GStr t)) \<le> 200"
  shows "sealed_at demo_cipher k demo_emm_env (GStr t)"
proof -
  have "survives (\<lambda>_. 0) (gcm_seal demo_cipher k demo_nonce demo_nonce (bytes_of (marshal (GStr t))))"
    unfolding gcm_seal_demo demo_tag using assms by (simp add: survives_def block_bytes_def demo_nonce_def)
  then show ?thesis by (simp add: sealed_at_def demo_nonce_size)
qed

lemma demo_test_values:
  "0 \<notin> set (ctr_crypt demo_cipher [] demo_nonce (bytes_of (marshal (GStr ''Alice''))))"
  "0 \<notin> set (ctr_crypt demo_cipher [] demo_nonce (bytes_of (marshal (GStr ''MyHiddenPassword''))))"
  "0 \<notin> set (ctr_crypt demo_cipher [] demo_nonce (bytes_of (marshal (GStr ''MySecretPassword''))))"
  by code_simp+

lemma demo_test_lengths:
  "length (marshal (GStr ''Alice'')) \<le> 200" "length (marshal (GStr ''MyHiddenPassword'')) \<le> 200"
  "length (marshal (GStr ''MySecretPassword'')) \<le> 200"
  by code_simp+

theorem testEMM_output_witness:
  "\<exists>st. started None (Some (replicate 32 7)) st \<and>
    fst (testEMM (emm_post demo_get demo_set) (st, [], \<lambda>_. demo_emm_env)) =
    [Shown ''EMM Retrieved value'' (GStr ''Alice''), Shown ''EMM Retrieved value'' (GStr ''MySecretPassword''),
     Shown ''EMM Retrieved value (should be NIL)'' GNil]"
proof -
  from demo_started obtain st where st: "started None (Some (replicate 32 7)) st" by blast
  note d = demo_sealed_at [OF demo_test_values(1) demo_test_lengths(1)]
    demo_sealed_at [OF demo_test_values(2) demo_test_lengths(2)] demo_sealed_at [OF demo_test_values(3) demo_test_lengths(3)]
  from testEMM_output [OF dict_ids.id_map_axioms, of "[]" None "Some (replicate 32 7)" st "\<lambda>_. demo_emm_env" demo_cipher] st d
  show ?thesis by (auto simp: demo_ids)
qed

end
