(* ===== verification/Goroutines.thy ===== *)
theory Goroutines
  imports Locker_Prelude "HOL-Library.Multiset"
begin

text \<open>
  Goroutines that share a state. A goroutine is an automaton: \<open>act t s\<close> is its next atomic step in
  local state \<open>t\<close> and shared state \<open>s\<close>, or \<open>None\<close> when it has returned. A configuration is the list of
  the local states with the shared state; a step moves one goroutine, chosen freely.

  The second part is the fan-out that \<open>handleRequests\<close> of \<open>secure.go\<close> and of \<open>plaintext.go\<close> have in
  common: one goroutine per request, that makes a call and then, under the mutex, appends the
  answer to the list of its request id. \<open>wg.Wait\<close> waits until all have returned.
\<close>

section \<open>Interleavings\<close>

type_synonym ('t, 's) automaton = "'t \<Rightarrow> 's \<Rightarrow> ('t \<times> 's) option"

inductive par_step :: "('t, 's) automaton \<Rightarrow> 't list \<times> 's \<Rightarrow> 't list \<times> 's \<Rightarrow> bool"
  for act :: "('t, 's) automaton" where
  moves: "i < length ts \<Longrightarrow> act (ts ! i) s = Some (t', s') \<Longrightarrow> par_step act (ts, s) (ts[i := t'], s')"

inductive_cases par_stepE: "par_step act (ts, s) c"

inductive_simps par_step_simps: "par_step act (ts, s) (ts', s')"

abbreviation par_steps :: "('t, 's) automaton \<Rightarrow> 't list \<times> 's \<Rightarrow> 't list \<times> 's \<Rightarrow> bool" where
  "par_steps act \<equiv> (par_step act)\<^sup>*\<^sup>*"

definition returned :: "('t, 's) automaton \<Rightarrow> 't list \<times> 's \<Rightarrow> bool" where
  "returned act c = list_all (\<lambda>t. act t (snd c) = None) (fst c)"

text \<open>A run, step by step.\<close>

primrec par_run :: "('t, 's) automaton \<Rightarrow> 't list \<times> 's \<Rightarrow> ('t list \<times> 's) list \<Rightarrow> bool" where
  "par_run act c [] \<longleftrightarrow> True"
| "par_run act c (d # ds) \<longleftrightarrow> par_step act c d \<and> par_run act d ds"

lemma par_step_length: "par_step act c d \<Longrightarrow> length (fst d) = length (fst c)"
  by (auto elim!: par_step.cases)

lemma returned_or_moves: "returned act c \<or> (\<exists>d. par_step act c d)"
proof (cases "returned act c")
  case False
  then obtain i where i: "i < length (fst c)" "act (fst c ! i) (snd c) \<noteq> None"
    by (auto simp: returned_def list_all_length)
  then obtain t' s' where "act (fst c ! i) (snd c) = Some (t', s')" by auto
  with i(1) have "par_step act (fst c, snd c) ((fst c)[i := t'], s')" by (rule moves)
  then show ?thesis by auto
qed simp

text \<open>The contract under which every run ends: each goroutine has a bound on the steps it has left.\<close>

locale goroutines =
  fixes act :: "('t, 's) automaton"
    and left :: "'t \<Rightarrow> nat"
  assumes left_less: "act t s = Some (t', s') \<Longrightarrow> left t' < left t"
begin

definition all_left :: "'t list \<times> 's \<Rightarrow> nat" where
  "all_left c = sum_list (map left (fst c))"

lemma all_left_less:
  assumes "par_step act c d"
  shows "all_left d < all_left c"
  using assms
proof cases
  case (moves i ts s t' s')
  then show ?thesis
    using left_less [OF moves(4)] sum_list_update_add [OF moves(3), of left t'] by (simp add: all_left_def)
qed

text \<open>No run has more steps than there are left, and every run can be completed.\<close>

lemma run_bound: "par_run act c ds \<Longrightarrow> length ds \<le> all_left c"
proof (induction ds arbitrary: c)
  case (Cons d ds)
  then have "length ds \<le> all_left d" "par_step act c d" by simp_all
  with all_left_less [of c d] show ?case by simp
qed simp

lemma completes: "\<exists>d. par_steps act c d \<and> returned act d"
proof (induction "all_left c" arbitrary: c rule: less_induct)
  case less
  show ?case
  proof (cases "returned act c")
    case False
    with returned_or_moves [of act c] obtain d where d: "par_step act c d" by blast
    from less [OF all_left_less [OF d]] d show ?thesis by (meson converse_rtranclp_into_rtranclp)
  qed blast
qed

end

section \<open>One goroutine per request\<close>

datatype 'r worker = Calling 'r | Appending string gval | Finished

type_synonym cli_resp = "(string, gval list) gmap"

text \<open>A call gives an answer, or none if the goroutine returns early.\<close>

type_synonym ('r, 'w) call = "'r \<Rightarrow> 'w \<Rightarrow> gval option \<times> 'w"

fun fan_act :: "('r \<Rightarrow> string) \<Rightarrow> ('r, 'w) call \<Rightarrow> ('r worker, 'w \<times> cli_resp) automaton" where
  "fan_act rid call (Calling r) (w, resp) =
     (case call r w of
        (None, w') \<Rightarrow> Some (Finished, (w', resp))
      | (Some v, w') \<Rightarrow> Some (Appending (rid r) v, (w', resp)))"
| "fan_act rid call (Appending k v) (w, resp) = Some (Finished, (w, gm_append k v resp))"
| "fan_act rid call Finished (w, resp) = None"

fun steps_left :: "'r worker \<Rightarrow> nat" where
  "steps_left (Calling r) = 2"
| "steps_left (Appending k v) = 1"
| "steps_left Finished = 0"

interpretation fan: goroutines "fan_act rid call" steps_left for rid call
proof
  show "fan_act rid call t s = Some (t', s') \<Longrightarrow> steps_left t' < steps_left t" for rid call t s t' s'
    by (cases t; cases s) (auto split: prod.splits option.splits)
qed

definition fan_start :: "'r list \<Rightarrow> 'w \<Rightarrow> 'r worker list \<times> ('w \<times> cli_resp)" where
  "fan_start rs w = (map Calling rs, (w, []))"

lemma fan_returned: "returned (fan_act rid call) (ts, s) \<longleftrightarrow> (\<forall>t \<in> set ts. t = Finished)"
proof -
  have "fan_act rid call t s = None \<longleftrightarrow> t = Finished" for t
    by (cases t; cases s) (simp_all split: prod.split option.split)
  then show ?thesis by (simp add: returned_def list_all_iff)
qed

subsection \<open>The calls in one order\<close>

primrec seq_calls :: "('r, 'w) call \<Rightarrow> 'r list \<Rightarrow> 'w \<Rightarrow> gval option list \<times> 'w" where
  "seq_calls call [] w = ([], w)"
| "seq_calls call (r # rs) w =
     (let (a, w1) = call r w; (as, w2) = seq_calls call rs w1 in (a # as, w2))"

text \<open>The answers of the requests with a given id, in the order of their calls.\<close>

fun answers_to :: "('r \<Rightarrow> string) \<Rightarrow> string \<Rightarrow> 'r list \<Rightarrow> gval option list \<Rightarrow> gval list" where
  "answers_to rid k (r # rs) (a # as) =
     (case a of None \<Rightarrow> [] | Some v \<Rightarrow> if rid r = k then [v] else []) @ answers_to rid k rs as"
| "answers_to rid k rs as = []"

lemma seq_calls_snoc:
  "seq_calls call (rs @ [r]) w =
     (let (as, w1) = seq_calls call rs w; (a, w2) = call r w1 in (as @ [a], w2))"
  by (induction rs arbitrary: w) (simp_all add: Let_def split_beta)

lemma length_seq_calls [simp]: "length (fst (seq_calls call rs w)) = length rs"
  by (induction rs arbitrary: w) (simp_all add: Let_def split_beta)

lemma answers_to_append:
  "length rs = length as \<Longrightarrow> answers_to rid k (rs @ rs') (as @ as') = answers_to rid k rs as @ answers_to rid k rs' as'"
  by (induction rs as rule: list_induct2) simp_all

lemma answers_to_snoc:
  "length rs = length as \<Longrightarrow> answers_to rid k (rs @ [r]) (as @ [a]) =
     answers_to rid k rs as @ (case a of None \<Rightarrow> [] | Some v \<Rightarrow> if rid r = k then [v] else [])"
  by (simp add: answers_to_append)

subsection \<open>Every interleaving is some order of the calls\<close>

fun to_call :: "'r worker \<Rightarrow> 'r multiset" where
  "to_call (Calling r) = {#r#}"
| "to_call t = {#}"

fun to_append :: "string \<Rightarrow> 'r worker \<Rightarrow> gval multiset" where
  "to_append k (Appending k' v) = (if k' = k then {#v#} else {#})"
| "to_append k t = {#}"

text \<open>The requests called so far are \<open>rs'\<close>, in the order of their calls.\<close>

definition linear_at ::
  "('r \<Rightarrow> string) \<Rightarrow> ('r, 'w) call \<Rightarrow> 'r list \<Rightarrow> 'w \<Rightarrow> 'r worker list \<times> ('w \<times> cli_resp) \<Rightarrow> 'r list \<Rightarrow> bool" where
  "linear_at rid call rs w0 c rs' \<longleftrightarrow> (let (ts, w, resp) = c; (as, w') = seq_calls call rs' w0 in
     mset rs = mset rs' + sum_list (map to_call ts) \<and> w = w' \<and> gm_wf resp \<and> gm_full resp \<and>
     (\<forall>k. mset (gl resp k) + sum_list (map (to_append k) ts) = mset (answers_to rid k rs' as)))"

lemma linear_step:
  assumes "linear_at rid call rs w0 c rs'" and "par_step (fan_act rid call) c d"
  shows "\<exists>rs''. linear_at rid call rs w0 d rs''"
  using assms(2)
proof cases
  case (moves i ts s t' s')
  obtain w resp where s: "s = (w, resp)" by force
  obtain as w' where q: "seq_calls call rs' w0 = (as, w')" by force
  have len: "length rs' = length as" using length_seq_calls [of call rs' w0] q by simp
  note upd = sum_list_update_add [OF moves(3), of _ t']
  note upd_call = upd [of to_call] and upd_app = upd [of "to_append k" for k]
  from assms(1) moves(1) s q have l: "mset rs = mset rs' + sum_list (map to_call ts)" "w = w'" "gm_wf resp" "gm_full resp"
    "\<And>k. mset (gl resp k) + sum_list (map (to_append k) ts) = mset (answers_to rid k rs' as)"
    by (simp_all add: linear_at_def)
  show ?thesis
  proof (cases "ts ! i")
    case (Calling r)
    obtain a w1 where a: "call r w = (a, w1)" by force
    have d: "d = (ts[i := t'], w1, resp)" "t' = (case a of None \<Rightarrow> Finished | Some v \<Rightarrow> Appending (rid r) v)"
      using moves(2,4) s Calling a by (auto split: option.splits)
    have "mset rs = mset (rs' @ [r]) + sum_list (map to_call (ts[i := t']))"
      using upd_call l(1) Calling d(2) by (cases a) (simp_all add: ac_simps)
    moreover have "mset (gl resp k) + sum_list (map (to_append k) (ts[i := t'])) =
        mset (answers_to rid k (rs' @ [r]) (as @ [a]))" for k
      using upd_app [of k] l(5) [of k] Calling d(2)
      by (cases a) (auto simp: answers_to_snoc [OF len] simp flip: l(5))
    ultimately have "linear_at rid call rs w0 d (rs' @ [r])"
      using l(2-4) a q d(1) by (simp add: linear_at_def seq_calls_snoc)
    then show ?thesis by blast
  next
    case (Appending k' v)
    then have d: "d = (ts[i := Finished], w, gm_append k' v resp)" "t' = Finished"
      using moves(2,4) s by auto
    have "mset (gl (gm_append k' v resp) k) + sum_list (map (to_append k) (ts[i := Finished])) =
        mset (answers_to rid k rs' as)" for k
    proof -
      have "mset (gl (gm_append k' v resp) k) + sum_list (map (to_append k) (ts[i := Finished])) =
          mset (gl resp k) + (sum_list (map (to_append k) (ts[i := Finished])) + to_append k (ts ! i))"
        using Appending by simp
      also have "sum_list (map (to_append k) (ts[i := Finished])) + to_append k (ts ! i) = sum_list (map (to_append k) ts)"
        using upd_app [of k] d(2) by simp
      finally show ?thesis using l(5) [of k] by simp
    qed
    moreover have "mset rs = mset rs' + sum_list (map to_call (ts[i := Finished]))"
      using upd_call l(1) Appending d(2) by simp
    ultimately have "linear_at rid call rs w0 d rs'"
      using l(2-4) q d(1) by (simp add: linear_at_def inv_intros)
    then show ?thesis by blast
  next
    case Finished
    with moves(4) s show ?thesis by simp
  qed
qed

lemma linear_steps:
  assumes "par_steps (fan_act rid call) (fan_start rs w0) c"
  shows "\<exists>rs'. linear_at rid call rs w0 c rs'"
  using assms
proof (induction rule: rtranclp_induct)
  case base
  have "sum_list (map to_call (map Calling rs)) = mset rs"
    by (induction rs) simp_all
  moreover have "sum_list (map (to_append k) (map Calling rs)) = {#}" for k
    by (induction rs) simp_all
  ultimately have "linear_at rid call rs w0 (fan_start rs w0) []"
    by (simp add: linear_at_def fan_start_def inv_intros)
  then show ?case by blast
next
  case (step c d)
  then obtain rs' where "linear_at rid call rs w0 c rs'" by blast
  from linear_step [OF this step(2)] show ?case .
qed

text \<open>
  The law of the fan-out: when all goroutines have returned, the shared world is the one after the
  calls in some order of the requests, and each id has exactly the answers of that order.
\<close>

theorem fan_linear:
  assumes "par_steps (fan_act rid call) (fan_start rs w0) (ts, w, resp)" and "returned (fan_act rid call) (ts, w, resp)"
  shows "\<exists>rs'. mset rs' = mset rs \<and> w = snd (seq_calls call rs' w0) \<and> gm_wf resp \<and>
    (\<forall>k. mset (gl resp k) = mset (answers_to rid k rs' (fst (seq_calls call rs' w0))) \<and>
      gm_get resp k = (if gl resp k = [] then None else Some (gl resp k)))"
proof -
  from linear_steps [OF assms(1)] obtain rs' where l: "linear_at rid call rs w0 (ts, w, resp) rs'" by blast
  have fin: "\<forall>t \<in> set ts. t = Finished" using assms(2) by (simp only: fan_returned)
  have z: "sum_list (map to_call ts) = {#}" "sum_list (map (to_append k) ts) = {#}" for k
    using fin by (induction ts) auto
  from l z show ?thesis
    by (intro exI [of _ rs']) (simp add: linear_at_def Let_def split_beta gm_full_get)
qed

subsection \<open>The order of the requests is one of the interleavings\<close>

primrec collect :: "('r \<Rightarrow> string) \<Rightarrow> ('r, 'w) call \<Rightarrow> 'r list \<Rightarrow> 'w \<times> cli_resp \<Rightarrow> 'w \<times> cli_resp" where
  "collect rid call [] s = s"
| "collect rid call (r # rs) s =
     (case call r (fst s) of
        (None, w') \<Rightarrow> collect rid call rs (w', snd s)
      | (Some v, w') \<Rightarrow> collect rid call rs (w', gm_append (rid r) v (snd s)))"

lemma fan_one:
  "par_steps (fan_act rid call) (us @ Calling r # ts, s) (us @ Finished # ts, collect rid call [r] s)"
proof -
  obtain w resp where s: "s = (w, resp)" by force
  obtain a w' where a: "call r w = (a, w')" by force
  have i: "length us < length (us @ Calling r # ts)" by simp
  show ?thesis
  proof (cases a)
    case None
    with moves [OF i, of "fan_act rid call" s Finished "(w', resp)"] show ?thesis
      by (auto simp: s a intro!: r_into_rtranclp)
  next
    case (Some v)
    with moves [OF i, of "fan_act rid call" s "Appending (rid r) v" "(w', resp)"]
    have 1: "par_step (fan_act rid call) (us @ Calling r # ts, s) (us @ Appending (rid r) v # ts, (w', resp))"
      by (simp add: s a)
    have "length us < length (us @ Appending (rid r) v # ts)" by simp
    from moves [OF this, of "fan_act rid call" "(w', resp)" Finished "(w', gm_append (rid r) v resp)"]
    have 2: "par_step (fan_act rid call) (us @ Appending (rid r) v # ts, (w', resp))
        (us @ Finished # ts, (w', gm_append (rid r) v resp))"
      by simp
    from 1 2 Some show ?thesis by (simp add: s a)
  qed
qed

lemma fan_in_order:
  "par_steps (fan_act rid call) (us @ map Calling rs, s) (us @ map (\<lambda>_. Finished) rs, collect rid call rs s)"
proof (induction rs arbitrary: us s)
  case (Cons r rs)
  from fan_one [of rid call us r "map Calling rs" s]
  have 1: "par_steps (fan_act rid call) (us @ map Calling (r # rs), s) ((us @ [Finished]) @ map Calling rs, collect rid call [r] s)"
    by simp
  have 2: "collect rid call rs (collect rid call [r] s) = collect rid call (r # rs) s"
    by (simp split: prod.split option.split)
  have "par_steps (fan_act rid call) ((us @ [Finished]) @ map Calling rs, collect rid call [r] s)
      (us @ map (\<lambda>_. Finished) (r # rs), collect rid call (r # rs) s)"
    using Cons.IH [of "us @ [Finished]" "collect rid call [r] s"] unfolding 2 by simp
  with 1 show ?case by (rule rtranclp_trans)
qed simp

text \<open>All that \<open>handleRequests\<close> of the two servers does with its goroutines.\<close>

definition fan_out ::
  "('r \<Rightarrow> string) \<Rightarrow> ('r, 'w) call \<Rightarrow> 'r list \<Rightarrow> 'w \<Rightarrow> (string, gval) gmap \<Rightarrow> 'w \<Rightarrow> bool" where
  "fan_out rid call rs w result w' \<longleftrightarrow>
     (\<exists>ts resp. par_steps (fan_act rid call) (fan_start rs w) (ts, w', resp) \<and>
        returned (fan_act rid call) (ts, w', resp) \<and> result = collapse_all resp)"

lemma fan_out_in_order:
  "fan_out rid call rs w (collapse_all (snd (collect rid call rs (w, [])))) (fst (collect rid call rs (w, [])))"
proof -
  have "returned (fan_act rid call) (map (\<lambda>_. Finished) rs, collect rid call rs (w, []))"
    by (simp add: fan_returned)
  with fan_in_order [of rid call "[]" rs "(w, [])"] show ?thesis
    unfolding fan_out_def fan_start_def by (metis append_Nil prod.collapse)
qed

lemma fan_out_linear:
  assumes "fan_out rid call rs w result w'"
  shows "\<exists>rs'. mset rs' = mset rs \<and> w' = snd (seq_calls call rs' w) \<and>
    (\<forall>k. \<exists>vals. mset vals = mset (answers_to rid k rs' (fst (seq_calls call rs' w))) \<and>
      gm_get result k = (if vals = [] then None else Some (collapse vals)))"
proof -
  from assms obtain ts resp where c: "par_steps (fan_act rid call) (fan_start rs w) (ts, w', resp)"
      "returned (fan_act rid call) (ts, w', resp)" "result = collapse_all resp"
    by (auto simp: fan_out_def)
  from fan_linear [OF c(1,2)] obtain rs' where rs': "mset rs' = mset rs" "w' = snd (seq_calls call rs' w)"
      "\<And>k. mset (gl resp k) = mset (answers_to rid k rs' (fst (seq_calls call rs' w)))"
      "\<And>k. gm_get resp k = (if gl resp k = [] then None else Some (gl resp k))"
    by blast
  show ?thesis
  proof (intro exI [of _ rs'] conjI allI)
    fix k
    show "\<exists>vals. mset vals = mset (answers_to rid k rs' (fst (seq_calls call rs' w))) \<and>
        gm_get result k = (if vals = [] then None else Some (collapse vals))"
      using rs'(3) [of k] rs'(4) [of k] c(3) by (intro exI [of _ "gl resp k"]) (auto simp: gm_get_collapse)
  qed (use rs' in auto)
qed

section \<open>Batches one after the other\<close>

inductive run_batches :: "('b \<Rightarrow> 'w \<Rightarrow> 'r \<Rightarrow> 'w \<Rightarrow> bool) \<Rightarrow> 'b list \<Rightarrow> 'w \<Rightarrow> 'r list \<Rightarrow> 'w \<Rightarrow> bool"
  for handle :: "'b \<Rightarrow> 'w \<Rightarrow> 'r \<Rightarrow> 'w \<Rightarrow> bool" where
  none: "run_batches handle [] w [] w"
| more: "handle b w r w1 \<Longrightarrow> run_batches handle bs w1 rs w2 \<Longrightarrow> run_batches handle (b # bs) w (r # rs) w2"

inductive_cases run_batches_ConsE: "run_batches handle (b # bs) w rs w2"

inductive_simps run_batches_simps [simp]: "run_batches handle [] w rs w2"

lemma run_batches_length: "run_batches handle bs w rs w' \<Longrightarrow> length rs = length bs"
  by (induction rule: run_batches.induct) simp_all

lemma run_batches_append:
  "run_batches handle (bs @ bs') w rs w2 \<Longrightarrow>
     \<exists>rs1 rs2 w1. rs = rs1 @ rs2 \<and> run_batches handle bs w rs1 w1 \<and> run_batches handle bs' w1 rs2 w2"
proof (induction bs arbitrary: w rs)
  case Nil
  then show ?case by (intro exI [of _ "[]"] exI [of _ rs] exI [of _ w]) simp
next
  case (Cons b bs)
  from Cons.prems obtain r rs' w1 where 1: "rs = r # rs'" "handle b w r w1" "run_batches handle (bs @ bs') w1 rs' w2"
    by (auto elim: run_batches_ConsE)
  from Cons.IH [OF 1(3)] obtain rs1 rs2 w3 where 2: "rs' = rs1 @ rs2" "run_batches handle bs w1 rs1 w3"
      "run_batches handle bs' w3 rs2 w2"
    by blast
  from run_batches.more [of handle, OF 1(2) 2(2)] 1(1) 2(1,3) show ?case by (metis append_Cons)
qed

lemma run_batches_exist: "(\<And>b w. \<exists>r w'. handle b w r w') \<Longrightarrow> \<exists>rs w'. run_batches handle bs w rs w'"
proof (induction bs arbitrary: w)
  case Nil
  show ?case by (intro exI) (rule run_batches.none)
next
  case (Cons b bs)
  from Cons.prems obtain r w1 where 1: "handle b w r w1" by blast
  from Cons.IH [OF Cons.prems, of w1] obtain rs w2 where "run_batches handle bs w1 rs w2" by blast
  with 1 show ?case by (metis run_batches.more)
qed

end
