(* ===== verification/Secure.thy ===== *)
theory Secure
  imports EMM_Properties Goroutines
begin

text \<open>
  The secure server (\<open>secure.go\<close>): a batch of requests, each handled by a goroutine of its own that
  calls the encrypted multi-map and appends its answer under the mutex. The world of the calls is
  that of the multi-map's client; a call is atomic, the goroutines interleave freely.
\<close>

section \<open>The code\<close>

text \<open>\<open>Val\<close> is a \<open>json.RawMessage\<close>: the text of the value.\<close>

record secure_req =
  s_RID :: string
  s_Op :: string
  s_Key :: string
  s_Val :: string

text \<open>The answer a read makes of what the multi-map returned; none if it is no text.\<close>

definition read_answer :: "gval \<Rightarrow> gval option" where
  "read_answer val =
     (case val of
        GStr v \<Rightarrow> (case unmarshal v of Some decoded \<Rightarrow> Some decoded | None \<Rightarrow> Some (GStr v))
      | _ \<Rightarrow> None)"

definition secure_read :: "'w transport \<Rightarrow> secure_req \<Rightarrow> 'w \<Rightarrow> gval option \<times> 'w" where
  "secure_read post r w =
     (case emm_Get post (s_Key r) w of
        (Inl err, w') \<Rightarrow> (None, w')
      | (Inr val, w') \<Rightarrow> (read_answer val, w'))"

definition secure_write :: "'w transport \<Rightarrow> secure_req \<Rightarrow> 'w \<Rightarrow> gval option \<times> 'w" where
  "secure_write post r w =
     (case emm_Set post (s_Key r) (GStr (s_Val r)) w of
        (Inl err, w') \<Rightarrow> (None, w')
      | (Inr u, w') \<Rightarrow> (Some (GStr ''correct_write''), w'))"

definition secure_delete :: "'w transport \<Rightarrow> secure_req \<Rightarrow> 'w \<Rightarrow> gval option \<times> 'w" where
  "secure_delete post r w =
     (case emm_Delete post (s_Key r) w of
        (Inl err, w') \<Rightarrow> (None, w')
      | (Inr u, w') \<Rightarrow> (Some (GStr ''correct_delete''), w'))"

text \<open>The requests that get a goroutine.\<close>

definition secure_spawns :: "secure_req \<Rightarrow> bool" where
  "secure_spawns r \<longleftrightarrow> s_Key r \<noteq> '''' \<and> to_lower (s_Op r) \<in> {''read'', ''write'', ''delete''}"

definition secure_call :: "'w transport \<Rightarrow> (secure_req, 'w) call" where
  "secure_call post r w =
     (if to_lower (s_Op r) = ''read'' then secure_read post r w
      else if to_lower (s_Op r) = ''write'' then secure_write post r w
      else secure_delete post r w)"

text \<open>\<open>handleRequests\<close>: the results a batch can have, with the world it leaves.\<close>

definition secure_handleRequests ::
  "'w transport \<Rightarrow> secure_req list \<Rightarrow> 'w \<Rightarrow> (string, gval) gmap \<Rightarrow> 'w \<Rightarrow> bool" where
  "secure_handleRequests post requests w result w' \<longleftrightarrow>
     fan_out s_RID (secure_call post) (filter secure_spawns requests) w result w'"

section \<open>The calls of a batch on the multi-map\<close>

definition emm_call_of :: "secure_req \<Rightarrow> emm_call" where
  "emm_call_of r =
     (if to_lower (s_Op r) = ''read'' then EGet (s_Key r)
      else if to_lower (s_Op r) = ''write'' then ESet (s_Key r) (GStr (s_Val r))
      else EDel (s_Key r))"

definition secure_answer :: "secure_req \<Rightarrow> client_error + gval \<Rightarrow> gval option" where
  "secure_answer r res =
     (case res of
        Inl err \<Rightarrow> None
      | Inr v \<Rightarrow>
          if to_lower (s_Op r) = ''read'' then read_answer v
          else if to_lower (s_Op r) = ''write'' then Some (GStr ''correct_write'')
          else Some (GStr ''correct_delete''))"

lemma emm_call_of_key [simp]: "call_key (emm_call_of r) = s_Key r"
  by (simp add: emm_call_of_def)

lemma emm_call_of_ok [simp]: "call_ok (emm_call_of r)"
  by (simp add: emm_call_of_def call_ok_def)

lemma call_ok_simps [simp]: "call_ok (EGet k)" "call_ok (EDel k)" "call_ok (ESet k (GStr t))"
  by (simp_all add: call_ok_def)

lemma secure_call_eq:
  "secure_call post r w = (let (res, w') = do_emm post (emm_call_of r) w in (secure_answer r res, w'))"
  by (auto simp: secure_call_def secure_read_def secure_write_def secure_delete_def emm_call_of_def secure_answer_def
      Let_def split: prod.split sum.split)

lemma secure_seq:
  "seq_calls (secure_call post) rs w =
     (let (res, w') = emm_calls post (map emm_call_of rs) w in (map2 secure_answer rs res, w'))"
  by (induction rs arbitrary: w) (simp_all add: secure_call_eq Let_def split_beta)

abbreviation secure_batches ::
  "'w transport \<Rightarrow> secure_req list list \<Rightarrow> 'w \<Rightarrow> (string, gval) gmap list \<Rightarrow> 'w \<Rightarrow> bool" where
  "secure_batches post \<equiv> run_batches (secure_handleRequests post)"

definition all_spawned :: "secure_req list list \<Rightarrow> secure_req list" where
  "all_spawned bs = filter secure_spawns (concat bs)"

lemma all_spawned_simps [simp]:
  "all_spawned [] = []" "all_spawned (b # bs) = filter secure_spawns b @ all_spawned bs"
  by (simp_all add: all_spawned_def)

lemma batch_calls:
  assumes "secure_handleRequests post b w r w1"
  shows "\<exists>rs. mset rs = mset (filter secure_spawns b) \<and> w1 = snd (emm_calls post (map emm_call_of rs) w)"
  using fan_out_linear [OF assms [unfolded secure_handleRequests_def]] by (auto simp: secure_seq split_beta Let_def)

lemma emm_calls_append:
  "emm_calls post (cs @ cs') w =
     (let (rs, w1) = emm_calls post cs w; (rs', w2) = emm_calls post cs' w1 in (rs @ rs', w2))"
  by (induction cs arbitrary: w) (simp_all add: Let_def split_beta)

lemma batches_calls:
  "secure_batches post bs w rs w' \<Longrightarrow>
     \<exists>qs. mset qs = mset (all_spawned bs) \<and> w' = snd (emm_calls post (map emm_call_of qs) w)"
proof (induction rule: run_batches.induct)
  case (none w)
  then show ?case by (intro exI [of _ "[]"]) simp
next
  case (more b w r w1 bs rs w2)
  from batch_calls [OF more(1)] more.IH obtain ps qs where
      "mset ps = mset (filter secure_spawns b)" "w1 = snd (emm_calls post (map emm_call_of ps) w)"
      "mset qs = mset (all_spawned bs)" "w2 = snd (emm_calls post (map emm_call_of qs) w1)"
    by blast
  then show ?case by (intro exI [of _ "ps @ qs"]) (simp add: emm_calls_append Let_def split_beta)
qed

text \<open>A batch of one request.\<close>

lemma seq_calls_single: "mset rs' = mset [r] \<Longrightarrow> rs' = [r]"
  by simp

lemma batch_single:
  assumes "secure_handleRequests post [r] w result w'" and "secure_spawns r"
  shows "w' = snd (do_emm post (emm_call_of r) w) \<and>
    gm_get result (s_RID r) = secure_answer r (fst (do_emm post (emm_call_of r) w))"
proof -
  from fan_out_linear [OF assms(1) [unfolded secure_handleRequests_def]] assms(2) obtain vals where
      w': "w' = snd (seq_calls (secure_call post) [r] w)"
      and vals: "mset vals = mset (answers_to s_RID (s_RID r) [r] (fst (seq_calls (secure_call post) [r] w)))"
      "gm_get result (s_RID r) = (if vals = [] then None else Some (collapse vals))"
    by (auto simp del: seq_calls.simps)
  show ?thesis
  proof (cases "secure_answer r (fst (do_emm post (emm_call_of r) w))")
    case None
    with w' vals show ?thesis by (simp add: secure_call_eq Let_def split_beta)
  next
    case (Some v)
    with vals(1) have "mset vals = {#v#}" by (simp add: secure_call_eq Let_def split_beta)
    then have "vals = [v]" by simp
    with w' vals(2) Some show ?thesis by (simp add: secure_call_eq Let_def split_beta collapse_def)
  qed
qed

end
