(* ===== verification/Secure_Properties.thy ===== *)
theory Secure_Properties
  imports Secure
begin

text \<open>
  The properties of the secure server: every run of a batch ends, every outcome is that of calling
  the multi-map in some order of the requests, and over the whole stack a value written is the
  value read, a value deleted is not.
\<close>

section \<open>Batches as calls of the multi-map\<close>

lemma spawned_keys:
  assumes "mset qs = mset (all_spawned bs)"
  shows "call_key ` set (map emm_call_of qs) = s_Key ` set (all_spawned bs)" and "length qs = length (all_spawned bs)"
proof -
  have "set qs = set (all_spawned bs)" using assms by (metis set_mset_mset)
  then show "call_key ` set (map emm_call_of qs) = s_Key ` set (all_spawned bs)"
    by (simp add: image_image)
  show "length qs = length (all_spawned bs)" using assms by (metis size_mset)
qed

text \<open>Two batches of one request each, with other batches around the first.\<close>

lemma two_requests:
  assumes run: "secure_batches post (before @ [wr] # between @ [[rd]]) w results w2"
    and sp: "secure_spawns wr" "secure_spawns rd"
  shows "\<exists>ps qs res. mset ps = mset (all_spawned before) \<and> mset qs = mset (all_spawned between) \<and>
    res = fst (emm_calls post (map emm_call_of ps @ emm_call_of wr # map emm_call_of qs @ [emm_call_of rd]) w) \<and>
    gm_get (results ! length before) (s_RID wr) = secure_answer wr (res ! length (all_spawned before)) \<and>
    gm_get (last results) (s_RID rd) = secure_answer rd (last res)"
proof -
  from run_batches_append [OF run] obtain rs1 rs2 w1 where 1: "results = rs1 @ rs2" "secure_batches post before w rs1 w1"
      "secure_batches post ([wr] # between @ [[rd]]) w1 rs2 w2"
    by blast
  from 1(3) obtain r rs3 w3 where 2: "rs2 = r # rs3" "secure_handleRequests post [wr] w1 r w3"
      "secure_batches post (between @ [[rd]]) w3 rs3 w2"
    by (auto elim: run_batches_ConsE)
  from run_batches_append [OF 2(3)] obtain rs4 rs5 w4 where 3: "rs3 = rs4 @ rs5" "secure_batches post between w3 rs4 w4"
      "secure_batches post [[rd]] w4 rs5 w2"
    by blast
  from 3(3) obtain r' where 4: "rs5 = [r']" "secure_handleRequests post [rd] w4 r' w2"
    by (auto elim!: run_batches_ConsE elim: run_batches.cases)
  from batches_calls [OF 1(2)] obtain ps where ps: "mset ps = mset (all_spawned before)"
      "w1 = snd (emm_calls post (map emm_call_of ps) w)"
    by blast
  from batches_calls [OF 3(2)] obtain qs where qs: "mset qs = mset (all_spawned between)"
      "w4 = snd (emm_calls post (map emm_call_of qs) w3)"
    by blast
  note wr = batch_single [OF 2(2) sp(1)] and rd = batch_single [OF 4(2) sp(2)]
  let ?res = "fst (emm_calls post (map emm_call_of ps @ emm_call_of wr # map emm_call_of qs @ [emm_call_of rd]) w)"
  have len: "length (fst (emm_calls post cs x)) = length cs" for cs x
    by (induction cs arbitrary: x) (simp_all add: Let_def split_beta)
  have res: "?res = fst (emm_calls post (map emm_call_of ps) w) @ fst (do_emm post (emm_call_of wr) w1) #
      fst (emm_calls post (map emm_call_of qs) w3) @ [fst (do_emm post (emm_call_of rd) w4)]"
    using ps(2) qs(2) wr by (simp add: emm_calls_append Let_def split_beta)
  have "length rs1 = length before" by (rule run_batches_length [OF 1(2)])
  then have "results ! length before = r" "last results = r'" using 1(1) 2(1) 3(1) 4(1) by (simp_all add: nth_append)
  moreover have "?res ! length (all_spawned before) = fst (do_emm post (emm_call_of wr) w1)"
    using len [of "map emm_call_of ps" w] spawned_keys(2) [OF ps(1)] by (simp add: res nth_append)
  moreover have "last ?res = fst (do_emm post (emm_call_of rd) w4)" by (simp add: res)
  ultimately show ?thesis
    using wr rd ps(1) qs(1) by (intro exI [of _ ps] exI [of _ qs] exI [of _ ?res]) simp
qed

section \<open>Properties\<close>


definition sreq :: "string \<Rightarrow> string \<Rightarrow> string \<Rightarrow> string \<Rightarrow> secure_req" where
  "sreq rid op key val = \<lparr>s_RID = rid, s_Op = op, s_Key = key, s_Val = val\<rparr>"

lemma sreq_simps [simp]:
  "s_RID (sreq rid op key val) = rid" "s_Op (sreq rid op key val) = op"
  "s_Key (sreq rid op key val) = key" "s_Val (sreq rid op key val) = val"
  by (simp_all add: sreq_def)

lemma lower_ops [simp]: "to_lower ''read'' = ''read''" "to_lower ''write'' = ''write''" "to_lower ''delete'' = ''delete''"
  "to_lower ''Write'' = ''write''"
  by code_simp+

lemma sreq_spawns [simp]:
  "secure_spawns (sreq rid ''read'' k v) \<longleftrightarrow> k \<noteq> ''''" "secure_spawns (sreq rid ''write'' k v) \<longleftrightarrow> k \<noteq> ''''"
  "secure_spawns (sreq rid ''Write'' k v) \<longleftrightarrow> k \<noteq> ''''" "secure_spawns (sreq rid ''delete'' k v) \<longleftrightarrow> k \<noteq> ''''"
  by (simp_all add: secure_spawns_def)





lemma secure_run_exists: "\<exists>results w'. secure_batches post bs w results w'"
  by (rule run_batches_exist) (metis fan_out_in_order secure_handleRequests_def)


text \<open>C29: A deleted key reads as no answer at all: after a delete, and any batches that leave the key alone, the
  delete was answered but the read of the key is missing in its batch's result, with no error.\<close>

theorem secure_delete_read:
  assumes "id_map hget hset ids ok storable" and "ok w" and "ids w = Map.empty"
    and "started keyFile newKey st" and "\<forall>i. aes (es i) = A"
    and "secure_batches (emm_post hget hset) (before @ [dl] # between @ [[rd]]) (st, w, es) results w2"
    and "secure_spawns dl" and "to_lower (s_Op dl) = ''delete''" and "secure_spawns rd" and "to_lower (s_Op rd) = ''read''"
    and "s_Key rd = s_Key dl" and "s_Key dl \<notin> s_Key ` set (all_spawned between)"
    and "length (all_spawned before) + length (all_spawned between) \<le> 2 ^ 31 - 3"
  shows "gm_get (last results) (s_RID rd) = None"
proof -
  from two_requests [OF assms(6,7,9)] obtain ps qs res where q: "mset ps = mset (all_spawned before)"
      "mset qs = mset (all_spawned between)"
      "res = fst (emm_calls (emm_post hget hset) (map emm_call_of ps @ emm_call_of dl # map emm_call_of qs @ [emm_call_of rd]) (st, w, es))"
      "gm_get (last results) (s_RID rd) = secure_answer rd (last res)"
    by blast
  note p = spawned_keys [OF q(1)] and b = spawned_keys [OF q(2)]
  have "emm_call_of dl = EDel (s_Key dl)" and "emm_call_of rd = EGet (s_Key dl)"
    using assms(8,10,11) by (simp_all add: emm_call_of_def)
  moreover have "list_all call_ok (map emm_call_of ps @ EDel (s_Key dl) # map emm_call_of qs)"
    by (auto simp: list_all_iff)
  ultimately have "last res = Inr GNil"
    using id_map.emm_del_get_value [OF assms(1,4,2,3,5), of "map emm_call_of ps" "s_Key dl" "map emm_call_of qs"]
      assms(12,13) p b q(3) by simp
  with q(4) assms(10) show ?thesis by (simp add: secure_answer_def read_answer_def)
qed

theorem secure_delete_read_witness:
  "\<exists>st results w'. started None (Some (replicate 32 7)) st \<and>
     secure_batches (emm_post demo_get demo_set)
       ([[sreq ''1'' ''write'' ''user'' ''7'']] @ [sreq ''2'' ''delete'' ''user'' ''''] # [] @ [[sreq ''3'' ''read'' ''user'' '''']])
       (st, [], \<lambda>_. demo_emm_env) results w' \<and>
     gm_get (last results) ''3'' = None"
proof -
  from demo_started obtain st where st: "started None (Some (replicate 32 7)) st" by blast
  let ?b = "[[sreq ''1'' ''write'' ''user'' ''7'']] @ [sreq ''2'' ''delete'' ''user'' ''''] # [] @ [[sreq ''3'' ''read'' ''user'' '''']]"
  from secure_run_exists [of "emm_post demo_get demo_set" ?b "(st, [], \<lambda>_. demo_emm_env)"] obtain results w' where
      r: "secure_batches (emm_post demo_get demo_set) ?b (st, [], \<lambda>_. demo_emm_env) results w'"
    by (elim exE) (rule that)
  with secure_delete_read [OF dict_ids.id_map_axioms, of "[]" None "Some (replicate 32 7)" st "\<lambda>_. demo_emm_env" demo_cipher
      "[[sreq ''1'' ''write'' ''user'' ''7'']]" "sreq ''2'' ''delete'' ''user'' ''''" "[]"
      "sreq ''3'' ''read'' ''user'' ''''" results w'] st
  have "gm_get (last results) ''3'' = None" by (simp add: demo_ids)
  with st r show ?thesis by blast
qed

end
