(* ===== verification/Plaintext.thy ===== *)
theory Plaintext
  imports JSON_Codec Goroutines
begin

text \<open>
  The plaintext server (\<open>mains/plaintext.go\<close>): the same fan-out of goroutines as the secure server,
  with etcd in place of the encrypted multi-map. The etcd client is third-party code: its \<open>Get\<close>
  and \<open>Put\<close> are parameters, on a world they may change; \<open>None\<close> is an error, a timeout among them.
\<close>

section \<open>The code\<close>

record plain_req =
  p_rid :: string
  p_op :: string
  p_key :: string
  p_val :: string

text \<open>\<open>Get\<close> gives the values found, \<open>Put\<close> whether it succeeded.\<close>

record 'w etcd =
  etcd_get :: "string \<Rightarrow> 'w \<Rightarrow> string list option \<times> 'w"
  etcd_put :: "string \<Rightarrow> string \<Rightarrow> 'w \<Rightarrow> bool \<times> 'w"

definition plain_read :: "'w etcd \<Rightarrow> plain_req \<Rightarrow> 'w \<Rightarrow> gval option \<times> 'w" where
  "plain_read cl r w =
     (case etcd_get cl (p_key r) w of
        (None, w') \<Rightarrow> (None, w')
      | (Some kvs, w') \<Rightarrow>
          (Some (if 0 < length kvs
             then (case unmarshal (kvs ! 0) of None \<Rightarrow> GNil | Some decoded \<Rightarrow> decoded)
             else GNil), w'))"

definition plain_write :: "'w etcd \<Rightarrow> plain_req \<Rightarrow> 'w \<Rightarrow> gval option \<times> 'w" where
  "plain_write cl r w =
     (case etcd_put cl (p_key r) (p_val r) w of
        (False, w') \<Rightarrow> (None, w')
      | (True, w') \<Rightarrow> (Some (GStr ''correct_write''), w'))"

definition plain_spawns :: "plain_req \<Rightarrow> bool" where
  "plain_spawns r \<longleftrightarrow> p_key r \<noteq> '''' \<and> to_lower (p_op r) \<in> {''read'', ''write''}"

definition plain_call :: "'w etcd \<Rightarrow> (plain_req, 'w) call" where
  "plain_call cl r w = (if to_lower (p_op r) = ''read'' then plain_read cl r w else plain_write cl r w)"

definition plain_handleRequests ::
  "'w etcd \<Rightarrow> plain_req list \<Rightarrow> 'w \<Rightarrow> (string, gval) gmap \<Rightarrow> 'w \<Rightarrow> bool" where
  "plain_handleRequests cl requests w result w' \<longleftrightarrow>
     fan_out p_rid (plain_call cl) (filter plain_spawns requests) w result w'"

section \<open>The specification\<close>

text \<open>
  What etcd promises: \<open>Get\<close> finds the value last put under the key, or none, and changes nothing;
  \<open>Put\<close> stores; neither fails.
\<close>

definition etcd_laws :: "'w etcd \<Rightarrow> ('w \<Rightarrow> string \<rightharpoonup> string) \<Rightarrow> bool" where
  "etcd_laws cl view \<longleftrightarrow>
     (\<forall>k w. \<exists>w'. etcd_get cl k w = (Some (case view w k of None \<Rightarrow> [] | Some v \<Rightarrow> [v]), w') \<and> view w' = view w) \<and>
     (\<forall>k v w. \<exists>w'. etcd_put cl k v w = (True, w') \<and> view w' = (view w)(k \<mapsto> v))"

definition text_value :: "string \<Rightarrow> gval" where
  "text_value t = (case unmarshal t of None \<Rightarrow> GNil | Some v \<Rightarrow> v)"

text \<open>A request on a map of texts, and a batch of them in one order.\<close>

definition map_request :: "plain_req \<Rightarrow> (string \<rightharpoonup> string) \<Rightarrow> gval \<times> (string \<rightharpoonup> string)" where
  "map_request r m =
     (if to_lower (p_op r) = ''read'' then ((case m (p_key r) of None \<Rightarrow> GNil | Some t \<Rightarrow> text_value t), m)
      else (GStr ''correct_write'', m(p_key r \<mapsto> p_val r)))"

primrec map_requests :: "plain_req list \<Rightarrow> (string \<rightharpoonup> string) \<Rightarrow> (plain_req \<times> gval) list \<times> (string \<rightharpoonup> string)" where
  "map_requests [] m = ([], m)"
| "map_requests (r # rs) m =
     (let (v, m1) = map_request r m; (as, m2) = map_requests rs m1 in ((r, v) # as, m2))"

text \<open>The answers a batch gives an id: those of its requests.\<close>

definition answers_of :: "string \<Rightarrow> (plain_req \<times> gval) list \<Rightarrow> gval list" where
  "answers_of k as = map snd (filter (\<lambda>(r, v). p_rid r = k) as)"

section \<open>The refinement\<close>

lemma plain_call_law:
  assumes "etcd_laws cl view"
  shows "\<exists>w'. plain_call cl r w = (Some (fst (map_request r (view w))), w') \<and> view w' = snd (map_request r (view w))"
proof -
  from assms obtain w1 where g: "etcd_get cl (p_key r) w = (Some (case view w (p_key r) of None \<Rightarrow> [] | Some v \<Rightarrow> [v]), w1)"
      "view w1 = view w"
    unfolding etcd_laws_def by blast
  from assms obtain w2 where p: "etcd_put cl (p_key r) (p_val r) w = (True, w2)" "view w2 = (view w)(p_key r \<mapsto> p_val r)"
    unfolding etcd_laws_def by blast
  show ?thesis
    using g p by (auto simp: plain_call_def plain_read_def plain_write_def map_request_def text_value_def split: option.split)
qed

lemma plain_seq:
  assumes "etcd_laws cl view"
  shows "\<exists>w'. seq_calls (plain_call cl) rs w = (map (Some \<circ> snd) (fst (map_requests rs (view w))), w') \<and>
    view w' = snd (map_requests rs (view w))"
proof (induction rs arbitrary: w)
  case (Cons r rs)
  from plain_call_law [OF assms, of r w] obtain w1 where 1: "plain_call cl r w = (Some (fst (map_request r (view w))), w1)"
      "view w1 = snd (map_request r (view w))"
    by blast
  from Cons.IH [of w1] 1 show ?case by (auto simp: Let_def split_beta)
qed simp

lemma map_requests_fst: "map fst (fst (map_requests rs m)) = rs"
  by (induction rs arbitrary: m) (simp_all add: Let_def split_beta)

lemma answers_to_of:
  "answers_to p_rid k (map fst as) (map (Some \<circ> snd) as) = answers_of k as"
  by (induction as) (auto simp: answers_of_def)

text \<open>A batch is a batch on the map, in some order.\<close>

lemma plain_batch_law:
  assumes "etcd_laws cl view" and "plain_handleRequests cl requests w result w'"
  shows "\<exists>rs. mset rs = mset (filter plain_spawns requests) \<and> view w' = snd (map_requests rs (view w)) \<and>
    (\<forall>k. \<exists>vals. mset vals = mset (answers_of k (fst (map_requests rs (view w)))) \<and>
      gm_get result k = (if vals = [] then None else Some (collapse vals)))"
proof -
  from fan_out_linear [OF assms(2) [unfolded plain_handleRequests_def]] obtain rs where rs:
      "mset rs = mset (filter plain_spawns requests)" "w' = snd (seq_calls (plain_call cl) rs w)"
      "\<forall>k. \<exists>vals. mset vals = mset (answers_to p_rid k rs (fst (seq_calls (plain_call cl) rs w))) \<and>
        gm_get result k = (if vals = [] then None else Some (collapse vals))"
    by blast
  from plain_seq [OF assms(1), of rs w] obtain w1 where q: "seq_calls (plain_call cl) rs w =
      (map (Some \<circ> snd) (fst (map_requests rs (view w))), w1)" "view w1 = snd (map_requests rs (view w))"
    by blast
  have "answers_to p_rid k rs (fst (seq_calls (plain_call cl) rs w)) = answers_of k (fst (map_requests rs (view w)))" for k
    using answers_to_of [of k "fst (map_requests rs (view w))"] by (simp add: map_requests_fst q(1))
  with rs q show ?thesis by (intro exI [of _ rs]) simp
qed

section \<open>Properties\<close>

lemma map_requests_other:
  "k \<notin> p_key ` set rs \<Longrightarrow> snd (map_requests rs m) k = m k"
  by (induction rs arbitrary: m) (auto simp: map_request_def Let_def split_beta)

abbreviation plain_batches ::
  "'w etcd \<Rightarrow> plain_req list list \<Rightarrow> 'w \<Rightarrow> (string, gval) gmap list \<Rightarrow> 'w \<Rightarrow> bool" where
  "plain_batches cl \<equiv> run_batches (plain_handleRequests cl)"

lemma plain_batches_other:
  assumes "etcd_laws cl view"
  shows "plain_batches cl bs w results w' \<Longrightarrow> k \<notin> p_key ` set (filter plain_spawns (concat bs)) \<Longrightarrow> view w' k = view w k"
proof (induction rule: run_batches.induct)
  case (more b w r w1 bs rs w2)
  from plain_batch_law [OF assms more(1)] obtain qs where qs: "mset qs = mset (filter plain_spawns b)"
      "view w1 = snd (map_requests qs (view w))"
    by blast
  then have "set qs = set (filter plain_spawns b)" by (metis set_mset_mset)
  with more.prems have "k \<notin> p_key ` set qs" by auto
  moreover have "k \<notin> p_key ` set (filter plain_spawns (concat bs))" using more.prems by auto
  ultimately show ?case using map_requests_other more.IH qs(2) by simp
qed simp

lemma plain_single:
  assumes "etcd_laws cl view" and "plain_handleRequests cl [r] w result w'" and "plain_spawns r"
  shows "view w' = snd (map_request r (view w)) \<and> gm_get result (p_rid r) = Some (fst (map_request r (view w)))"
proof -
  from plain_batch_law [OF assms(1,2)] assms(3) obtain vals where
      "view w' = snd (map_requests [r] (view w))" "mset vals = mset (answers_of (p_rid r) (fst (map_requests [r] (view w))))"
      "gm_get result (p_rid r) = (if vals = [] then None else Some (collapse vals))"
    by (auto simp del: map_requests.simps)
  moreover from this(2) have "vals = [fst (map_request r (view w))]"
    by (simp add: answers_of_def split_beta Let_def)
  ultimately show ?thesis by (simp add: split_beta Let_def collapse_def)
qed

text \<open>C30: Over an etcd that stores what is put, a batch of the plaintext server refines a map from keys to
  texts: in some order of its requests with a key and a known operation, every read answers the
  JSON value of its key's text (nil if there is none, or it is no JSON), every write stores, and
  each id gets its one answer, or the list of its answers.\<close>

theorem plain_refines_map:
  assumes "etcd_laws cl view" and "plain_handleRequests cl requests w result w'"
  shows "\<exists>rs. mset rs = mset (filter plain_spawns requests) \<and> view w' = snd (map_requests rs (view w)) \<and>
    (\<forall>k. \<exists>vals. mset vals = mset (answers_of k (fst (map_requests rs (view w)))) \<and>
      gm_get result k = (if vals = [] then None else Some (collapse vals)))"
  by (rule plain_batch_law [OF assms])

definition preq_of :: "string \<Rightarrow> string \<Rightarrow> string \<Rightarrow> string \<Rightarrow> plain_req" where
  "preq_of rid op key val = \<lparr>p_rid = rid, p_op = op, p_key = key, p_val = val\<rparr>"

definition demo_etcd :: "(string, string) gmap etcd" where
  "demo_etcd = \<lparr>etcd_get = \<lambda>k m. (Some (case gm_get m k of None \<Rightarrow> [] | Some v \<Rightarrow> [v]), m),
     etcd_put = \<lambda>k v m. (True, gm_set k v m)\<rparr>"

lemma demo_etcd_laws: "etcd_laws demo_etcd gm_get"
  by (simp add: etcd_laws_def demo_etcd_def fun_eq_iff gmap_simps)

lemma demo_preq: "plain_spawns (preq_of rid ''read'' ''k'' v)" "plain_spawns (preq_of rid ''write'' ''k'' v)"
    "to_lower (p_op (preq_of rid ''read'' k v)) = ''read''" "to_lower (p_op (preq_of rid ''write'' k v)) = ''write''"
    "p_rid (preq_of rid op k v) = rid" "p_key (preq_of rid op k v) = k" "p_val (preq_of rid op k v) = v"
proof -
  have "to_lower ''read'' = ''read''" "to_lower ''write'' = ''write''" by code_simp+
  then show "plain_spawns (preq_of rid ''read'' ''k'' v)" "plain_spawns (preq_of rid ''write'' ''k'' v)"
    "to_lower (p_op (preq_of rid ''read'' k v)) = ''read''" "to_lower (p_op (preq_of rid ''write'' k v)) = ''write''"
    "p_rid (preq_of rid op k v) = rid" "p_key (preq_of rid op k v) = k" "p_val (preq_of rid op k v) = v"
    by (simp_all add: plain_spawns_def preq_of_def)
qed

lemma plain_run_exists: "\<exists>result w'. plain_handleRequests cl b w result w'"
  unfolding plain_handleRequests_def by (intro exI) (rule fan_out_in_order)

theorem plain_refines_map_witness:
  "\<exists>result w'. plain_handleRequests demo_etcd [preq_of ''1'' ''write'' ''k'' ''7''] [] result w' \<and>
     gm_get w' = [''k'' \<mapsto> ''7''] \<and> gm_get result ''1'' = Some (GStr ''correct_write'')"
proof -
  let ?b = "[preq_of ''1'' ''write'' ''k'' ''7'']"
  from plain_run_exists [of demo_etcd ?b "[]"] obtain result w' where r: "plain_handleRequests demo_etcd ?b [] result w'"
    by (elim exE) (rule that)
  from plain_refines_map [OF demo_etcd_laws r] obtain rs where rs: "mset rs = mset (filter plain_spawns ?b)"
      "gm_get w' = snd (map_requests rs (gm_get []))"
      "\<forall>k. \<exists>vals. mset vals = mset (answers_of k (fst (map_requests rs (gm_get [])))) \<and>
        gm_get result k = (if vals = [] then None else Some (collapse vals))"
    by blast
  have "rs = ?b" using rs(1) by (simp add: demo_preq)
  have m: "map_request (preq_of ''1'' ''write'' ''k'' ''7'') f = (GStr ''correct_write'', f(''k'' \<mapsto> ''7''))" for f
    by (simp add: map_request_def demo_preq)
  have e: "gm_get [] = Map.empty" by (rule ext) simp
  from rs(3) \<open>rs = ?b\<close> m obtain vals where "mset vals = {#GStr ''correct_write''#}"
      "gm_get result ''1'' = (if vals = [] then None else Some (collapse vals))"
    by (auto simp: answers_of_def demo_preq Let_def split_beta dest!: spec [of _ "''1''"])
  with r rs(2) [unfolded e] \<open>rs = ?b\<close> m show ?thesis
    by (intro exI [of _ result] exI [of _ w']) (simp add: Let_def split_beta collapse_def)
qed

end
