(* ===== verification/EMM_Race.thy ===== *)
theory EMM_Race
  imports EMM_Demo Goroutines
begin

text \<open>
  Concurrent requests at the multi-map's server: \<open>net/http\<close> runs each handler in its own goroutine,
  and \<open>getOrCreateIndex\<close> (\<open>EMM_server.go\<close>, lines 122 to 143) holds \<open>idLock\<close> only while it takes the
  next id. Here its three parts are atomic steps, that the goroutines interleave: the lookup in the
  HIRB, the taking of an id under the lock, and the storing of it in the HIRB.
\<close>

section \<open>The steps\<close>

datatype index_pc =
    Looking string
  | Missed string
  | Taken string "64 word"
  | Got "emm_error + 64 word"

fun index_act :: "'w hirb_get \<Rightarrow> 'w hirb_set \<Rightarrow> (index_pc, 64 word \<times> 'w) automaton" where
  "index_act hget hset (Looking k) (c, w) =
     (case hget k w of
        (Inr (GNum n), w1) \<Rightarrow> Some (Got (Inr (uint64_of n)), (c, w1))
      | (_, w1) \<Rightarrow> Some (Missed k, (c, w1)))"
| "index_act hget hset (Missed k) (c, w) = Some (Taken k c, (c + 1, w))"
| "index_act hget hset (Taken k n) (c, w) =
     (case hset k (GNum (uint n)) w of
        (Inl e, w2) \<Rightarrow> Some (Got (Inl (HirbSetFailed e)), (c, w2))
      | (Inr _, w2) \<Rightarrow> Some (Got (Inr n), (c, w2)))"
| "index_act hget hset (Got r) (c, w) = None"

fun index_left :: "index_pc \<Rightarrow> nat" where
  "index_left (Looking k) = 3"
| "index_left (Missed k) = 2"
| "index_left (Taken k n) = 1"
| "index_left (Got r) = 0"

interpretation index: goroutines "index_act hget hset" index_left for hget hset
proof
  show "index_act hget hset t s = Some (t', s') \<Longrightarrow> index_left t' < index_left t" for hget :: "'w hirb_get" and hset t s t' s'
    by (cases t; cases s) (auto split: prod.splits sum.splits gval.splits)
qed

section \<open>One goroutine alone\<close>

fun iterate :: "('t, 's) automaton \<Rightarrow> nat \<Rightarrow> 't \<times> 's \<Rightarrow> 't \<times> 's" where
  "iterate act 0 c = c"
| "iterate act (Suc n) c = (case act (fst c) (snd c) of None \<Rightarrow> c | Some d \<Rightarrow> iterate act n d)"

lemma alone_step: "par_step act ([t], s) d \<longleftrightarrow> (\<exists>t' s'. act t s = Some (t', s') \<and> d = ([t'], s'))"
  by (auto simp: par_step.simps)

lemma iterate_stuck: "act t s = None \<Longrightarrow> iterate act n (t, s) = (t, s)"
  by (cases n) simp_all

lemma alone_ends:
  assumes "par_steps act c d"
  shows "c = ([t], s) \<Longrightarrow> returned act d \<Longrightarrow> act (fst (iterate act n (t, s))) (snd (iterate act n (t, s))) = None \<Longrightarrow>
    d = ([fst (iterate act n (t, s))], snd (iterate act n (t, s)))"
  using assms
proof (induction arbitrary: t s n rule: converse_rtranclp_induct)
  case base
  then have "act t s = None" by (simp add: returned_def)
  then show ?case using base(1) by (simp add: iterate_stuck)
next
  case (step c e)
  from step(1) step.prems(1) obtain t' s' where e: "act t s = Some (t', s')" "e = ([t'], s')"
    by (auto simp: alone_step)
  show ?case
  proof (cases n)
    case 0
    with step.prems(3) e(1) show ?thesis by simp
  next
    case (Suc m)
    with step.IH [OF e(2) step.prems(2), of m] step.prems(3) e(1) show ?thesis by simp
  qed
qed

lemma index_iterate:
  "getOrCreateIndex hget hset k st w = (r, st', w') \<Longrightarrow>
     iterate (index_act hget hset) 3 (Looking k, (idCounter st, w)) = (Got r, (idCounter st', w'))"
  by (auto simp: getOrCreateIndex_def numeral_3_eq_3 Let_def split: prod.splits sum.splits gval.splits)



section \<open>All goroutines together\<close>

primrec may_take :: "index_pc \<Rightarrow> nat" where
  "may_take (Looking k) = 1"
| "may_take (Missed k) = 1"
| "may_take (Taken k n) = 0"
| "may_take (Got r) = 0"

text \<open>The ids that are in use: stored in the HIRB, or taken and yet to be stored.\<close>

definition stored_below :: "(string \<rightharpoonup> gval) \<Rightarrow> 64 word \<Rightarrow> bool" where
  "stored_below m c \<longleftrightarrow> inj_on m (dom m) \<and> (\<forall>k x. m k = Some x \<longrightarrow> (\<exists>n. x = GNum n \<and> 1 \<le> n \<and> n < uint c))"

fun held_by :: "index_pc \<Rightarrow> 64 word multiset" where
  "held_by (Taken k n) = {#n#}"
| "held_by t = {#}"

definition held :: "index_pc list \<Rightarrow> 64 word multiset" where
  "held ts = sum_list (map held_by ts)"

lemma held_update: "i < length ts \<Longrightarrow> held (ts[i := t]) + held_by (ts ! i) = held ts + held_by t"
  unfolding held_def by (rule sum_list_update_add)

lemma held_start: "held (map Looking keys) = {#}"
  by (induction keys) (simp_all add: held_def)

definition taken_fresh :: "(string \<rightharpoonup> gval) \<Rightarrow> 64 word \<Rightarrow> index_pc list \<Rightarrow> bool" where
  "taken_fresh m c ts \<longleftrightarrow> (\<forall>n \<in># held ts. 1 \<le> uint n \<and> uint n < uint c \<and> GNum (uint n) \<notin> ran m) \<and>
     (\<forall>n. count (held ts) n \<le> 1)"

definition room :: "64 word \<Rightarrow> index_pc list \<Rightarrow> bool" where
  "room c ts \<longleftrightarrow> 1 \<le> uint c \<and> uint c + int (sum_list (map may_take ts)) \<le> 2 ^ 31"

lemma stored_below_put:
  assumes "stored_below m c" and "1 \<le> n" and "n < uint c" and "GNum n \<notin> ran m"
  shows "stored_below (m(k \<mapsto> GNum n)) c"
  unfolding stored_below_def
proof
  have fresh: "m x \<noteq> Some (GNum n)" for x using assms(4) by (auto simp: ran_def)
  show "inj_on (m(k \<mapsto> GNum n)) (dom (m(k \<mapsto> GNum n)))"
  proof (rule inj_onI)
    fix x y
    assume "x \<in> dom (m(k \<mapsto> GNum n))" "y \<in> dom (m(k \<mapsto> GNum n))" "(m(k \<mapsto> GNum n)) x = (m(k \<mapsto> GNum n)) y"
    then show "x = y"
      using assms(1) fresh [of x] fresh [of y] by (auto simp: stored_below_def inj_on_def split: if_splits)
  qed
  show "\<forall>k' x. (m(k \<mapsto> GNum n)) k' = Some x \<longrightarrow> (\<exists>n. x = GNum n \<and> 1 \<le> n \<and> n < uint c)"
    using assms(1-3) by (auto simp: stored_below_def)
qed

lemma take_id:
  assumes "stored_below m c" and "taken_fresh m c ts" and "room c ts" and i: "i < length ts" "ts ! i = Missed k"
  shows "stored_below m (c + 1)" and "taken_fresh m (c + 1) (ts[i := Taken k c])" and "room (c + 1) (ts[i := Taken k c])"
proof -
  have "may_take (ts ! i) = 1" using i(2) by simp
  with sum_list_update_add [OF i(1), of may_take "Taken k c"]
  have sum: "Suc (sum_list (map may_take (ts[i := Taken k c]))) = sum_list (map may_take ts)" by simp
  with assms(3) have "uint c < 2 ^ 31" by (simp add: room_def)
  then have c1: "uint (c + 1) = uint c + 1"
    by (simp add: uint_word_ariths mod_pos_pos_trivial)
  show "stored_below m (c + 1)" using assms(1) c1 by (fastforce simp: stored_below_def)
  show "room (c + 1) (ts[i := Taken k c])" using assms(3) c1 sum by (simp add: room_def)
  have "held (ts[i := Taken k c]) = held ts + {#c#}" using held_update [OF i(1), of "Taken k c"] i(2) by simp
  moreover have "GNum (uint c) \<notin> ran m" using assms(1) by (auto simp: stored_below_def ran_def)
  moreover have "c \<notin># held ts" using assms(2) by (auto simp: taken_fresh_def)
  ultimately show "taken_fresh m (c + 1) (ts[i := Taken k c])"
    using assms(2,3) c1 by (auto simp: taken_fresh_def room_def not_in_iff)
qed

context id_map
begin

definition index_inv :: "index_pc list \<times> (64 word \<times> 'w) \<Rightarrow> bool" where
  "index_inv s \<longleftrightarrow> (let (ts, c, w) = s in
     ok w \<and> stored_below (ids w) c \<and> taken_fresh (ids w) c ts \<and> room c ts)"

lemma room_leave:
  assumes "room c ts" and "i < length ts" and "may_take t' \<le> may_take (ts ! i)"
  shows "room c (ts[i := t'])"
  using assms(1,3) sum_list_update_add [OF assms(2), of may_take t'] by (simp add: room_def)

lemma index_inv_step:
  assumes "index_inv (ts, c, w)" and i: "i < length ts" and act: "index_act hget hset (ts ! i) (c, w) = Some (t', c', w')"
  shows "index_inv (ts[i := t'], c', w')"
proof -
  from assms(1) have inv: "ok w" "stored_below (ids w) c" "taken_fresh (ids w) c ts" "room c ts"
    by (simp_all add: index_inv_def)
  show ?thesis
  proof (cases "ts ! i")
    case (Looking k)
    from hget_law [OF inv(1), of k] obtain w1 where w1: "hget k w = (Inr (case ids w k of None \<Rightarrow> GNil | Some v \<Rightarrow> v), w1)"
        "ok w1" "ids w1 = ids w"
      by blast
    then have "c' = c" "w' = w1" and t': "held_by t' = {#}" "may_take t' \<le> 1"
      using act Looking by (auto split: gval.splits)
    moreover have "held (ts[i := t']) = held ts" using held_update [OF i, of t'] t'(1) Looking by simp
    ultimately show ?thesis
      using inv w1(2,3) room_leave [OF inv(4) i, of t'] Looking by (simp add: index_inv_def taken_fresh_def)
  next
    case (Missed k)
    with act inv take_id [OF inv(2-4) i Missed] show ?thesis by (auto simp: index_inv_def)
  next
    case (Taken k n)
    then have held: "held ts = held (ts[i := Got (Inr n)]) + {#n#}" using held_update [OF i, of "Got (Inr n)"] by simp
    then have n: "1 \<le> uint n" "uint n < uint c" "GNum (uint n) \<notin> ran (ids w)"
      using inv(3) by (auto simp: taken_fresh_def)
    have "uint n \<le> 2 ^ 53" using n(2) inv(4) by (simp add: room_def)
    with n(1) have "storable (GNum (uint n))" by (intro storable_id) simp_all
    from hset_law [OF inv(1) this, of k] obtain w2 where w2: "hset k (GNum (uint n)) w = (Inr (), w2)" "ok w2"
        "ids w2 = (ids w)(k \<mapsto> GNum (uint n))"
      by blast
    then have e: "c' = c" "w' = w2" "t' = Got (Inr n)" using act Taken by auto
    have once: "count (held (ts[i := Got (Inr n)])) m \<le> (if m = n then 0 else 1)" for m
      using inv(3) held by (auto simp: taken_fresh_def dest!: spec [of _ m])
    have "GNum (uint m) \<notin> ran (ids w2)" if "m \<in># held (ts[i := Got (Inr n)])" for m
    proof -
      have "m \<noteq> n" using once [of m] that by (auto simp: count_eq_zero_iff)
      moreover have "GNum (uint m) \<notin> ran (ids w)" using inv(3) held that by (auto simp: taken_fresh_def)
      ultimately show ?thesis by (auto simp: w2(3) ran_def word_uint_eq_iff split: if_splits)
    qed
    moreover have "count (held (ts[i := Got (Inr n)])) m \<le> 1" for m using once [of m] by (simp split: if_splits)
    ultimately have "taken_fresh (ids w2) c (ts[i := Got (Inr n)])"
      using inv(3) held by (auto simp: taken_fresh_def)
    moreover have "room c (ts[i := Got (Inr n)])" using room_leave [OF inv(4) i, of "Got (Inr n)"] by simp
    ultimately show ?thesis
      using w2(2,3) stored_below_put [OF inv(2) n] e by (simp add: index_inv_def)
  next
    case (Got r)
    with act show ?thesis by simp
  qed
qed

lemma index_inv_steps: "par_steps (index_act hget hset) s d \<Longrightarrow> index_inv s \<Longrightarrow> index_inv d"
proof (induction rule: rtranclp_induct)
  case (step d e)
  from step(2) show ?case
    by cases (use step in \<open>auto intro: index_inv_step\<close>)
qed

lemma index_inv_start:
  assumes "ok w" and "ids w = Map.empty" and "length keys < 2 ^ 31"
  shows "index_inv (map Looking keys, 1, w)"
proof -
  have "sum_list (map may_take (map Looking keys)) = length keys" by (induction keys) simp_all
  then show ?thesis
    using assms by (simp add: index_inv_def stored_below_def taken_fresh_def room_def held_start)
qed

end

text \<open>C32: The lock does its work between different keys: however the goroutines of any number of requests
  interleave, from an empty HIRB, no two keys are ever stored with the same index, every stored
  index is below the counter, and two goroutines never hold the same id.\<close>

theorem index_race_unique:
  assumes "id_map hget hset ids ok storable" and "ok w" and "ids w = Map.empty" and "length keys < 2 ^ 31"
    and "par_steps (index_act hget hset) (map Looking keys, 1, w) (ts, c, w')"
  shows "inj_on (ids w') (dom (ids w')) \<and>
    (\<forall>k x. ids w' k = Some x \<longrightarrow> (\<exists>n. x = GNum n \<and> 1 \<le> n \<and> n < uint c)) \<and>
    (\<forall>n. count (held ts) n \<le> 1)"
proof -
  have "id_map.index_inv ids ok (ts, c, w')"
    by (rule id_map.index_inv_steps [OF assms(1) assms(5) id_map.index_inv_start [OF assms(1-4)]])
  then show ?thesis
    by (simp add: id_map.index_inv_def [OF assms(1)] stored_below_def taken_fresh_def)
qed

theorem index_race_unique_witness:
  "\<exists>ts c w'. par_steps (index_act demo_get demo_set) (map Looking [''a'', ''b''], 1, []) (ts, c, w') \<and>
     returned (index_act demo_get demo_set) (ts, c, w') \<and>
     inj_on (\<lambda>k. gm_get w' (GStr k)) (dom (\<lambda>k. gm_get w' (GStr k)))"
proof -
  from index.completes [of demo_get demo_set "(map Looking [''a'', ''b''], 1, [])"] obtain ts c w' where
      d: "par_steps (index_act demo_get demo_set) (map Looking [''a'', ''b''], 1, []) (ts, c, w')"
      "returned (index_act demo_get demo_set) (ts, c, w')"
    by (metis prod_cases3)
  from index_race_unique [OF dict_ids.id_map_axioms _ _ _ d(1)]
  have "inj_on (\<lambda>k. gm_get w' (GStr k)) (dom (\<lambda>k. gm_get w' (GStr k)))" by (simp add: demo_ids)
  with d show ?thesis by blast
qed

context id_map
begin

lemma look_misses:
  assumes "ok w" and "ids w k = None" and "i < length ts" and "ts ! i = Looking k"
  shows "\<exists>w1. par_step (index_act hget hset) (ts, c, w) (ts[i := Missed k], c, w1) \<and> ok w1 \<and> ids w1 = ids w"
proof -
  from hget_law [OF assms(1), of k] assms(2) obtain w1 where "hget k w = (Inr GNil, w1)" "ok w1" "ids w1 = ids w" by auto
  then show ?thesis using moves [OF assms(3), of "index_act hget hset" "(c, w)" "Missed k" "(c, w1)"] assms(4) by auto
qed

lemma taken_stores:
  assumes "ok w" and "uint n \<le> 2 ^ 53" and "i < length ts" and "ts ! i = Taken k n"
  shows "\<exists>w1. par_step (index_act hget hset) (ts, c, w) (ts[i := Got (Inr n)], c, w1) \<and> ok w1 \<and>
    ids w1 = (ids w)(k \<mapsto> GNum (uint n))"
proof -
  from assms(2) have "storable (GNum (uint n))" by (intro storable_id) simp_all
  from hset_law [OF assms(1) this, of k] obtain w1 where "hset k (GNum (uint n)) w = (Inr (), w1)" "ok w1"
      "ids w1 = (ids w)(k \<mapsto> GNum (uint n))"
    by blast
  then show ?thesis using moves [OF assms(3), of "index_act hget hset" "(c, w)" "Got (Inr n)" "(c, w1)"] assms(4) by auto
qed

end

lemma missed_takes: "i < length ts \<Longrightarrow> ts ! i = Missed k \<Longrightarrow>
    par_step (index_act hget hset) (ts, c, w) (ts[i := Taken k c], c + 1, w)"
  using moves [of i ts "index_act hget hset" "(c, w)" "Taken k c" "(c + 1, w)"] by simp

text \<open>C33: The lock does not protect a single key: two requests that name the same new key can both miss
  it in the HIRB, take the ids 1 and 2 and return them, while the HIRB keeps 2. What the first
  one then writes to block 1 is answered ok, and no later request of the key will look there.\<close>

theorem index_race_splits:
  assumes "id_map hget hset ids ok storable" and "ok w" and "ids w k = None"
  shows "\<exists>w'. par_steps (index_act hget hset) ([Looking k, Looking k], 1, w) ([Got (Inr 1), Got (Inr 2)], 3, w') \<and>
    ok w' \<and> ids w' k = Some (GNum 2)"
proof -
  let ?step = "par_step (index_act hget hset)"
  obtain w1 where 1: "?step ([Looking k, Looking k], 1, w) ([Missed k, Looking k], 1, w1)" "ok w1" "ids w1 = ids w"
    using id_map.look_misses [OF assms, of 0 "[Looking k, Looking k]" 1] by auto
  have "ids w1 k = None" using 1(3) assms(3) by simp
  then obtain w2 where 2: "?step ([Missed k, Looking k], 1, w1) ([Missed k, Missed k], 1, w2)" "ok w2" "ids w2 = ids w"
    using id_map.look_misses [OF assms(1) 1(2), of k 1 "[Missed k, Looking k]" 1] 1(3) by auto
  have 3: "?step ([Missed k, Missed k], 1, w2) ([Taken k 1, Missed k], 2, w2)"
    using missed_takes [of 0 "[Missed k, Missed k]" k hget hset 1 w2] by simp
  have 4: "?step ([Taken k 1, Missed k], 2, w2) ([Taken k 1, Taken k 2], 3, w2)"
    using missed_takes [of 1 "[Taken k 1, Missed k]" k hget hset 2 w2] by simp
  obtain w3 where 5: "?step ([Taken k 1, Taken k 2], 3, w2) ([Got (Inr 1), Taken k 2], 3, w3)" "ok w3"
    using id_map.taken_stores [OF assms(1) 2(2), of 1 0 "[Taken k 1, Taken k 2]" k 3] by auto
  obtain w4 where 6: "?step ([Got (Inr 1), Taken k 2], 3, w3) ([Got (Inr 1), Got (Inr 2)], 3, w4)" "ok w4"
      "ids w4 = (ids w3)(k \<mapsto> GNum 2)"
    using id_map.taken_stores [OF assms(1) 5(2), of 2 1 "[Got (Inr 1), Taken k 2]" k 3] by auto
  have "par_steps (index_act hget hset) ([Looking k, Looking k], 1, w) ([Got (Inr 1), Got (Inr 2)], 3, w4)"
    using 1(1) 2(1) 3 4 5(1) 6(1) by (meson converse_rtranclp_into_rtranclp rtranclp.rtrancl_refl)
  with 6(2,3) show ?thesis by auto
qed

theorem index_race_splits_witness:
  "\<exists>w'. par_steps (index_act demo_get demo_set) ([Looking ''a'', Looking ''a''], 1, []) ([Got (Inr 1), Got (Inr 2)], 3, w') \<and>
     gm_get w' (GStr ''a'') = Some (GNum 2)"
  using index_race_splits [OF dict_ids.id_map_axioms, of "[]" "''a''"] by (auto simp: demo_ids)



end
