(* ===== verification/EMM_Insecure.thy ===== *)
theory EMM_Insecure
  imports EMM_Demo
begin

text \<open>
  The multi-map as a library (\<open>libs/emm/EMM_insecure_client.go\<close>), that the benchmark runs: the client
  holds the ORAM and the key itself, takes ids from the package's global \<open>idCounter\<close> (its own field
  of that name is never used), and after each operation writes 4096 bytes to a temporary file.

  Parameters are those of the server, and per call the clock and whether the file can be created.
  A file is kept as its directory, its name and its bytes; later calls may overwrite it.
\<close>

section \<open>The client\<close>

record insecure_client =
  c_oram :: ORAM
  c_symKey :: "byte list"
  c_idCounter :: "64 word"
  c_tempDir :: string

definition logCap :: "32 word" where
  "logCap = 6"

definition newLoadOrGenerateKey ::
  "byte list option \<Rightarrow> byte list option \<Rightarrow> bool \<Rightarrow> string + byte list \<times> byte list option" where
  "newLoadOrGenerateKey keyFile newKey canWrite =
     (case keyFile of
        Some data \<Rightarrow>
          if length data = 32 then Inr (data, keyFile)
          else (case newKey of
            None \<Rightarrow> Inl ''ERROR 0''
          | Some k \<Rightarrow> if canWrite then Inr (k, Some k) else Inl ''ERROR 1'')
      | None \<Rightarrow> (case newKey of
            None \<Rightarrow> Inl ''ERROR 0''
          | Some k \<Rightarrow> if canWrite then Inr (k, Some k) else Inl ''ERROR 1''))"

text \<open>\<open>hasData\<close>: \<open>/mnt/data\<close> exists; \<open>sysTemp\<close> is \<open>os.TempDir()\<close>; \<open>canMake\<close>: \<open>os.MkdirAll\<close> succeeds.\<close>

definition NewClient ::
  "byte list option \<Rightarrow> byte list option \<Rightarrow> bool \<Rightarrow> bool \<Rightarrow> string \<Rightarrow> bool \<Rightarrow> start_error + insecure_client \<times> byte list option" where
  "NewClient keyFile newKey canWrite hasData sysTemp canMake =
     (case newLoadOrGenerateKey keyFile newKey canWrite of
        Inl m \<Rightarrow> Inl (Fatal m)
      | Inr (key, kf) \<Rightarrow>
          (let tempDir = (if hasData then ''/mnt/data'' else sysTemp) in
           if \<not> canMake then Inl (Fatal ''Could not create temp directory'')
           else (case ORAM_Init logCap blockSize zBuckets of
             Inl f \<Rightarrow> Inl (InitFault f)
           | Inr orm \<Rightarrow>
               Inr (\<lparr>c_oram = orm, c_symKey = key, c_idCounter = 1, c_tempDir = tempDir\<rparr>, kf))))"

definition newEncrypt ::
  "block_cipher \<Rightarrow> insecure_client \<Rightarrow> byte list option \<Rightarrow> byte list \<Rightarrow> emm_error + byte list" where
  "newEncrypt A c rand data =
     (if \<not> aes_key_size (c_symKey c) then Inl BadKeySize
      else (case rand of
        None \<Rightarrow> Inl RandFailed
      | Some nonce \<Rightarrow> Inr (gcm_seal A (c_symKey c) nonce nonce data)))"

definition newDecrypt :: "block_cipher \<Rightarrow> insecure_client \<Rightarrow> byte list \<Rightarrow> emm_error + byte list" where
  "newDecrypt A c ciphertext =
     (if \<not> aes_key_size (c_symKey c) then Inl BadKeySize
      else if length ciphertext < nonce_size then Inl ShortCiphertext
      else (case gcm_open A (c_symKey c) (take nonce_size ciphertext) (drop nonce_size ciphertext) of
        None \<Rightarrow> Inl OpenFailed
      | Some plain \<Rightarrow> Inr plain))"

section \<open>The process: the client, the global counter, the temporary files\<close>

record temp_file =
  tf_dir :: string
  tf_name :: string
  tf_bytes :: "byte list"

record insecure_state =
  i_client :: insecure_client
  i_counter :: "64 word"
  i_files :: "temp_file list"

record insecure_env = emm_env +
  unix_nano :: int
  can_create :: bool

definition newGetOrCreateIndex ::
  "'w hirb_get \<Rightarrow> 'w hirb_set \<Rightarrow> string \<Rightarrow> insecure_state \<Rightarrow> 'w \<Rightarrow> (emm_error + 64 word) \<times> insecure_state \<times> 'w" where
  "newGetOrCreateIndex hget hset key s w =
     (case hget key w of
        (Inr (GNum n), w1) \<Rightarrow> (Inr (uint64_of n), s, w1)
      | (_, w1) \<Rightarrow>
          (let newID = i_counter s; s1 = s\<lparr>i_counter := i_counter s + 1\<rparr> in
           case hset key (GNum (uint newID)) w1 of
             (Inl e, w2) \<Rightarrow> (Inl (HirbSetFailed e), s1, w2)
           | (Inr _, w2) \<Rightarrow> (Inr newID, s1, w2)))"

text \<open>\<open>copy(pad, data)\<close> into 4096 zero bytes, written to the file if it can be created.\<close>

definition pad_4096 :: "byte list \<Rightarrow> byte list" where
  "pad_4096 data = take 4096 data @ replicate (4096 - length data) 0"

definition write_temp :: "insecure_env \<Rightarrow> string \<Rightarrow> string \<Rightarrow> byte list \<Rightarrow> insecure_state \<Rightarrow> insecure_state" where
  "write_temp E prefix key data s =
     (if can_create E
      then s\<lparr>i_files := i_files s @
        [\<lparr>tf_dir = c_tempDir (i_client s), tf_name = prefix @ show_int (unix_nano E) @ ''_'' @ key, tf_bytes = pad_4096 data\<rparr>]\<rparr>
      else s)"

definition with_oram :: "insecure_state \<Rightarrow> ORAM \<Rightarrow> insecure_state" where
  "with_oram s orm = s\<lparr>i_client := (i_client s)\<lparr>c_oram := orm\<rparr>\<rparr>"

text \<open>The error, or \<open>None\<close> for nil.\<close>

definition insecure_Put ::
  "'w hirb_get \<Rightarrow> 'w hirb_set \<Rightarrow> insecure_env \<Rightarrow> string \<Rightarrow> string \<Rightarrow> insecure_state \<Rightarrow> 'w
     \<Rightarrow> fault + emm_error option \<times> insecure_state \<times> 'w" where
  "insecure_Put hget hset E key val s w =
     (case newGetOrCreateIndex hget hset key s w of
        (Inl e, s1, w1) \<Rightarrow> Inr (Some e, s1, w1)
      | (Inr idx, s1, w1) \<Rightarrow>
          (let raw = marshal (GArr [GStr val]) in
           case newEncrypt (aes E) (i_client s1) (rnd E) (bytes_of raw) of
             Inl e \<Rightarrow> Inr (Some e, s1, w1)
           | Inr ciphertext \<Rightarrow>
               map_sum id (\<lambda>orm. (None, write_temp E ''put_'' key ciphertext (with_oram s1 orm), w1))
                 (ORAM_Set (mem_behind E) (c_oram (i_client s1)) idx ciphertext)))"

text \<open>Decoding into a \<open>[]string\<close>: null is the nil slice, a null element the empty string.\<close>

definition decode_strings :: "string \<Rightarrow> string list option" where
  "decode_strings s = (case unmarshal s of
     Some GNil \<Rightarrow> Some []
   | Some (GArr vs) \<Rightarrow>
       (if list_all (\<lambda>v. case v of GStr _ \<Rightarrow> True | GNil \<Rightarrow> True | _ \<Rightarrow> False) vs
        then Some (map (\<lambda>v. case v of GStr t \<Rightarrow> t | _ \<Rightarrow> '''') vs) else None)
   | _ \<Rightarrow> None)"

definition insecure_Get ::
  "'w hirb_get \<Rightarrow> 'w hirb_set \<Rightarrow> insecure_env \<Rightarrow> string \<Rightarrow> insecure_state \<Rightarrow> 'w
     \<Rightarrow> fault + (emm_error + string list) \<times> insecure_state \<times> 'w" where
  "insecure_Get hget hset E key s w =
     (case newGetOrCreateIndex hget hset key s w of
        (Inl e, s1, w1) \<Rightarrow> Inr (Inl e, s1, w1)
      | (Inr idx, s1, w1) \<Rightarrow>
          (case ORAM_Get (mem_behind E) (c_oram (i_client s1)) idx (uint blockSize) of
             Inl f \<Rightarrow> Inl f
           | Inr bs \<Rightarrow>
               (case newDecrypt (aes E) (i_client s1) (cut_zero (case bs of None \<Rightarrow> [] | Some b \<Rightarrow> b)) of
                  Inl e \<Rightarrow> Inr (Inr [], s1, w1)
                | Inr plaintext \<Rightarrow>
                    (case decode_strings (string_of plaintext) of
                       None \<Rightarrow> Inr (Inr [], s1, w1)
                     | Some result \<Rightarrow> Inr (Inr result, write_temp E ''get_'' key plaintext s1, w1)))))"

definition insecure_Delete ::
  "'w hirb_get \<Rightarrow> 'w hirb_set \<Rightarrow> insecure_env \<Rightarrow> string \<Rightarrow> insecure_state \<Rightarrow> 'w
     \<Rightarrow> fault + emm_error option \<times> insecure_state \<times> 'w" where
  "insecure_Delete hget hset E key s w =
     (case newGetOrCreateIndex hget hset key s w of
        (Inl e, s1, w1) \<Rightarrow> Inr (Some e, s1, w1)
      | (Inr idx, s1, w1) \<Rightarrow>
          map_sum id (\<lambda>orm. (None, write_temp E ''delete_'' key (bytes_of key) (with_oram s1 orm), w1))
            (ORAM_Delete (mem_behind E) (c_oram (i_client s1)) idx blockSize))"

section \<open>The library against the server\<close>

datatype insecure_call = IPut string string | IGet string | IDel string

datatype insecure_result = Done | Values "string list" | Failure emm_error

definition done_or :: "emm_error option \<Rightarrow> insecure_result" where
  "done_or e = (case e of None \<Rightarrow> Done | Some x \<Rightarrow> Failure x)"

primrec insecure_do ::
  "'w hirb_get \<Rightarrow> 'w hirb_set \<Rightarrow> insecure_env \<Rightarrow> insecure_call \<Rightarrow> insecure_state \<Rightarrow> 'w
     \<Rightarrow> fault + insecure_result \<times> insecure_state \<times> 'w" where
  "insecure_do hget hset E (IPut k v) s w = map_sum id (map_prod done_or id) (insecure_Put hget hset E k v s w)"
| "insecure_do hget hset E (IGet k) s w =
     map_sum id (map_prod (\<lambda>r. case r of Inl e \<Rightarrow> Failure e | Inr vs \<Rightarrow> Values vs) id) (insecure_Get hget hset E k s w)"
| "insecure_do hget hset E (IDel k) s w = map_sum id (map_prod done_or id) (insecure_Delete hget hset E k s w)"

primrec insecure_run ::
  "'w hirb_get \<Rightarrow> 'w hirb_set \<Rightarrow> (insecure_env \<times> insecure_call) list \<Rightarrow> insecure_state \<Rightarrow> 'w
     \<Rightarrow> fault + insecure_result list \<times> insecure_state \<times> 'w" where
  "insecure_run hget hset [] s w = Inr ([], s, w)"
| "insecure_run hget hset (q # qs) s w =
     (case insecure_do hget hset (fst q) (snd q) s w of
        Inl f \<Rightarrow> Inl f
      | Inr (r, s1, w1) \<Rightarrow> map_sum id (\<lambda>(rs, s2, w2). (r # rs, s2, w2)) (insecure_run hget hset qs s1 w1))"

text \<open>The server in the state of the library, and the request for a call.\<close>

definition server_of :: "insecure_state \<Rightarrow> emm_state" where
  "server_of s = \<lparr>oramStore = Some (c_oram (i_client s)), symKey = c_symKey (i_client s), idCounter = i_counter s\<rparr>"

primrec insecure_request :: "insecure_call \<Rightarrow> string" where
  "insecure_request (IPut k v) = emm_body ''set'' k (GArr [GStr v])"
| "insecure_request (IGet k) = emm_body ''get'' k GNil"
| "insecure_request (IDel k) = emm_body ''del'' k GNil"

definition as_input :: "insecure_env \<times> insecure_call \<Rightarrow> emm_env \<times> string option" where
  "as_input q = (emm_env.truncate (fst q), Some (insecure_request (snd q)))"

text \<open>What a decoded value is as a slice of strings.\<close>

definition strings_of :: "gval \<Rightarrow> string list" where
  "strings_of v = (case v of
     GArr vs \<Rightarrow>
       (if list_all (\<lambda>v. case v of GStr _ \<Rightarrow> True | GNil \<Rightarrow> True | _ \<Rightarrow> False) vs
        then map (\<lambda>v. case v of GStr t \<Rightarrow> t | _ \<Rightarrow> '''') vs else [])
   | _ \<Rightarrow> [])"

fun same_result :: "(emm_error \<Rightarrow> string) \<Rightarrow> insecure_call \<Rightarrow> insecure_result \<Rightarrow> http_reply \<Rightarrow> bool" where
  "same_result msg (IPut k v) Done r \<longleftrightarrow> r = encode_response (GStr ''ok'')"
| "same_result msg (IDel k) Done r \<longleftrightarrow> r = encode_response (GStr ''deleted'')"
| "same_result msg (IGet k) (Values vs) r \<longleftrightarrow> (\<exists>v. r = encode_response v \<and> vs = strings_of v)"
| "same_result msg c (Failure e) r \<longleftrightarrow>
     (\<exists>m. e = HirbSetFailed m) \<and> r = http_error (''HIRB failure: '' @ msg e) 500 \<or>
     e \<in> {BadKeySize, RandFailed} \<and> (\<exists>k v. c = IPut k v) \<and> r = http_error ''Encryption failed'' 500"
| "same_result msg c res r \<longleftrightarrow> False"

definition same_outcome :: "insecure_env \<Rightarrow> insecure_call \<Rightarrow> fault + insecure_result \<times> insecure_state \<times> 'w
    \<Rightarrow> fault + http_reply \<times> emm_state \<times> 'w \<Rightarrow> bool" where
  "same_outcome E c a b \<longleftrightarrow> (case (a, b) of
     (Inl f, Inl g) \<Rightarrow> f = g
   | (Inr (res, s, w), Inr (r, st, w')) \<Rightarrow> st = server_of s \<and> w' = w \<and> same_result (err_text E) c res r
   | _ \<Rightarrow> False)"

lemma truncate_simps [simp]:
  "aes (emm_env.truncate E) = aes E" "rnd (emm_env.truncate E) = rnd E"
  "mem_behind (emm_env.truncate E) = mem_behind E" "err_text (emm_env.truncate E) = err_text E"
  by (simp_all add: emm_env.truncate_def)

lemma server_of_simps [simp]:
  "oramStore (server_of s) = Some (c_oram (i_client s))" "symKey (server_of s) = c_symKey (i_client s)"
  "idCounter (server_of s) = i_counter s"
  "(server_of s)\<lparr>oramStore := Some orm\<rparr> = server_of (with_oram s orm)"
  by (simp_all add: server_of_def with_oram_def)

lemma server_of_temp [simp]: "server_of (write_temp E p k d s) = server_of s"
  by (simp add: server_of_def write_temp_def)

lemma newEncrypt_eq: "newEncrypt A c = encrypt A (c_symKey c)"
  by (rule ext)+ (simp add: newEncrypt_def encrypt_def)

lemma newDecrypt_eq: "newDecrypt A c = decrypt A (c_symKey c)"
  by (rule ext) (simp add: newDecrypt_def decrypt_def)

lemma newLoad_eq: "newLoadOrGenerateKey = loadOrGenerateKey"
  by (intro ext) (simp add: newLoadOrGenerateKey_def loadOrGenerateKey_def)

lemma index_eq:
  "getOrCreateIndex hget hset k (server_of s) w =
     (case newGetOrCreateIndex hget hset k s w of (r, s1, w1) \<Rightarrow> (r, server_of s1, w1))"
  by (auto simp: getOrCreateIndex_def newGetOrCreateIndex_def server_of_def Let_def split: prod.split sum.split gval.split)

lemma index_errors:
  "newGetOrCreateIndex hget hset k s w = (Inl e, s1, w1) \<Longrightarrow> \<exists>m. e = HirbSetFailed m"
  by (auto simp: newGetOrCreateIndex_def Let_def split: prod.splits sum.splits gval.splits)

lemma decode_strings_read:
  "decrypt A key ct = Inr p \<Longrightarrow> strings_of (case unmarshal (string_of p) of None \<Rightarrow> GNil | Some v \<Rightarrow> v) =
     (case decode_strings (string_of p) of None \<Rightarrow> [] | Some vs \<Rightarrow> vs)"
  by (auto simp: strings_of_def decode_strings_def split: option.splits gval.splits)

lemma encrypt_errors: "encrypt A key rand d = Inl e \<Longrightarrow> e \<in> {BadKeySize, RandFailed}"
  by (auto simp: encrypt_def split: if_splits option.splits)

lemma insecure_step:
  "same_outcome E c (insecure_do hget hset E c s w)
     (HandleEMMRequest hget hset (emm_env.truncate E) (Some (insecure_request c)) (server_of s) w)"
proof -
  obtain k where k: "c = IGet k \<or> (\<exists>v. c = IPut k v) \<or> c = IDel k" by (cases c) auto
  obtain ri s1 w1 where i: "newGetOrCreateIndex hget hset k s w = (ri, s1, w1)" by (metis prod_cases3)
  show ?thesis
  proof (cases ri)
    case (Inl e)
    with i index_errors [of hget hset k s w e s1 w1] obtain m where "e = HirbSetFailed m" by auto
    with Inl i k show ?thesis
      by (auto simp: same_outcome_def HandleEMMRequest_def decode_emm_body request_of_def index_eq insecure_Put_def
          insecure_Get_def insecure_Delete_def done_or_def)
  next
    case (Inr idx)
    from k consider "c = IGet k" | v where "c = IPut k v" | "c = IDel k" by blast
    then show ?thesis
    proof cases
      case 1
      show ?thesis
      proof (cases "ORAM_Get (mem_behind E) (c_oram (i_client s1)) idx (uint blockSize)")
        case (Inl f)
        with 1 Inr i show ?thesis
          by (simp add: same_outcome_def HandleEMMRequest_def decode_emm_body request_of_def index_eq insecure_Get_def emm_op_def)
      next
        case (Inr bs)
        with 1 \<open>ri = Inr idx\<close> i show ?thesis
          using decode_strings_read [of "aes E" "c_symKey (i_client s1)" "cut_zero (case bs of None \<Rightarrow> [] | Some b \<Rightarrow> b)"]
          by (auto simp: same_outcome_def HandleEMMRequest_def decode_emm_body request_of_def index_eq insecure_Get_def
              emm_op_def newDecrypt_eq read_block_def strings_of_def split: sum.split option.split)
      qed
    next
      case (2 v)
      let ?enc = "encrypt (aes E) (c_symKey (i_client s1)) (rnd E) (bytes_of (marshal (GArr [GStr v])))"
      note put = same_outcome_def HandleEMMRequest_def decode_emm_body request_of_def index_eq insecure_Put_def
        emm_op_def newEncrypt_eq done_or_def
      show ?thesis
      proof (cases ?enc)
        case (Inl e)
        with encrypt_errors [OF Inl] 2 \<open>ri = Inr idx\<close> i show ?thesis by (simp add: put)
      next
        case (Inr ct)
        with 2 \<open>ri = Inr idx\<close> i show ?thesis
          by (cases "ORAM_Set (mem_behind E) (c_oram (i_client s1)) idx ct") (simp_all add: put)
      qed
    next
      case 3
      then show ?thesis
        using Inr i
        by (cases "ORAM_Delete (mem_behind E) (c_oram (i_client s1)) idx blockSize")
          (auto simp: same_outcome_def HandleEMMRequest_def decode_emm_body request_of_def index_eq insecure_Delete_def
            emm_op_def done_or_def)
    qed
  qed
qed

section \<open>Properties\<close>

definition same_run :: "(insecure_env \<times> insecure_call) list \<Rightarrow> fault + insecure_result list \<times> insecure_state \<times> 'w
    \<Rightarrow> fault + http_reply list \<times> emm_state \<times> 'w \<Rightarrow> bool" where
  "same_run qs a b \<longleftrightarrow> (case (a, b) of
     (Inl f, Inl g) \<Rightarrow> f = g
   | (Inr (res, s, w), Inr (rs, st, w')) \<Rightarrow> st = server_of s \<and> w' = w \<and> length res = length qs \<and> length rs = length qs \<and>
       (\<forall>i < length qs. same_result (err_text (fst (qs ! i))) (snd (qs ! i)) (res ! i) (rs ! i))
   | _ \<Rightarrow> False)"

lemma same_run_Cons:
  assumes "same_result (err_text (fst q)) (snd q) r r'" and "same_run qs a b"
  shows "same_run (q # qs) (map_sum id (\<lambda>(rs, s, w). (r # rs, s, w)) a) (map_sum id (\<lambda>(rs, s, w). (r' # rs, s, w)) b)"
  using assms
  by (cases a; cases b) (auto simp: same_run_def nth_Cons split: nat.split)

text \<open>C35: The library and the server are equivalent: over any HIRB and any environment, a sequence of \<open>Put\<close>,
  \<open>Get\<close> and \<open>Delete\<close> on the library has the outcomes of the \<open>set\<close> (of a list of one text), \<open>get\<close>
  and \<open>del\<close> requests on a server with the same key, ORAM and counter, ends in the same ORAM, counter
  and HIRB, and faults exactly when the server does; the temporary files aside.\<close>

theorem insecure_same_as_server:
  "same_run qs (insecure_run hget hset qs s w) (emm_run hget hset (map as_input qs) (server_of s) w)"
proof (induction qs arbitrary: s w)
  case Nil
  then show ?case by (simp add: same_run_def)
next
  case (Cons q qs)
  let ?a = "insecure_do hget hset (fst q) (snd q) s w"
  let ?b = "HandleEMMRequest hget hset (emm_env.truncate (fst q)) (Some (insecure_request (snd q))) (server_of s) w"
  from insecure_step [of "fst q" "snd q" hget hset s w] consider
      f where "?a = Inl f" "?b = Inl f"
    | res s1 w1 r where "?a = Inr (res, s1, w1)" "?b = Inr (r, server_of s1, w1)" "same_result (err_text (fst q)) (snd q) res r"
    by (cases ?a; cases ?b) (auto simp: same_outcome_def)
  then show ?case
  proof cases
    case 1
    then show ?thesis by (simp add: as_input_def same_run_def)
  next
    case 2
    with same_run_Cons [OF 2(3) Cons.IH [of s1 w1]] show ?thesis by (simp add: as_input_def)
  qed
qed

section \<open>A new client\<close>

definition new_client :: "insecure_client \<Rightarrow> bool" where
  "new_client c \<longleftrightarrow> (\<exists>keyFile newKey canWrite hasData sysTemp canMake kf. (\<forall>k. newKey = Some k \<longrightarrow> length k = 32) \<and>
     NewClient keyFile newKey canWrite hasData sysTemp canMake = Inr (c, kf))"

definition fresh_process :: "insecure_client \<Rightarrow> insecure_state" where
  "fresh_process c = \<lparr>i_client = c, i_counter = 1, i_files = []\<rparr>"

lemma new_client_started:
  assumes "new_client c"
  shows "\<exists>keyFile newKey. started keyFile newKey (server_of (fresh_process c))"
proof -
  from assms obtain keyFile newKey canWrite hasData sysTemp canMake kf where
      k: "\<forall>k. newKey = Some k \<longrightarrow> length k = 32" and n: "NewClient keyFile newKey canWrite hasData sysTemp canMake = Inr (c, kf)"
    by (auto simp: new_client_def)
  have cap: "logCap = logCapacity" by (simp add: logCap_def logCapacity_def)
  from n have "InitServer keyFile newKey canWrite emm_globals = Inr (server_of (fresh_process c), kf)"
    unfolding NewClient_def InitServer_def newLoad_eq cap
    by (auto simp: Let_def server_of_def fresh_process_def emm_globals_def split: sum.splits if_splits)
  with k show ?thesis unfolding started_def by blast
qed

end
