(* ===== verification/Go_Float.thy ===== *)
theory Go_Float
  imports Complex_Main JSON_Codec
begin

text \<open>
  Go's \<open>float64\<close>, as the rational it stands for: \<open>float64 x\<close> is the nearest number with a mantissa of
  53 bits, ties to even. Infinities, NaN, overflow and subnormal numbers are left out.
\<close>

definition pow2 :: "int \<Rightarrow> rat" where
  "pow2 e = (if 0 \<le> e then 2 ^ nat e else 1 / 2 ^ nat (- e))"

text \<open>The number of bits of a positive integer.\<close>

function int_bits :: "int \<Rightarrow> nat" where
  "int_bits n = (if n \<le> 0 then 0 else Suc (int_bits (n div 2)))"
  by auto

termination by (relation "measure nat") auto

declare int_bits.simps [simp del]

text \<open>The exponent \<open>e\<close> of a positive \<open>x\<close>: \<open>2\<^sup>e \<le> x < 2\<^sup>e\<^sup>+\<^sup>1\<close>.\<close>

definition float_exp :: "rat \<Rightarrow> int" where
  "float_exp x = (let (n, d) = quotient_of x; k = int (int_bits n) - int (int_bits d)
     in if pow2 k \<le> x then k else k - 1)"

definition round_even :: "rat \<Rightarrow> int" where
  "round_even y = (let q = \<lfloor>y\<rfloor>; r = y - of_int q in if 1 / 2 < r \<or> (r = 1 / 2 \<and> odd q) then q + 1 else q)"

definition float64 :: "rat \<Rightarrow> rat" where
  "float64 x =
     (if x = 0 then 0
      else (let u = pow2 (float_exp \<bar>x\<bar> - 52) in sgn x * (of_int (round_even (\<bar>x\<bar> / u)) * u)))"

lemma round_even_int [simp]: "round_even (of_int n) = n"
  by (simp add: round_even_def)

lemma round_even_numeral [simp]: "round_even (numeral k) = numeral k"
  by (metis of_int_numeral round_even_int)

lemma int_bits_one [simp]: "int_bits 1 = 1"
  by (simp add: int_bits.simps [of 1] int_bits.simps [of 0])

lemma int_bits_bounds: "0 < n \<Longrightarrow> 2 ^ (int_bits n - 1) \<le> n \<and> n < 2 ^ int_bits n \<and> 0 < int_bits n"
proof (induction n rule: int_bits.induct)
  case (1 n)
  show ?case
  proof (cases "n div 2 = 0")
    case True
    with 1(2) have "n = 1" by simp
    then show ?thesis by simp
  next
    case False
    with 1(2) have "0 < n div 2" by simp
    with 1 have ih: "2 ^ (int_bits (n div 2) - 1) \<le> n div 2" "n div 2 < 2 ^ int_bits (n div 2)" "0 < int_bits (n div 2)"
      by auto
    obtain m where m: "int_bits (n div 2) = Suc m" using ih(3) gr0_implies_Suc by blast
    have b: "int_bits n = Suc (Suc m)" using 1(2) m by (simp add: int_bits.simps [of n])
    have "p \<le> n div 2 \<Longrightarrow> n div 2 < 2 * p \<Longrightarrow> 2 * p \<le> n \<and> n < 4 * p" for p :: int by presburger
    from this [of "2 ^ m"] ih m b show ?thesis by simp
  qed
qed

text \<open>Integers of up to 53 bits are floats.\<close>

lemma float64_pos_int:
  assumes "0 < n" and "n \<le> 2 ^ 53"
  shows "float64 (of_int n) = of_int n"
proof -
  define b where "b = int_bits n"
  have b: "2 ^ (b - 1) \<le> n" "n < 2 ^ b" "0 < b"
    using int_bits_bounds [OF assms(1)] by (simp_all add: b_def)
  obtain m where m: "b = Suc m" using b(3) gr0_implies_Suc by blast
  have "(2::int) ^ m \<le> n" using b(1) m by simp
  then have "(of_int (2 ^ m) :: rat) \<le> of_int n" by (simp only: of_int_le_iff)
  moreover have "pow2 (int b - 1) = of_int (2 ^ m)" by (simp add: pow2_def m)
  ultimately have le: "pow2 (int b - 1) \<le> of_int n" by simp
  have e: "float_exp (of_int n) = int b - 1"
    using le by (simp add: float_exp_def b_def)
  have "b \<le> 54"
  proof (rule ccontr)
    assume "\<not> b \<le> 54"
    then have "(2::int) ^ 54 \<le> 2 ^ (b - 1)" by (intro power_increasing) simp_all
    with b(1) assms(2) show False by simp
  qed
  show ?thesis
  proof (cases "b \<le> 53")
    case True
    then have u: "pow2 (int b - 1 - 52) = 1 / 2 ^ (53 - b)"
      by (cases "b = 53") (simp_all add: pow2_def nat_diff_distrib')
    have "of_int n / (1 / 2 ^ (53 - b)) = (of_int (n * 2 ^ (53 - b)) :: rat)" by simp
    then have "round_even (of_int n / pow2 (int b - 1 - 52)) = n * 2 ^ (53 - b)"
      unfolding u by (simp only: round_even_int)
    then show ?thesis using assms(1) e u by (simp add: float64_def Let_def)
  next
    case False
    with \<open>b \<le> 54\<close> have "b = 54" by simp
    with b(1) assms have "n = 2 ^ 53" by simp
    have "pow2 (int b - 1 - 52) = 2" using \<open>b = 54\<close> by (simp add: pow2_def)
    moreover have "(of_int n :: rat) / 2 = of_int (2 ^ 52)" using \<open>n = 2 ^ 53\<close> by simp
    ultimately show ?thesis
      using assms(1) e \<open>n = 2 ^ 53\<close> by (simp add: float64_def Let_def round_even_int del: of_int_power)
  qed
qed

lemma float64_minus: "float64 (- x) = - float64 x"
  by (simp add: float64_def Let_def sgn_minus)

lemma float64_int:
  assumes "\<bar>n\<bar> \<le> 2 ^ 53"
  shows "float64 (of_int n) = of_int n"
proof -
  consider "n = 0" | "0 < n" | "n < 0" by linarith
  then show ?thesis
  proof cases
    case 3
    with float64_pos_int [of "- n"] assms have "float64 (of_int (- n)) = of_int (- n)" by simp
    then show ?thesis by (simp add: float64_minus)
  qed (use assms float64_pos_int in \<open>simp_all add: float64_def\<close>)
qed

end
