(* ===== verification/Bench_Stats.thy ===== *)
theory Bench_Stats
  imports Go_Float "HOL-Library.Signed_Division"
begin

text \<open>
  The measuring part of the benchmark (\<open>mains/testing_emm.go\<close>): random values, the trimmed mean, the
  key file, and the counters of \<open>/proc\<close>. What the operating system and the random source deliver
  are parameters. A run-time panic is \<open>None\<close>.
\<close>

section \<open>Random values\<close>

text \<open>\<open>rand.Intn n\<close> on a source, which panics for \<open>n = 0\<close>.\<close>

type_synonym 'g intn = "nat \<Rightarrow> 'g \<Rightarrow> nat \<times> 'g"

definition letters :: string where
  "letters = ''abcdefghijklmnopqrstuvwxyzABCDEFGHIJKLMNOPQRSTUVWXYZ0123456789''"

primrec randomValue :: "'g intn \<Rightarrow> nat \<Rightarrow> 'g \<Rightarrow> string \<times> 'g" where
  "randomValue intn 0 g = ('''', g)"
| "randomValue intn (Suc n) g =
     (let (i, g1) = intn (length letters) g; (cs, g2) = randomValue intn n g1 in (letters ! i # cs, g2))"

section \<open>The trimmed mean\<close>

text \<open>\<open>averageFloat64\<close>: the mean, and the caller's slice, which it leaves sorted.\<close>

definition averageFloat64 :: "rat list \<Rightarrow> rat \<times> rat list" where
  "averageFloat64 values =
     (let sorted = sort values in
      if length sorted < 5 then (0, sorted)
      else (let middle = take (length sorted - 4) (drop 2 sorted);
                sum = foldl (\<lambda>s v. float64 (s + v)) 0 middle
            in (float64 (sum / float64 (of_nat (length middle))), sorted)))"

section \<open>Lines, fields and numbers\<close>

text \<open>\<open>strings.Split(s, sep)\<close> for a one-byte separator.\<close>

fun split_on :: "char \<Rightarrow> string \<Rightarrow> string list" where
  "split_on sep [] = ['''']"
| "split_on sep (c # s) =
     (if c = sep then '''' # split_on sep s
      else (case split_on sep s of [] \<Rightarrow> [[c]] | l # ls \<Rightarrow> (c # l) # ls))"

text \<open>The white space of \<open>unicode.IsSpace\<close>, in UTF-8.\<close>

definition spaces :: "string list" where
  "spaces = [[CHR 0x09], [CHR 0x0A], [CHR 0x0B], [CHR 0x0C], [CHR 0x0D], '' '',
     utf8 0x85, utf8 0xA0, utf8 0x1680, utf8 0x2028, utf8 0x2029, utf8 0x202F, utf8 0x205F, utf8 0x3000] @
     map (\<lambda>i. utf8 (0x2000 + i)) [0..<11]"

definition leading_space :: "string list \<Rightarrow> string \<Rightarrow> nat" where
  "leading_space sps s = (case filter (\<lambda>p. has_prefix p s) sps of [] \<Rightarrow> 0 | p # _ \<Rightarrow> length p)"

function trim_left :: "string list \<Rightarrow> string \<Rightarrow> string" where
  "trim_left sps s = (let n = leading_space sps s in if n = 0 \<or> s = [] then s else trim_left sps (drop n s))"
  by auto

termination by (relation "measure (\<lambda>(sps, s). length s)") auto

declare trim_left.simps [simp del]

definition TrimSpace :: "string \<Rightarrow> string" where
  "TrimSpace s = rev (trim_left (map rev spaces) (rev (trim_left spaces s)))"

text \<open>\<open>strings.Fields\<close>: the runs of characters that are no space.\<close>

function fields_from :: "string \<Rightarrow> string \<Rightarrow> string list" where
  "fields_from acc s =
     (case s of
        [] \<Rightarrow> (if acc = [] then [] else [rev acc])
      | c # t \<Rightarrow>
          (let n = leading_space spaces s in
           if n = 0 then fields_from (c # acc) t
           else (if acc = [] then [] else [rev acc]) @ fields_from [] (drop n s)))"
  by auto

termination
  by (relation "measure (\<lambda>(acc, s). length s)") (auto split: list.splits)

declare fields_from.simps [simp del]

definition Fields :: "string \<Rightarrow> string list" where
  "Fields s = fields_from [] s"

text \<open>\<open>readKeys\<close>; \<open>None\<close> is the exit of \<open>log.Fatalf\<close>.\<close>

definition readKeys :: "string option \<Rightarrow> string list option" where
  "readKeys content =
     (case content of
        None \<Rightarrow> None
      | Some s \<Rightarrow> Some (filter (\<lambda>k. k \<noteq> '''') (map TrimSpace (split_on (CHR 0x0A) s))))"

text \<open>\<open>strconv.ParseInt(s, 10, 64)\<close> and \<open>Atoi\<close>, without the error: 0 for a syntax error, the nearest
  bound for a number out of range.\<close>

datatype num_error = Syntax | Range

fun parse_uint :: "int \<Rightarrow> string \<Rightarrow> num_error + int" where
  "parse_uint n [] = Inr n"
| "parse_uint n (c # s) =
     (if \<not> is_digit c then Inl Syntax
      else (let n' = 10 * n + int (digit_val c) in if 2 ^ 64 \<le> n' then Inl Range else parse_uint n' s))"

definition parse_int64 :: "string \<Rightarrow> int" where
  "parse_int64 s =
     (let neg = has_prefix ''-'' s; t = (if neg \<or> has_prefix ''+'' s then tl s else s) in
      if t = [] then 0
      else (case parse_uint 0 t of
        Inl Syntax \<Rightarrow> 0
      | Inl Range \<Rightarrow> (if neg then - (2 ^ 63) else 2 ^ 63 - 1)
      | Inr n \<Rightarrow> (if neg then - min n (2 ^ 63) else min n (2 ^ 63 - 1))))"

section \<open>The disk counters\<close>

record DiskStats =
  ReadBytes :: int
  WriteBytes :: int
  CacheReadBytes :: int
  CacheWriteBytes :: int

definition no_stats :: DiskStats where
  "no_stats = \<lparr>ReadBytes = 0, WriteBytes = 0, CacheReadBytes = 0, CacheWriteBytes = 0\<rparr>"

text \<open>\<open>strings.Fields(line)[1]\<close> panics when the line has one field only.\<close>

definition second_field :: "string \<Rightarrow> int option" where
  "second_field line = (if length (Fields line) \<le> 1 then None else Some (parse_int64 (Fields line ! 1)))"

definition read_line :: "string \<Rightarrow> DiskStats \<Rightarrow> DiskStats option" where
  "read_line line stats =
     (if has_prefix ''read_bytes:'' line then map_option (\<lambda>n. stats\<lparr>ReadBytes := n\<rparr>) (second_field line)
      else if has_prefix ''write_bytes:'' line then map_option (\<lambda>n. stats\<lparr>WriteBytes := n\<rparr>) (second_field line)
      else if has_prefix ''rchar:'' line then map_option (\<lambda>n. stats\<lparr>CacheReadBytes := n\<rparr>) (second_field line)
      else if has_prefix ''wchar:'' line then map_option (\<lambda>n. stats\<lparr>CacheWriteBytes := n\<rparr>) (second_field line)
      else Some stats)"

primrec read_lines :: "string list \<Rightarrow> DiskStats \<Rightarrow> DiskStats option" where
  "read_lines [] stats = Some stats"
| "read_lines (l # ls) stats = Option.bind (read_line l stats) (read_lines ls)"

definition readDiskIO :: "string option \<Rightarrow> DiskStats option" where
  "readDiskIO proc_io =
     (case proc_io of
        None \<Rightarrow> Some no_stats
      | Some data \<Rightarrow> read_lines (split_on (CHR 0x0A) data) no_stats)"

section \<open>The usage of the process\<close>

record usage_env =
  mem_alloc :: nat
  mem_sys :: nat
  proc_status :: "string option"
  utime_sec :: int
  utime_usec :: int
  stime_sec :: int
  stime_usec :: int
  since_start :: int
  num_cpu :: nat

definition int64 :: "int \<Rightarrow> int" where
  "int64 n = signed_take_bit 63 n"

text \<open>\<open>Duration.Seconds\<close>, of nanoseconds.\<close>

definition Seconds :: "int \<Rightarrow> rat" where
  "Seconds d = float64 (float64 (of_int (d sdiv 10 ^ 9)) + float64 (float64 (of_int (d smod 10 ^ 9)) / 10 ^ 9))"

definition top_rss :: "string option \<Rightarrow> int" where
  "top_rss status =
     (case status of
        None \<Rightarrow> 0
      | Some data \<Rightarrow>
          (case filter (has_prefix ''VmRSS:'') (split_on (CHR 0x0A) data) of
             [] \<Rightarrow> 0
           | line # _ \<Rightarrow> (if 2 \<le> length (Fields line) then parse_int64 (Fields line ! 1) else 0)))"

record usage =
  memUsage :: rat
  cpuUsage :: rat
  topRSS :: int
  diskReads :: int
  diskWrites :: int
  cacheReads :: int
  cacheWrites :: int

definition sectors :: "int \<Rightarrow> int \<Rightarrow> int" where
  "sectors after before = int64 (after - before) sdiv 512"

definition getUsageStats :: "usage_env \<Rightarrow> DiskStats \<Rightarrow> DiskStats \<Rightarrow> usage" where
  "getUsageStats E before after =
     (let cpuUser = int64 (int64 (utime_sec E * 10 ^ 9) + int64 (utime_usec E * 1000));
          cpuSys = int64 (int64 (stime_sec E * 10 ^ 9) + int64 (stime_usec E * 1000));
          totalCPU = int64 (cpuUser + cpuSys)
      in \<lparr>memUsage = float64 (float64 (float64 (of_nat (mem_alloc E)) / float64 (of_nat (mem_sys E))) * 100),
          cpuUsage = float64 (float64 (float64 (Seconds totalCPU / Seconds (since_start E)) * 100) / float64 (of_nat (num_cpu E))),
          topRSS = top_rss (proc_status E),
          diskReads = sectors (ReadBytes after) (ReadBytes before),
          diskWrites = sectors (WriteBytes after) (WriteBytes before),
          cacheReads = sectors (CacheReadBytes after) (CacheReadBytes before),
          cacheWrites = sectors (CacheWriteBytes after) (CacheWriteBytes before)\<rparr>)"

end
