(* ===== verification/Bench_Laws.thy ===== *)
theory Bench_Laws
  imports Bench_Stats
begin

text \<open>
  The laws of the benchmark's helpers: the trimmed mean is exact on integers and does not depend on the
  order of the runs, and the key file is read back whatever white space surrounds its keys.
\<close>

section \<open>The trimmed mean\<close>

lemma sort_map_of_int: "sort (map of_int xs) = (map of_int (sort xs) :: rat list)"
  by (rule properties_for_sort) (simp_all add: sorted_map sorted_wrt_mono_rel [OF _ sorted_sort])

lemma float_sum:
  "\<bar>a\<bar> + sum_list (map abs ys) \<le> 2 ^ 53 \<Longrightarrow>
    foldl (\<lambda>s v. float64 (s + v)) (of_int a) (map of_int ys) = of_int (a + sum_list ys)"
proof (induction ys arbitrary: a)
  case (Cons y ys)
  have nonneg: "0 \<le> sum_list (map abs ys)" by (rule sum_list_nonneg) auto
  have "\<bar>a + y\<bar> + sum_list (map abs ys) \<le> 2 ^ 53" using Cons.prems abs_triangle_ineq [of a y] by simp
  moreover from this nonneg have "float64 (of_int (a + y)) = of_int (a + y)" by (intro float64_int) simp
  ultimately show ?case using Cons.IH [of "a + y"] by (simp add: add.assoc)
qed simp

lemma sum_abs_middle: "sum_list (map abs (take k (drop m (sort xs)))) \<le> (sum_list (map abs xs) :: int)"
proof -
  have part: "sum_list (map abs (take k ys)) \<le> (sum_list (map abs ys) :: int)"
      "sum_list (map abs (drop k ys)) \<le> (sum_list (map abs ys) :: int)" for k and ys :: "int list"
  proof -
    have "sum_list (map abs (take k ys)) + sum_list (map abs (drop k ys)) = sum_list (map abs ys)"
      by (simp flip: sum_list_append map_append)
    moreover have "0 \<le> sum_list (map abs (take k ys))" "0 \<le> sum_list (map abs (drop k ys))"
      by (rule sum_list_nonneg, auto)+
    ultimately show "sum_list (map abs (take k ys)) \<le> sum_list (map abs ys)"
        "sum_list (map abs (drop k ys)) \<le> sum_list (map abs ys)" by simp_all
  qed
  have "sum_list (map abs (sort xs)) = sum_list (map abs xs)"
    by (simp flip: sum_mset_sum_list)
  with part(1) [of k "drop m (sort xs)"] part(2) [of m "sort xs"] show ?thesis by simp
qed

text \<open>C39: The average of at least five measurements that are integers is the exact mean of all but the two
  smallest and the two largest, rounded once, and the slice is left sorted; it depends on the measurements
  only, not on their order.\<close>

theorem average_exact:
  assumes "5 \<le> length xs" and "int (length xs) \<le> 2 ^ 53" and "sum_list (map abs xs) \<le> 2 ^ 53"
    and "mset (map of_int xs) = mset runs"
  shows "averageFloat64 runs =
    (float64 (of_int (sum_list (take (length xs - 4) (drop 2 (sort xs)))) / of_nat (length xs - 4)),
     map of_int (sort xs))"
proof -
  let ?mid = "take (length xs - 4) (drop 2 (sort xs))"
  have "sort runs = sort (map of_int xs)" using assms(4) by (metis mset_sort properties_for_sort sorted_sort)
  then have runs: "sort runs = map of_int (sort xs)" by (simp only: sort_map_of_int)
  have len: "length ?mid = length xs - 4" using assms(1) by simp
  have "foldl (\<lambda>s v. float64 (s + v)) (of_int 0) (map of_int ?mid) = of_int (0 + sum_list ?mid)"
    using sum_abs_middle [of "length xs - 4" 2 xs] assms(3) by (intro float_sum) simp
  moreover have "float64 (of_int (int (length xs - 4))) = of_int (int (length xs - 4))"
    using assms(2) by (intro float64_int) simp
  ultimately show ?thesis
    using assms(1) len by (simp add: averageFloat64_def runs Let_def take_map drop_map)
qed

theorem average_exact_witness:
  "averageFloat64 [30, 10, 20, 1000, 0, 11, 12] = (float64 (of_int 43 / of_nat 3), map of_int [0, 10, 11, 12, 20, 30, 1000])"
  using average_exact [of "[30, 10, 20, 1000, 0, 11, 12]" "[30, 10, 20, 1000, 0, 11, 12]"] by simp

section \<open>The key file\<close>

definition blanks :: "char list" where
  "blanks = [CHR 0x09, CHR 0x0B, CHR 0x0C, CHR 0x0D, CHR 0x20]"

definition clean :: "string \<Rightarrow> bool" where
  "clean k \<longleftrightarrow> k \<noteq> [] \<and> CHR 0x0A \<notin> set k \<and> leading_space spaces k = 0 \<and> leading_space (map rev spaces) (rev k) = 0"

lemma split_on_free: "sep \<notin> set l \<Longrightarrow> split_on sep l = [l]"
  by (induction l) auto

lemma split_on_append: "sep \<notin> set l \<Longrightarrow> split_on sep (l @ sep # s) = l # split_on sep s"
  by (induction l) auto

lemma split_on_sep_with:
  "ls \<noteq> [] \<Longrightarrow> \<forall>l \<in> set ls. sep \<notin> set l \<Longrightarrow> split_on sep (sep_with [sep] ls) = ls"
proof (induction ls)
  case (Cons l ls)
  then show ?case by (cases ls) (simp_all add: split_on_free split_on_append)
qed simp

lemma leading_blank:
  assumes "c \<in> set blanks"
  shows "leading_space spaces (c # t) = 1" and "leading_space (map rev spaces) (c # t) = 1"
  using assms by (auto simp: leading_space_def spaces_def blanks_def)

lemma trim_left_blanks:
  assumes "\<And>c t. c \<in> set blanks \<Longrightarrow> leading_space sps (c # t) = 1"
  shows "set w \<subseteq> set blanks \<Longrightarrow> trim_left sps (w @ t) = trim_left sps t"
proof (induction w)
  case (Cons c w)
  then have "trim_left sps ((c # w) @ t) = trim_left sps (w @ t)"
    by (simp add: trim_left.simps [of sps "c # w @ t"] assms)
  with Cons show ?case by simp
qed simp

lemma trim_left_stop: "leading_space sps k = 0 \<or> k = [] \<Longrightarrow> trim_left sps k = k"
  by (auto simp: trim_left.simps [of sps k] Let_def)

lemma leading_zero: "[] \<notin> set sps \<Longrightarrow> leading_space sps s = 0 \<longleftrightarrow> (\<forall>p \<in> set sps. \<not> has_prefix p s)"
proof -
  assume "[] \<notin> set sps"
  then have "filter (\<lambda>p. has_prefix p s) sps = p # ps \<Longrightarrow> p \<noteq> []" for p ps
    by (metis Cons_eq_filterD in_set_conv_decomp)
  moreover have "filter (\<lambda>p. has_prefix p s) sps = p # ps \<Longrightarrow> p \<in> set sps \<and> has_prefix p s" for p ps
    by (metis Cons_eq_filterD in_set_conv_decomp)
  ultimately show ?thesis
    by (cases "filter (\<lambda>p. has_prefix p s) sps") (auto simp: leading_space_def filter_empty_conv)
qed

lemma utf8_high: "0x80 \<le> n \<Longrightarrow> n < 0x10000 \<Longrightarrow> c \<in> set (utf8 n) \<Longrightarrow> 128 \<le> (of_char c :: nat)"
  by (auto simp: utf8_def of_char_of split: if_splits)

lemma spaces_cases:
  assumes "p \<in> set spaces"
  shows "(\<exists>c. p = [c] \<and> c \<in> insert (CHR 0x0A) (set blanks)) \<or> (p \<noteq> [] \<and> (\<forall>c \<in> set p. 128 \<le> (of_char c :: nat)))"
proof -
  have high: "utf8 n \<noteq> [] \<and> (\<forall>c \<in> set (utf8 n). 128 \<le> (of_char c :: nat))" if "0x80 \<le> n" "n < 0x10000" for n
    using utf8_high [OF that] that by (auto simp: utf8_def)
  have "p \<in> (\<lambda>c. [c]) ` insert (CHR 0x0A) (set blanks) \<or> p \<in> utf8 ` {0x80..<0x10000}"
    using assms by (auto simp: spaces_def blanks_def)
  then show ?thesis using high by auto
qed

lemma blanks_low: "c \<in> set blanks \<Longrightarrow> (of_char c :: nat) < 128"
  by (auto simp: blanks_def)

lemma spaces_bytes:
  "\<forall>p \<in> set spaces. p \<noteq> [] \<and> (length p = 1 \<or> set p \<inter> set blanks = {})"
proof
  fix p assume "p \<in> set spaces"
  from spaces_cases [OF this] show "p \<noteq> [] \<and> (length p = 1 \<or> set p \<inter> set blanks = {})"
    using blanks_low by force
qed

text \<open>A text of ASCII characters is clean when its first and its last character are no space.\<close>

lemma ascii_clean:
  assumes "k \<noteq> []" and "\<forall>c \<in> set k. (of_char c :: nat) < 128 \<and> c \<noteq> CHR 0x0A" and "hd k \<notin> set blanks" and "last k \<notin> set blanks"
  shows "clean k"
proof -
  have no: "\<not> has_prefix p s" if "p \<in> set spaces \<union> rev ` set spaces" "s \<noteq> []" "set s \<subseteq> set k" "hd s \<notin> set blanks" for p s
  proof
    assume "has_prefix p s"
    with that obtain t q where pre: "s = p @ t" "q \<in> set spaces" "p = q \<or> p = rev q" by (auto simp: has_prefix_iff)
    have "q \<noteq> []" using spaces_bytes pre(2) by blast
    with pre(3) have "p \<noteq> []" "set p = set q" by auto
    then have hd: "hd s \<in> set q" using pre(1) by (cases p) auto
    from spaces_cases [OF pre(2)] have "hd s = CHR 0x0A \<or> 128 \<le> (of_char (hd s) :: nat)"
    proof
      assume "\<exists>c. q = [c] \<and> c \<in> insert (CHR 0x0A) (set blanks)"
      with hd that(4) show ?thesis by auto
    qed (use hd in blast)
    moreover have "hd s \<in> set k" using that(2,3) by auto
    ultimately show False using assms(2) by (metis not_less)
  qed
  have "[] \<notin> set spaces" using spaces_bytes by auto
  moreover have "\<forall>p \<in> set spaces. \<not> has_prefix p k" by (intro ballI no) (use assms(1,3) in auto)
  moreover have "\<forall>p \<in> set (map rev spaces). \<not> has_prefix p (rev k)" by (intro ballI no) (use assms(1,4) in \<open>auto simp: hd_rev\<close>)
  moreover have "CHR 0x0A \<notin> set k" using assms(2) by blast
  ultimately show ?thesis using assms(1)
    by (simp add: clean_def leading_zero [of spaces] leading_zero [of "map rev spaces"] image_iff)
qed

lemma leading_append:
  assumes "leading_space sps k = 0" and "k \<noteq> []" and "set q \<subseteq> set blanks"
    and sps: "\<forall>p \<in> set sps. p \<noteq> [] \<and> (length p = 1 \<or> set p \<inter> set blanks = {})"
  shows "leading_space sps (k @ q) = 0"
proof -
  have free: "\<not> has_prefix p k" if "p \<in> set sps" for p
    using assms(1) leading_zero [of sps k] sps that by auto
  have "\<not> has_prefix p (k @ q)" if p: "p \<in> set sps" for p
  proof
    assume "has_prefix p (k @ q)"
    then obtain t where t: "k @ q = p @ t" by (auto simp: has_prefix_iff)
    with free [OF p] obtain r where r: "p = k @ r" "r \<noteq> []" "q = r @ t"
      by (auto simp: append_eq_append_conv2 has_prefix_iff)
    with assms(3) have "set p \<inter> set blanks \<noteq> {}" by (cases r) auto
    moreover have "2 \<le> length p" using r(1,2) assms(2) by (cases k; cases r) auto
    ultimately show False using sps p by fastforce
  qed
  then show ?thesis using leading_zero [of sps "k @ q"] sps by auto
qed

lemma TrimSpace_blanks:
  assumes "set p \<subseteq> set blanks" and "set q \<subseteq> set blanks" and "k = [] \<or> clean k"
  shows "TrimSpace (p @ k @ q) = k"
proof -
  note left = trim_left_blanks [of spaces, OF leading_blank(1)] and right = trim_left_blanks [of "map rev spaces", OF leading_blank(2)]
  show ?thesis
  proof (cases "k = []")
    case True
    have "trim_left spaces ((p @ q) @ []) = trim_left spaces []"
      by (rule left) (use assms in auto)
    with True show ?thesis by (simp add: TrimSpace_def trim_left_stop)
  next
    case False
    with assms(3) have k: "leading_space spaces k = 0" "leading_space (map rev spaces) (rev k) = 0" by (auto simp: clean_def)
    have "leading_space spaces (k @ q) = 0"
      by (rule leading_append [OF k(1) False assms(2) spaces_bytes])
    then have "trim_left spaces (p @ k @ q) = k @ q"
      using left [OF _ assms(1)] by (simp add: trim_left_stop)
    moreover have "trim_left (map rev spaces) (rev q @ rev k) = rev k"
      using right [of "rev q" "rev k"] assms(2) k(2) by (simp add: trim_left_stop)
    ultimately show ?thesis by (simp add: TrimSpace_def)
  qed
qed

text \<open>C40: Reading the key file gives its keys in their order, without the white space around them and without
  empty lines, with either line ending: each line of the file is a key that is empty or starts and ends
  with no space, between two runs of blanks.\<close>

theorem readKeys_lines:
  assumes "\<forall>(p, k, q) \<in> set ls. set p \<subseteq> set blanks \<and> set q \<subseteq> set blanks \<and> (k = [] \<or> clean k)"
  shows "readKeys (Some (sep_with [CHR 0x0A] (map (\<lambda>(p, k, q). p @ k @ q) ls))) =
    Some (filter (\<lambda>k. k \<noteq> []) (map (\<lambda>(p, k, q). k) ls))"
proof (cases "ls = []")
  case True
  then show ?thesis by (simp add: readKeys_def TrimSpace_blanks [of "[]" "[]" "[]", simplified])
next
  case False
  have "\<forall>l \<in> set (map (\<lambda>(p, k, q). p @ k @ q) ls). CHR 0x0A \<notin> set l"
    using assms by (auto simp: clean_def blanks_def)
  with False have "split_on (CHR 0x0A) (sep_with [CHR 0x0A] (map (\<lambda>(p, k, q). p @ k @ q) ls)) = map (\<lambda>(p, k, q). p @ k @ q) ls"
    by (intro split_on_sep_with) simp_all
  moreover have "map TrimSpace (map (\<lambda>(p, k, q). p @ k @ q) ls) = map (\<lambda>(p, k, q). k) ls"
    using assms by (auto intro: TrimSpace_blanks)
  ultimately show ?thesis by (simp add: readKeys_def del: map_map)
qed

theorem readKeys_lines_witness:
  "readKeys (Some (''key 1'' @ [CHR 0x0D, CHR 0x0A] @ '' key2'' @ [CHR 0x0A])) = Some [''key 1'', ''key2'']"
proof -
  have "clean ''key 1''" "clean ''key2''" by (rule ascii_clean; simp add: blanks_def)+
  then show ?thesis
    using readKeys_lines [of "[([], ''key 1'', [CHR 0x0D]), ('' '', ''key2'', []), ([], [], [])]"]
    by (simp add: blanks_def)
qed

end
