(* ===== verification/Bench_Maps.thy ===== *)
theory Bench_Maps
  imports EMM_Insecure
begin

text \<open>
  The two multi-maps the benchmark compares (\<open>mains/testing_emm.go\<close>): the map of string slices in
  memory, and the adapter of the library of \<open>EMM_Insecure\<close>, which logs errors and goes on. Both
  write 4096 bytes to a file with each operation.
\<close>

section \<open>The plaintext multi-map\<close>

record PlaintextMultiMap =
  pm_store :: "(string, string list) gmap"
  pm_tempDir :: string
  pm_files :: "temp_file list"

text \<open>\<open>tempName\<close>: the directory \<open>ioutil.TempDir\<close> makes below \<open>/mnt/data\<close> or \<open>os.TempDir()\<close>, if it can.\<close>

definition newPlaintextMultiMap :: "bool \<Rightarrow> string \<Rightarrow> (string \<Rightarrow> string option) \<Rightarrow> PlaintextMultiMap option" where
  "newPlaintextMultiMap hasData sysTemp tempName =
     (let baseDir = (if hasData then ''/mnt/data'' else sysTemp) in
      map_option (\<lambda>dir. \<lparr>pm_store = [], pm_tempDir = dir, pm_files = []\<rparr>) (tempName baseDir))"

record pm_env =
  pm_nano :: int
  pm_creates :: bool

definition pm_write :: "pm_env \<Rightarrow> string \<Rightarrow> string \<Rightarrow> byte list \<Rightarrow> PlaintextMultiMap \<Rightarrow> PlaintextMultiMap" where
  "pm_write E prefix key data p =
     (if pm_creates E
      then p\<lparr>pm_files := pm_files p @
        [\<lparr>tf_dir = pm_tempDir p, tf_name = prefix @ show_int (pm_nano E) @ ''_'' @ key, tf_bytes = pad_4096 data\<rparr>]\<rparr>
      else p)"

text \<open>\<open>strings.Join(val, ",")\<close>.\<close>

definition joined :: "string list \<Rightarrow> string" where
  "joined vs = sep_with '','' vs"

definition pm_Read :: "pm_env \<Rightarrow> string \<Rightarrow> PlaintextMultiMap \<Rightarrow> string list \<times> PlaintextMultiMap" where
  "pm_Read E key p =
     (let val = gl (pm_store p) key in (val, pm_write E ''read_'' key (bytes_of (joined val)) p))"

definition pm_Write :: "pm_env \<Rightarrow> string \<Rightarrow> string \<Rightarrow> PlaintextMultiMap \<Rightarrow> PlaintextMultiMap" where
  "pm_Write E key val p =
     pm_write E ''write_'' key (bytes_of val) (p\<lparr>pm_store := gm_append key val (pm_store p)\<rparr>)"

definition pm_Delete :: "pm_env \<Rightarrow> string \<Rightarrow> PlaintextMultiMap \<Rightarrow> PlaintextMultiMap" where
  "pm_Delete E key p =
     pm_write E ''delete_'' key (bytes_of key) (p\<lparr>pm_store := gm_del key (pm_store p)\<rparr>)"

section \<open>The adapter\<close>

text \<open>\<open>newRealEMMWrapper\<close>, which \<open>main\<close> calls once: the client, in a process whose globals are untouched.\<close>

definition newRealEMMWrapper ::
  "byte list option \<Rightarrow> byte list option \<Rightarrow> bool \<Rightarrow> bool \<Rightarrow> string \<Rightarrow> bool \<Rightarrow> start_error + insecure_state \<times> byte list option" where
  "newRealEMMWrapper keyFile newKey canWrite hasData sysTemp canMake =
     map_sum id (\<lambda>(client, kf). (fresh_process client, kf)) (NewClient keyFile newKey canWrite hasData sysTemp canMake)"

definition adapter_Read ::
  "'w hirb_get \<Rightarrow> 'w hirb_set \<Rightarrow> insecure_env \<Rightarrow> string \<Rightarrow> insecure_state \<times> 'w \<Rightarrow> fault + string list \<times> (insecure_state \<times> 'w)" where
  "adapter_Read hget hset E key s =
     map_sum id (\<lambda>(r, s'). (case r of Inl err \<Rightarrow> [] | Inr vals \<Rightarrow> vals, s')) (insecure_Get hget hset E key (fst s) (snd s))"

definition adapter_Write ::
  "'w hirb_get \<Rightarrow> 'w hirb_set \<Rightarrow> insecure_env \<Rightarrow> string \<Rightarrow> string \<Rightarrow> insecure_state \<times> 'w \<Rightarrow> fault + (insecure_state \<times> 'w)" where
  "adapter_Write hget hset E key val s = map_sum id snd (insecure_Put hget hset E key val (fst s) (snd s))"

definition adapter_Delete ::
  "'w hirb_get \<Rightarrow> 'w hirb_set \<Rightarrow> insecure_env \<Rightarrow> string \<Rightarrow> insecure_state \<times> 'w \<Rightarrow> fault + (insecure_state \<times> 'w)" where
  "adapter_Delete hget hset E key s = map_sum id snd (insecure_Delete hget hset E key (fst s) (snd s))"

section \<open>The interface\<close>

text \<open>
  The interface \<open>MultiMap\<close>, with the environment of each call. Its contract is that of a multi-map:
  a write adds a value to its key, a delete removes all values of its key, a read gives them.
\<close>

record ('m, 'e) MultiMap =
  mm_Read :: "'e \<Rightarrow> string \<Rightarrow> 'm \<Rightarrow> fault + string list \<times> 'm"
  mm_Write :: "'e \<Rightarrow> string \<Rightarrow> string \<Rightarrow> 'm \<Rightarrow> fault + 'm"
  mm_Delete :: "'e \<Rightarrow> string \<Rightarrow> 'm \<Rightarrow> fault + 'm"

definition plain_map :: "(PlaintextMultiMap, pm_env) MultiMap" where
  "plain_map = \<lparr>mm_Read = \<lambda>E k p. Inr (pm_Read E k p), mm_Write = \<lambda>E k v p. Inr (pm_Write E k v p),
     mm_Delete = \<lambda>E k p. Inr (pm_Delete E k p)\<rparr>"

definition emm_map :: "'w hirb_get \<Rightarrow> 'w hirb_set \<Rightarrow> (insecure_state \<times> 'w, insecure_env) MultiMap" where
  "emm_map hget hset = \<lparr>mm_Read = adapter_Read hget hset, mm_Write = adapter_Write hget hset,
     mm_Delete = adapter_Delete hget hset\<rparr>"

locale multi_map =
  fixes mm :: "('m, 'e) MultiMap"
    and vals :: "'m \<Rightarrow> string \<Rightarrow> string list"
  assumes read_law: "\<exists>m'. mm_Read mm E k m = Inr (vals m k, m') \<and> vals m' = vals m"
    and write_law: "\<exists>m'. mm_Write mm E k v m = Inr m' \<and> vals m' = (vals m)(k := vals m k @ [v])"
    and delete_law: "\<exists>m'. mm_Delete mm E k m = Inr m' \<and> vals m' = (vals m)(k := [])"
begin

text \<open>Writes accumulate: a sequence of writes under a key is read back in its order.\<close>

primrec writes :: "('e \<times> string) list \<Rightarrow> string \<Rightarrow> 'm \<Rightarrow> fault + 'm" where
  "writes [] k m = Inr m"
| "writes (q # qs) k m = (case mm_Write mm (fst q) k (snd q) m of Inl f \<Rightarrow> Inl f | Inr m1 \<Rightarrow> writes qs k m1)"

lemma writes_law: "\<exists>m'. writes qs k m = Inr m' \<and> vals m' = (vals m)(k := vals m k @ map snd qs)"
proof (induction qs arbitrary: m)
  case (Cons q qs)
  from write_law [of "fst q" k "snd q" m] obtain m1 where 1: "mm_Write mm (fst q) k (snd q) m = Inr m1"
      "vals m1 = (vals m)(k := vals m k @ [snd q])"
    by blast
  from Cons.IH [of m1] 1 show ?case by (auto simp: fun_eq_iff)
qed simp

end

lemma gl_del: "gl (gm_del k m) k' = (if k' = k then [] else gl m k')"
  by (simp add: gl_def gm_get_del)

lemma pm_write_store [simp]: "pm_store (pm_write E pre k d p) = pm_store p"
  by (simp add: pm_write_def)

interpretation plain: multi_map plain_map "\<lambda>p. gl (pm_store p)"
proof unfold_locales
  show "\<exists>m'. mm_Read plain_map E k m = Inr (gl (pm_store m) k, m') \<and> gl (pm_store m') = gl (pm_store m)" for E k m
    by (simp add: plain_map_def pm_Read_def Let_def)
  show "\<exists>m'. mm_Write plain_map E k v m = Inr m' \<and> gl (pm_store m') = (gl (pm_store m))(k := gl (pm_store m) k @ [v])" for E k v m
    by (simp add: plain_map_def pm_Write_def fun_eq_iff)
  show "\<exists>m'. mm_Delete plain_map E k m = Inr m' \<and> gl (pm_store m') = (gl (pm_store m))(k := [])" for E k m
    by (simp add: plain_map_def pm_Delete_def fun_eq_iff gl_del)
qed

section \<open>The adapter on the table\<close>

context id_map
begin

lemma insecure_do_law:
  assumes "emm_inv A key (server_of s) w T" and "t_next T < 2 ^ 31" and "aes E = A"
  shows "\<exists>res s' w'. insecure_do hget hset E c s w = Inr (res, s', w') \<and>
    emm_inv A key (server_of s') w' (snd (table_request key (emm_env.truncate E) (Some (insecure_request c)) T))"
proof -
  have "aes (emm_env.truncate E) = A" using assms(3) by simp
  from handle_inv [OF assms(1,2) this, of "Some (insecure_request c)"] obtain st' w' where
      h: "HandleEMMRequest hget hset (emm_env.truncate E) (Some (insecure_request c)) (server_of s) w =
        Inr (fst (table_request key (emm_env.truncate E) (Some (insecure_request c)) T), st', w')"
      "emm_inv A key st' w' (snd (table_request key (emm_env.truncate E) (Some (insecure_request c)) T))"
    by blast
  with insecure_step [of E c hget hset s w] show ?thesis
    by (cases "insecure_do hget hset E c s w") (auto simp: same_outcome_def)
qed

lemma insecure_get_law:
  assumes inv: "emm_inv A key (server_of s) w T" and "t_next T < 2 ^ 31" and A: "aes E = A"
    and idx: "table_index k T = (n, T1)"
  shows "\<exists>s' w'. insecure_Get hget hset E k s w = Inr (Inr (strings_of (table_get n T)), s', w')"
proof -
  from inv have i: "ok w" "ids_rel (ids w) (server_of s) T" "blocks_rel A (server_of s) T" "c_symKey (i_client s) = key"
    by (simp_all add: emm_inv_def)
  from index_law [OF i(1,2) assms(2) idx] obtain st1 w1 where
      g: "getOrCreateIndex hget hset k (server_of s) w = (Inr (uint64_of n), st1, w1)" "oramStore st1 = oramStore (server_of s)"
      "symKey st1 = symKey (server_of s)"
    by blast
  then obtain s1 where s1: "newGetOrCreateIndex hget hset k s w = (Inr (uint64_of n), s1, w1)" "st1 = server_of s1"
    by (auto simp: index_eq split: prod.splits)
  have same: "c_oram (i_client s1) = c_oram (i_client s)" "c_symKey (i_client s1) = key"
    using g(2,3) s1(2) i(4) by simp_all
  have T: "table_ok T" using i(2) by (simp add: ids_rel_def)
  have "0 \<le> n" "n < 2 ^ 31" using table_ok_index(2,3) [OF T idx] assms(2) by simp_all
  from store_get [OF i(3) this, of "mem_behind E"] obtain bs where
      bs: "ORAM_Get (mem_behind E) (c_oram (i_client s)) (uint64_of n) (uint blockSize) = Inr (Some bs)"
      "read_block A key bs = table_get n T"
    by (auto simp: i(4))
  show ?thesis
  proof (cases "decrypt A key (cut_zero bs)")
    case (Inl e)
    with bs(2) have "strings_of (table_get n T) = []" by (simp add: read_block_def strings_of_def flip: bs(2))
    with s1(1) same bs(1) A Inl show ?thesis by (simp add: insecure_Get_def newDecrypt_eq)
  next
    case (Inr p)
    have "strings_of (table_get n T) = (case decode_strings (string_of p) of None \<Rightarrow> [] | Some vs \<Rightarrow> vs)"
      using decode_strings_read [OF Inr] Inr by (simp add: read_block_def flip: bs(2))
    with s1(1) same bs(1) A Inr show ?thesis by (simp add: insecure_Get_def newDecrypt_eq split: option.split)
  qed
qed

end

text \<open>The table after two sets of one key.\<close>

lemma two_sets:
  assumes "rnd E2 = Some nonce"
  shows "let T1 = snd (table_request key E1 (Some (emm_body ''set'' k (GArr [GStr v1]))) empty_table);
             T2 = snd (table_request key E2 (Some (emm_body ''set'' k (GArr [GStr v2]))) T1)
    in table_index k T2 = (1, T2) \<and> table_get 1 T2 = sealed_value key E2 nonce (GArr [GStr v2]) \<and> t_next T1 = 2 \<and> t_next T2 = 2"
proof -
  have q: "table_request key E (Some (emm_body ''set'' k (GArr [GStr v]))) T =
      (let (n, T1) = table_index k T in table_op key E (request_of ''set'' k (GArr [GStr v])) n T1)" for E v T
    by (simp add: table_request_def decode_emm_body) (simp add: request_of_def)
  show ?thesis
    using assms by (cases "rnd E1")
      (simp_all add: q request_of_def table_op_def table_index_def empty_table_def table_put_def table_get_def num_slots_def)
qed

lemma emm_map_replaces:
  assumes "id_map hget hset ids ok storable" and "ok w" and "ids w = Map.empty" and "new_client c"
    and "aes E1 = A" and "aes E2 = A" and "aes E3 = A" and "rnd E2 = Some nonce" and "length nonce = nonce_size"
    and "survives (mem_behind E2) (gcm_seal A (c_symKey c) nonce nonce (bytes_of (marshal (GArr [GStr v2]))))"
  shows "\<exists>m1 m2 m3. mm_Write (emm_map hget hset) E1 k v1 (fresh_process c, w) = Inr m1 \<and>
      mm_Write (emm_map hget hset) E2 k v2 m1 = Inr m2 \<and> mm_Read (emm_map hget hset) E3 k m2 = Inr ([v2], m3)"
proof -
  let ?s = "fresh_process c" and ?key = "c_symKey c"
  let ?T1 = "snd (table_request ?key (emm_env.truncate E1) (Some (emm_body ''set'' k (GArr [GStr v1]))) empty_table)"
  let ?T2 = "snd (table_request ?key (emm_env.truncate E2) (Some (emm_body ''set'' k (GArr [GStr v2]))) ?T1)"
  from new_client_started [OF assms(4)] obtain kf nk where st: "started kf nk (server_of ?s)" by blast
  have key: "symKey (server_of ?s) = ?key" by (simp add: fresh_process_def)
  note inv = id_map.started_inv [OF assms(1) st assms(2,3), of A, unfolded key]
  have 2: "table_index k ?T2 = (1, ?T2)" "table_get 1 ?T2 = sealed_value ?key (emm_env.truncate E2) nonce (GArr [GStr v2])"
      "t_next ?T1 = 2" "t_next ?T2 = 2"
    using two_sets [of "emm_env.truncate E2" nonce ?key "emm_env.truncate E1" k v1 v2] assms(8) by (simp_all add: Let_def)
  have got: "table_get 1 ?T2 = GArr [GStr v2]"
    using read_back [of ?key nonce "GArr [GStr v2]" "mem_behind E2" A] started_state(1) [OF st, unfolded key] assms(6,9,10) 2(2)
    by (simp add: sealed_value_def key)
  have "t_next empty_table < 2 ^ 31" by (simp add: empty_table_def)
  from id_map.insecure_do_law [OF assms(1) inv this assms(5), of "IPut k v1"] obtain e1 s1 w1 where
      1: "insecure_Put hget hset E1 k v1 ?s w = Inr (e1, s1, w1)" "id_map.emm_inv ids ok A ?key (server_of s1) w1 ?T1"
    by (cases "insecure_Put hget hset E1 k v1 ?s w") auto
  have "t_next ?T1 < 2 ^ 31" using 2(3) by simp
  from id_map.insecure_do_law [OF assms(1) 1(2) this assms(6), of "IPut k v2"] obtain e2 s2 w2 where
      3: "insecure_Put hget hset E2 k v2 s1 w1 = Inr (e2, s2, w2)" "id_map.emm_inv ids ok A ?key (server_of s2) w2 ?T2"
    by (cases "insecure_Put hget hset E2 k v2 s1 w1") auto
  have "t_next ?T2 < 2 ^ 31" using 2(4) by simp
  from id_map.insecure_get_law [OF assms(1) 3(2) this assms(7) 2(1)] obtain s3 w3 where
      "insecure_Get hget hset E3 k s2 w2 = Inr (Inr [v2], s3, w3)"
    by (auto simp: got strings_of_def)
  with 1(1) 3(1) show ?thesis
    by (simp add: emm_map_def adapter_Write_def adapter_Read_def)
qed

lemma plain_map_adds:
  assumes "newPlaintextMultiMap hasData sysTemp tempName = Some p"
  shows "\<exists>p1 p2 p3. mm_Write plain_map F1 k v1 p = Inr p1 \<and> mm_Write plain_map F2 k v2 p1 = Inr p2 \<and>
      mm_Read plain_map F3 k p2 = Inr ([v1, v2], p3)"
proof -
  have "pm_store p = []" using assms by (auto simp: newPlaintextMultiMap_def Let_def)
  with plain.write_law [of F1 k v1 p] obtain p1 where p1: "mm_Write plain_map F1 k v1 p = Inr p1" "gl (pm_store p1) k = [v1]"
    by (auto simp: fun_eq_iff)
  from plain.write_law [of F2 k v2 p1] p1(2) obtain p2 where p2: "mm_Write plain_map F2 k v2 p1 = Inr p2"
      "gl (pm_store p2) k = [v1, v2]"
    by (auto simp: fun_eq_iff)
  from plain.read_law [of F3 k p2] p2(2) p1(1) p2(1) show ?thesis by auto
qed

text \<open>C36: The two multi-maps the benchmark compares do not do the same: after two writes under one key, in a fresh
  client whose second ciphertext survives, the multi-map of the library reads the second value only,
  where the plaintext multi-map reads both in order. A write of the library replaces.\<close>

theorem bench_maps_differ:
  assumes "id_map hget hset ids ok storable" and "ok w" and "ids w = Map.empty" and "new_client c"
    and "aes E1 = A" and "aes E2 = A" and "aes E3 = A" and "rnd E2 = Some nonce" and "length nonce = nonce_size"
    and "survives (mem_behind E2) (gcm_seal A (c_symKey c) nonce nonce (bytes_of (marshal (GArr [GStr v2]))))"
    and "newPlaintextMultiMap hasData sysTemp tempName = Some p"
  shows "(\<exists>m1 m2 m3. mm_Write (emm_map hget hset) E1 k v1 (fresh_process c, w) = Inr m1 \<and>
      mm_Write (emm_map hget hset) E2 k v2 m1 = Inr m2 \<and> mm_Read (emm_map hget hset) E3 k m2 = Inr ([v2], m3)) \<and>
    (\<exists>p1 p2 p3. mm_Write plain_map F1 k v1 p = Inr p1 \<and> mm_Write plain_map F2 k v2 p1 = Inr p2 \<and>
      mm_Read plain_map F3 k p2 = Inr ([v1, v2], p3))"
  using emm_map_replaces [OF assms(1-10)] plain_map_adds [OF assms(11)] by blast

definition demo_lib_env :: insecure_env where
  "demo_lib_env = \<lparr>aes = demo_cipher, rnd = Some demo_nonce, mem_behind = \<lambda>_. 0, err_text = \<lambda>_. '''',
     unix_nano = 1, can_create = True\<rparr>"

lemma demo_lib_env_simps [simp]:
  "aes demo_lib_env = demo_cipher" "rnd demo_lib_env = Some demo_nonce" "mem_behind demo_lib_env = (\<lambda>_. 0)"
  by (simp_all add: demo_lib_env_def)

lemma demo_client: "\<exists>c. new_client c"
proof -
  have "unat logCap < 31" by (simp add: logCap_def)
  from oram_wf_new [OF this, of blockSize zBuckets] obtain o' where "new_ORAMClass logCap blockSize zBuckets = Inr o'"
    by blast
  then have "NewClient None (Some (replicate 32 7)) True True '''' True =
      Inr (\<lparr>c_oram = \<lparr>ptr = Some o'\<rparr>, c_symKey = replicate 32 7, c_idCounter = 1, c_tempDir = ''/mnt/data''\<rparr>, Some (replicate 32 7))"
    by (simp add: NewClient_def newLoadOrGenerateKey_def ORAM_Init_def oram_init_def)
  moreover have "\<forall>k. Some (replicate 32 (7::byte)) = Some k \<longrightarrow> length k = 32" by simp
  ultimately show ?thesis unfolding new_client_def by blast
qed

lemma demo_ct_list: "ctr_crypt demo_cipher [] demo_nonce (bytes_of (marshal (GArr [GStr ''b'']))) = [1, 123, 58, 125, 3]"
  by code_simp

theorem bench_maps_differ_witness:
  "\<exists>c m1 m2 m3 p p1 p2 p3. new_client c \<and>
     mm_Write (emm_map demo_get demo_set) demo_lib_env ''k'' ''a'' (fresh_process c, []) = Inr m1 \<and>
     mm_Write (emm_map demo_get demo_set) demo_lib_env ''k'' ''b'' m1 = Inr m2 \<and>
     mm_Read (emm_map demo_get demo_set) demo_lib_env ''k'' m2 = Inr ([''b''], m3) \<and>
     newPlaintextMultiMap True '''' Some = Some p \<and> mm_Write plain_map \<lparr>pm_nano = 1, pm_creates = True\<rparr> ''k'' ''a'' p = Inr p1 \<and>
     mm_Write plain_map \<lparr>pm_nano = 2, pm_creates = True\<rparr> ''k'' ''b'' p1 = Inr p2 \<and>
     mm_Read plain_map \<lparr>pm_nano = 3, pm_creates = True\<rparr> ''k'' p2 = Inr ([''a'', ''b''], p3)"
proof -
  from demo_client obtain c where c: "new_client c" by blast
  obtain p where p: "newPlaintextMultiMap True '''' Some = Some p" by (simp add: newPlaintextMultiMap_def)
  have "survives (\<lambda>_. 0) (gcm_seal demo_cipher (c_symKey c) demo_nonce demo_nonce (bytes_of (marshal (GArr [GStr ''b'']))))"
    unfolding gcm_seal_demo demo_tag demo_ct_list by (simp add: survives_def demo_nonce_def block_bytes_def)
  with bench_maps_differ [OF dict_ids.id_map_axioms, of "[]" c demo_lib_env demo_cipher demo_lib_env demo_lib_env demo_nonce
      "''b''" True "''''" Some p "''k''" "''a''" "\<lparr>pm_nano = 1, pm_creates = True\<rparr>" "\<lparr>pm_nano = 2, pm_creates = True\<rparr>"
      "\<lparr>pm_nano = 3, pm_creates = True\<rparr>"] c p
  show ?thesis by (simp add: demo_ids demo_nonce_size) blast
qed

end
