(* ===== verification/Benchmark.thy ===== *)
theory Benchmark
  imports Bench_Maps Bench_Stats
begin

text \<open>
  The benchmark itself (\<open>benchmark\<close> of \<open>mains/testing_emm.go\<close>): seven runs, each of nine random
  operations, the deletion of the first half of the written keys, and a read of every key written.
  The random source, the environment of each operation and the measurements are parameters.
\<close>

section \<open>One run\<close>

record ('m, 'g) bench =
  b_map :: 'm
  b_gen :: 'g
  b_calls :: nat
  b_written :: "string list"

text \<open>A call of the multi-map, in the next environment.\<close>

definition bench_read :: "('m, 'e) MultiMap \<Rightarrow> (nat \<Rightarrow> 'e) \<Rightarrow> string \<Rightarrow> ('m, 'g) bench \<Rightarrow> fault + ('m, 'g) bench" where
  "bench_read mm envs key b = map_sum id (\<lambda>(vals, m). b\<lparr>b_map := m, b_calls := Suc (b_calls b)\<rparr>)
     (mm_Read mm (envs (b_calls b)) key (b_map b))"

definition bench_write :: "('m, 'e) MultiMap \<Rightarrow> (nat \<Rightarrow> 'e) \<Rightarrow> string \<Rightarrow> string \<Rightarrow> ('m, 'g) bench \<Rightarrow> fault + ('m, 'g) bench" where
  "bench_write mm envs key val b = map_sum id (\<lambda>m. b\<lparr>b_map := m, b_calls := Suc (b_calls b)\<rparr>)
     (mm_Write mm (envs (b_calls b)) key val (b_map b))"

definition bench_delete :: "('m, 'e) MultiMap \<Rightarrow> (nat \<Rightarrow> 'e) \<Rightarrow> string \<Rightarrow> ('m, 'g) bench \<Rightarrow> fault + ('m, 'g) bench" where
  "bench_delete mm envs key b = map_sum id (\<lambda>m. b\<lparr>b_map := m, b_calls := Suc (b_calls b)\<rparr>)
     (mm_Delete mm (envs (b_calls b)) key (b_map b))"

text \<open>\<open>xs[rand.Intn(len(xs))]\<close>, which panics for an empty slice.\<close>

definition pick :: "'g intn \<Rightarrow> 'a list \<Rightarrow> 'g \<Rightarrow> fault + 'a \<times> 'g" where
  "pick intn xs g = (if xs = [] then Inl GoPanic else (let (i, g') = intn (length xs) g in Inr (xs ! i, g')))"

definition valSize :: nat where "valSize = 3"

definition readPercentage :: nat where "readPercentage = 50"

definition warm_up ::
  "('m, 'e) MultiMap \<Rightarrow> (nat \<Rightarrow> 'e) \<Rightarrow> 'g intn \<Rightarrow> string list \<Rightarrow> string list \<Rightarrow> ('m, 'g) bench \<Rightarrow> fault + ('m, 'g) bench" where
  "warm_up mm envs intn keys users b =
     sum_bind (pick intn keys (b_gen b)) (\<lambda>(key, g1).
       let (val, g2) = randomValue intn valSize g1;
           (reading, g3) = (if 0 < length (b_written b)
              then (let (d, g) = intn 100 g2 in (d < readPercentage, g)) else (False, g2))
       in sum_bind (if reading then pick intn (b_written b) g3 else Inr (key, g3)) (\<lambda>(key', g4).
          sum_bind (pick intn users g4) (\<lambda>(user, g5).
            if reading then bench_read mm envs key' (b\<lparr>b_gen := g5\<rparr>)
            else map_sum id (\<lambda>b'. b'\<lparr>b_written := b_written b' @ [key']\<rparr>) (bench_write mm envs key' val (b\<lparr>b_gen := g5\<rparr>)))))"

primrec warm_ups ::
  "nat \<Rightarrow> ('m, 'e) MultiMap \<Rightarrow> (nat \<Rightarrow> 'e) \<Rightarrow> 'g intn \<Rightarrow> string list \<Rightarrow> string list \<Rightarrow> ('m, 'g) bench \<Rightarrow> fault + ('m, 'g) bench" where
  "warm_ups 0 mm envs intn keys users b = Inr b"
| "warm_ups (Suc n) mm envs intn keys users b =
     sum_bind (warm_up mm envs intn keys users b) (warm_ups n mm envs intn keys users)"

primrec delete_phase :: "('m, 'e) MultiMap \<Rightarrow> (nat \<Rightarrow> 'e) \<Rightarrow> string list \<Rightarrow> ('m, 'g) bench \<Rightarrow> fault + ('m, 'g) bench" where
  "delete_phase mm envs [] b = Inr b"
| "delete_phase mm envs (k # ks) b = sum_bind (bench_delete mm envs k b) (delete_phase mm envs ks)"

text \<open>\<open>keySeen\<close> and \<open>allKeys\<close> have the same keys.\<close>

primrec read_phase ::
  "('m, 'e) MultiMap \<Rightarrow> (nat \<Rightarrow> 'e) \<Rightarrow> string list \<Rightarrow> string list \<Rightarrow> ('m, 'g) bench \<Rightarrow> fault + ('m, 'g) bench \<times> string list" where
  "read_phase mm envs [] seen b = Inr (b, seen)"
| "read_phase mm envs (k # ks) seen b =
     (if k \<in> set seen then read_phase mm envs ks seen b
      else sum_bind (bench_read mm envs k b) (read_phase mm envs ks (seen @ [k])))"

definition numWarmupBatches :: nat where "numWarmupBatches = 3"

definition batchSize :: nat where "batchSize = 3"

definition bench_run ::
  "('m, 'e) MultiMap \<Rightarrow> (nat \<Rightarrow> 'e) \<Rightarrow> 'g intn \<Rightarrow> string list \<Rightarrow> string list \<Rightarrow> ('m, 'g) bench \<Rightarrow> fault + ('m, 'g) bench \<times> string list" where
  "bench_run mm envs intn keys users b =
     sum_bind (warm_ups (numWarmupBatches * batchSize) mm envs intn keys users (b\<lparr>b_written := []\<rparr>)) (\<lambda>b1.
     sum_bind (delete_phase mm envs (take (length (b_written b1) div 2) (b_written b1)) b1) (\<lambda>b2.
     read_phase mm envs (b_written b2) [] b2))"

section \<open>All runs\<close>

record measures =
  io_before :: "string option"
  io_after :: "string option"
  run_usage :: usage_env
  elapsed_us :: int

record averages =
  avgRuntime :: rat
  avgMem :: rat
  avgCPU :: rat
  avgRSS :: rat
  avgDReads :: rat
  avgDWrites :: rat
  avgCReads :: rat
  avgCWrites :: rat

definition measure_run :: "measures \<Rightarrow> fault + rat \<times> usage" where
  "measure_run M =
     (case (readDiskIO (io_before M), readDiskIO (io_after M)) of
        (Some diskBefore, Some diskAfter) \<Rightarrow>
          Inr (float64 (float64 (of_int (elapsed_us M)) / 1000), getUsageStats (run_usage M) diskBefore diskAfter)
      | _ \<Rightarrow> Inl GoPanic)"

primrec bench_runs ::
  "measures list \<Rightarrow> ('m, 'e) MultiMap \<Rightarrow> (nat \<Rightarrow> 'e) \<Rightarrow> 'g intn \<Rightarrow> string list \<Rightarrow> string list \<Rightarrow> ('m, 'g) bench
     \<Rightarrow> fault + (rat \<times> usage) list \<times> ('m, 'g) bench" where
  "bench_runs [] mm envs intn keys users b = Inr ([], b)"
| "bench_runs (M # Ms) mm envs intn keys users b =
     sum_bind (bench_run mm envs intn keys users b) (\<lambda>(b1, allKeys).
     sum_bind (measure_run M) (\<lambda>row.
     map_sum id (\<lambda>(rows, b2). (row # rows, b2)) (bench_runs Ms mm envs intn keys users b1)))"

definition average_of :: "('r \<Rightarrow> rat) \<Rightarrow> 'r list \<Rightarrow> rat" where
  "average_of f rows = fst (averageFloat64 (map f rows))"

definition totalRuns :: nat where "totalRuns = 7"

text \<open>\<open>benchmark\<close>: the averages it logs; what it returns is always 0.\<close>

definition benchmark ::
  "(nat \<Rightarrow> measures) \<Rightarrow> ('m, 'e) MultiMap \<Rightarrow> (nat \<Rightarrow> 'e) \<Rightarrow> 'g intn \<Rightarrow> string list \<Rightarrow> string list \<Rightarrow> ('m, 'g) bench
     \<Rightarrow> fault + rat \<times> averages \<times> ('m, 'g) bench" where
  "benchmark M mm envs intn keys users b =
     map_sum id (\<lambda>(rows, b'). (0,
       \<lparr>avgRuntime = average_of fst rows, avgMem = average_of (memUsage \<circ> snd) rows,
        avgCPU = average_of (cpuUsage \<circ> snd) rows, avgRSS = average_of (float64 \<circ> of_int \<circ> topRSS \<circ> snd) rows,
        avgDReads = average_of (float64 \<circ> of_int \<circ> diskReads \<circ> snd) rows,
        avgDWrites = average_of (float64 \<circ> of_int \<circ> diskWrites \<circ> snd) rows,
        avgCReads = average_of (float64 \<circ> of_int \<circ> cacheReads \<circ> snd) rows,
        avgCWrites = average_of (float64 \<circ> of_int \<circ> cacheWrites \<circ> snd) rows\<rparr>, b'))
     (bench_runs (map M [0..<totalRuns]) mm envs intn keys users b)"

end
