(* ===== verification/Bench_Properties.thy ===== *)
theory Bench_Properties
  imports Benchmark
begin

text \<open>
  The properties of the benchmark: which operations a run makes, whatever the multi-map answers, and
  what a run leaves in a multi-map that keeps the contract \<open>multi_map\<close>.
\<close>

section \<open>The operations of a run\<close>

datatype mm_op = MRead string | MWrite string string | MDelete string

primrec do_op :: "('m, 'e) MultiMap \<Rightarrow> 'e \<Rightarrow> mm_op \<Rightarrow> 'm \<Rightarrow> fault + 'm" where
  "do_op mm E (MRead k) m = map_sum id snd (mm_Read mm E k m)"
| "do_op mm E (MWrite k v) m = mm_Write mm E k v m"
| "do_op mm E (MDelete k) m = mm_Delete mm E k m"

primrec do_ops :: "('m, 'e) MultiMap \<Rightarrow> (nat \<Rightarrow> 'e) \<Rightarrow> nat \<Rightarrow> mm_op list \<Rightarrow> 'm \<Rightarrow> fault + 'm" where
  "do_ops mm envs n [] m = Inr m"
| "do_ops mm envs n (q # qs) m = sum_bind (do_op mm (envs n) q m) (do_ops mm envs (Suc n) qs)"

primrec written_by :: "mm_op \<Rightarrow> string list" where
  "written_by (MRead k) = []"
| "written_by (MWrite k v) = [k]"
| "written_by (MDelete k) = []"

definition written_keys :: "mm_op list \<Rightarrow> string list" where
  "written_keys qs = concat (map written_by qs)"

lemma written_keys_simps [simp]:
  "written_keys [] = []" "written_keys (q # qs) = written_by q @ written_keys qs"
  by (simp_all add: written_keys_def)

lemma do_ops_append:
  "do_ops mm envs n (qs @ qs') m = sum_bind (do_ops mm envs n qs m) (do_ops mm envs (n + length qs) qs')"
proof (induction qs arbitrary: n m)
  case (Cons q qs)
  show ?case by (cases "do_op mm (envs n) q m") (simp_all add: Cons.IH)
qed simp

text \<open>The choices of the warm-up, which depend on the random source only.\<close>

definition choice :: "'g intn \<Rightarrow> string list \<Rightarrow> string list \<Rightarrow> string list \<Rightarrow> 'g \<Rightarrow> mm_op \<times> 'g" where
  "choice intn keys users written g =
     (let (i, g1) = intn (length keys) g; (val, g2) = randomValue intn valSize g1;
          (reading, g3) = (if 0 < length written then (let (d, g) = intn 100 g2 in (d < readPercentage, g)) else (False, g2));
          (key, g4) = (if reading then (let (j, g) = intn (length written) g3 in (written ! j, g)) else (keys ! i, g3));
          (u, g5) = intn (length users) g4
      in (if reading then MRead key else MWrite key val, g5))"

primrec choices :: "nat \<Rightarrow> 'g intn \<Rightarrow> string list \<Rightarrow> string list \<Rightarrow> string list \<Rightarrow> 'g \<Rightarrow> mm_op list \<times> 'g" where
  "choices 0 intn keys users written g = ([], g)"
| "choices (Suc n) intn keys users written g =
     (let (q, g1) = choice intn keys users written g; (qs, g2) = choices n intn keys users (written @ written_by q) g1
      in (q # qs, g2))"

lemma warm_up_choice:
  assumes "keys \<noteq> []" and "users \<noteq> []"
  shows "warm_up mm envs intn keys users b =
    (let (q, g) = choice intn keys users (b_written b) (b_gen b) in
     map_sum id (\<lambda>m. b\<lparr>b_map := m, b_gen := g, b_calls := Suc (b_calls b), b_written := b_written b @ written_by q\<rparr>)
       (do_op mm (envs (b_calls b)) q (b_map b)))"
proof -
  obtain i g1 where 1: "intn (length keys) (b_gen b) = (i, g1)" by fastforce
  obtain val g2 where 2: "randomValue intn valSize g1 = (val, g2)" by fastforce
  obtain reading g3 where 3: "(if 0 < length (b_written b)
      then (let (d, g) = intn 100 g2 in (d < readPercentage, g)) else (False, g2)) = (reading, g3)" by fastforce
  show ?thesis
  proof (cases reading)
    case True
    with 3 have "b_written b \<noteq> []" by auto
    obtain j g4 where 4: "intn (length (b_written b)) g3 = (j, g4)" by fastforce
    obtain u g5 where 5: "intn (length users) g4 = (u, g5)" by fastforce
    show ?thesis
      using assms True \<open>b_written b \<noteq> []\<close> 1 2 3 4 5
      by (cases "mm_Read mm (envs (b_calls b)) (b_written b ! j) (b_map b)"; cases b)
        (simp_all add: warm_up_def choice_def pick_def bench_read_def Let_def split_beta)
  next
    case False
    obtain u g5 where 5: "intn (length users) g3 = (u, g5)" by fastforce
    have 3: "(if 0 < length (b_written b)
      then (let (d, g) = intn 100 g2 in (d < readPercentage, g)) else (False, g2)) = (False, g3)"
      using 3 False by simp
    show ?thesis
      using assms 1 2 5
      by (cases "mm_Write mm (envs (b_calls b)) (keys ! i) val (b_map b)")
        (simp_all add: warm_up_def choice_def pick_def bench_write_def 3 del: length_greater_0_conv)
  qed
qed

lemma warm_ups_choices:
  assumes "keys \<noteq> []" and "users \<noteq> []"
  shows "warm_ups n mm envs intn keys users b =
    (let (qs, g) = choices n intn keys users (b_written b) (b_gen b) in
     map_sum id (\<lambda>m. b\<lparr>b_map := m, b_gen := g, b_calls := b_calls b + n, b_written := b_written b @ written_keys qs\<rparr>)
       (do_ops mm envs (b_calls b) qs (b_map b)))"
proof (induction n arbitrary: b)
  case 0
  then show ?case by (cases b) simp
next
  case (Suc n)
  obtain q g where q: "choice intn keys users (b_written b) (b_gen b) = (q, g)" by fastforce
  obtain qs g' where qs: "choices n intn keys users (b_written b @ written_by q) g = (qs, g')" by fastforce
  show ?case
  proof (cases "do_op mm (envs (b_calls b)) q (b_map b)")
    case (Inl f)
    with q qs show ?thesis by (simp add: warm_up_choice [OF assms])
  next
    case (Inr m)
    with q qs show ?thesis
      by (cases "do_ops mm envs (Suc (b_calls b)) qs m") (simp_all add: warm_up_choice [OF assms] Suc.IH)
  qed
qed

lemma delete_phase_ops:
  "delete_phase mm envs ks b = map_sum id (\<lambda>m. b\<lparr>b_map := m, b_calls := b_calls b + length ks\<rparr>)
     (do_ops mm envs (b_calls b) (map MDelete ks) (b_map b))"
proof (induction ks arbitrary: b)
  case (Cons k ks)
  show ?case
  proof (cases "mm_Delete mm (envs (b_calls b)) k (b_map b)")
    case (Inr m)
    then show ?thesis
      by (cases "do_ops mm envs (Suc (b_calls b)) (map MDelete ks) m") (simp_all add: Cons.IH bench_delete_def)
  qed (simp add: bench_delete_def)
qed simp

text \<open>The keys not seen yet, each at its first place.\<close>

primrec firsts :: "string list \<Rightarrow> string list \<Rightarrow> string list" where
  "firsts [] seen = []"
| "firsts (k # ks) seen = (if k \<in> set seen then firsts ks seen else k # firsts ks (seen @ [k]))"

lemma read_phase_ops:
  "read_phase mm envs ks seen b =
     map_sum id (\<lambda>m. (b\<lparr>b_map := m, b_calls := b_calls b + length (firsts ks seen)\<rparr>, seen @ firsts ks seen))
       (do_ops mm envs (b_calls b) (map MRead (firsts ks seen)) (b_map b))"
proof (induction ks arbitrary: seen b)
  case (Cons k ks)
  show ?case
  proof (cases "k \<in> set seen")
    case False
    show ?thesis
    proof (cases "mm_Read mm (envs (b_calls b)) k (b_map b)")
      case (Inr r)
      with False show ?thesis
        by (cases "do_ops mm envs (Suc (b_calls b)) (map MRead (firsts ks (seen @ [k]))) (snd r)")
          (simp_all add: Cons.IH bench_read_def split_beta)
    qed (use False in \<open>simp add: bench_read_def\<close>)
  qed (simp add: Cons.IH)
qed simp

lemma firsts_set: "set (firsts ks seen) = set ks - set seen"
  by (induction ks arbitrary: seen) auto

lemma firsts_distinct: "distinct (firsts ks seen)"
  by (induction ks arbitrary: seen) (auto simp: firsts_set)

section \<open>A run as a sequence of operations\<close>

text \<open>\<open>rand.Intn n\<close> is below \<open>n\<close>.\<close>

definition in_range :: "'g intn \<Rightarrow> bool" where
  "in_range intn \<longleftrightarrow> (\<forall>n g. 0 < n \<longrightarrow> fst (intn n g) < n)"

lemma choice_cases:
  assumes "in_range intn" and "keys \<noteq> []"
  shows "(\<exists>k v. fst (choice intn keys users written g) = MWrite k v \<and> k \<in> set keys \<and> length v = valSize) \<or>
    (\<exists>k. fst (choice intn keys users written g) = MRead k \<and> k \<in> set written)"
proof -
  have len: "length (fst (randomValue intn n g)) = n" for n g
    by (induction n arbitrary: g) (simp_all add: split_beta Let_def)
  have "written \<noteq> [] \<Longrightarrow> fst (intn (length written) g') < length written"
      "fst (intn (length keys) g') < length keys" for g'
    using assms by (simp_all add: in_range_def)
  then show ?thesis
    by (simp add: choice_def Let_def split_beta len)
qed

lemma choices_sound:
  assumes "in_range intn" and "keys \<noteq> []"
  shows "let qs = fst (choices n intn keys users written g) in length qs = n \<and> set (written_keys qs) \<subseteq> set keys \<and>
    (\<forall>i k. i < n \<longrightarrow> qs ! i = MRead k \<longrightarrow> k \<in> set written \<union> set (written_keys (take i qs))) \<and>
    (\<forall>k. MDelete k \<notin> set qs)"
proof (induction n arbitrary: written g)
  case (Suc n)
  obtain q g1 where q: "choice intn keys users written g = (q, g1)" by fastforce
  obtain qs g2 where qs: "choices n intn keys users (written @ written_by q) g1 = (qs, g2)" by fastforce
  have q': "(\<exists>k v. q = MWrite k v \<and> k \<in> set keys) \<or> (\<exists>k. q = MRead k \<and> k \<in> set written)"
    using choice_cases [OF assms, of users written g] q by auto
  have ih: "length qs = n" "set (written_keys qs) \<subseteq> set keys" "\<And>k. MDelete k \<notin> set qs"
      "\<And>i k. i < n \<Longrightarrow> qs ! i = MRead k \<Longrightarrow> k \<in> set (written @ written_by q) \<union> set (written_keys (take i qs))"
    using Suc.IH [of "written @ written_by q" g1] qs by (auto simp: Let_def)
  have "k \<in> set written \<union> set (written_keys (take i (q # qs)))" if "i < Suc n" "(q # qs) ! i = MRead k" for i k
  proof (cases i)
    case 0
    with that q' show ?thesis by auto
  next
    case (Suc j)
    with that ih(4) [of j k] show ?thesis by auto
  qed
  with q qs q' ih(1-3) show ?case by (auto simp: Let_def)
qed simp

lemma choices_first_write:
  "fst (choices (Suc n) intn keys users [] g) = q # qs \<Longrightarrow> \<exists>k v. q = MWrite k v"
  by (auto simp: choice_def Let_def split_beta split: if_splits)

text \<open>The operations of a run, by phase.\<close>

definition run_writes :: "'g intn \<Rightarrow> string list \<Rightarrow> string list \<Rightarrow> 'g \<Rightarrow> string list" where
  "run_writes intn keys users g = written_keys (fst (choices 9 intn keys users [] g))"

definition run_deletes :: "'g intn \<Rightarrow> string list \<Rightarrow> string list \<Rightarrow> 'g \<Rightarrow> string list" where
  "run_deletes intn keys users g = (let ks = run_writes intn keys users g in take (length ks div 2) ks)"

definition run_reads :: "'g intn \<Rightarrow> string list \<Rightarrow> string list \<Rightarrow> 'g \<Rightarrow> string list" where
  "run_reads intn keys users g = firsts (run_writes intn keys users g) []"

definition run_ops :: "'g intn \<Rightarrow> string list \<Rightarrow> string list \<Rightarrow> 'g \<Rightarrow> mm_op list" where
  "run_ops intn keys users g = fst (choices 9 intn keys users [] g) @
     map MDelete (run_deletes intn keys users g) @ map MRead (run_reads intn keys users g)"

lemma bench_run_is_ops:
  assumes "keys \<noteq> []" and "users \<noteq> []"
  shows "bench_run mm envs intn keys users b = map_sum id
    (\<lambda>m. (b\<lparr>b_map := m, b_gen := snd (choices 9 intn keys users [] (b_gen b)),
            b_calls := b_calls b + length (run_ops intn keys users (b_gen b)),
            b_written := run_writes intn keys users (b_gen b)\<rparr>,
          run_reads intn keys users (b_gen b)))
    (do_ops mm envs (b_calls b) (run_ops intn keys users (b_gen b)) (b_map b))"
proof -
  obtain qs g where c: "choices 9 intn keys users [] (b_gen b) = (qs, g)" by fastforce
  have len: "length qs = 9"
  proof -
    have "length (fst (choices n intn keys users w h)) = n" for n w h
      by (induction n arbitrary: w h) (simp_all add: Let_def split_beta)
    from this [of 9 "[]" "b_gen b"] c show ?thesis by simp
  qed
  note defs = run_ops_def run_deletes_def run_reads_def run_writes_def Let_def c fst_conv snd_conv
  show ?thesis
  proof (cases "do_ops mm envs (b_calls b) qs (b_map b)")
    case (Inl f)
    then show ?thesis
      unfolding bench_run_def warm_ups_choices [OF assms] defs
      by (simp add: numWarmupBatches_def batchSize_def c do_ops_append)
  next
    case (Inr m)
    let ?ds = "take (length (written_keys qs) div 2) (written_keys qs)"
    show ?thesis
    proof (cases "do_ops mm envs (b_calls b + 9) (map MDelete ?ds) m")
      case (Inl f)
      with Inr show ?thesis
        unfolding bench_run_def warm_ups_choices [OF assms] defs
        by (simp add: numWarmupBatches_def batchSize_def c do_ops_append len delete_phase_ops)
    next
      case (Inr m')
      with \<open>do_ops mm envs (b_calls b) qs (b_map b) = Inr m\<close> show ?thesis
        unfolding bench_run_def warm_ups_choices [OF assms] defs
        by (cases "do_ops mm envs (b_calls b + 9 + length ?ds) (map MRead (firsts (written_keys qs) [])) m'")
          (simp_all add: numWarmupBatches_def batchSize_def c do_ops_append len delete_phase_ops read_phase_ops add.assoc)
    qed
  qed
qed

text \<open>C37: A run of the benchmark makes the same operations on every multi-map, whatever the multi-map
  answers: nine random reads and writes of which the first is a write, every write is to a key of the
  list and every read of a key written before, then the deletion of the first half of the written
  keys, then one read of each key written, the deleted ones included.\<close>

theorem bench_run_ops:
  fixes intn :: "'g intn"
  assumes "in_range intn" and "keys \<noteq> []" and "users \<noteq> []"
  shows "\<exists>warm deleted reads.
    (\<forall>(mm :: ('m, 'e) MultiMap) envs b. b_gen b = g \<longrightarrow>
      map_sum id (\<lambda>(b', allKeys). (b_map b', allKeys)) (bench_run mm envs intn keys users b) =
      map_sum id (\<lambda>m. (m, reads))
        (do_ops mm envs (b_calls b) (warm @ map MDelete deleted @ map MRead reads) (b_map b))) \<and>
    length warm = 9 \<and> (\<exists>k v. hd warm = MWrite k v) \<and> set (written_keys warm) \<subseteq> set keys \<and>
    (\<forall>i k. i < 9 \<longrightarrow> warm ! i = MRead k \<longrightarrow> k \<in> set (written_keys (take i warm))) \<and>
    deleted = take (length (written_keys warm) div 2) (written_keys warm) \<and>
    distinct reads \<and> set reads = set (written_keys warm) \<and> set deleted \<subseteq> set reads"
proof -
  let ?qs = "fst (choices 9 intn keys users [] g)"
  let ?ds = "run_deletes intn keys users g" and ?rs = "run_reads intn keys users g"
  note sound = choices_sound [OF assms(1,2), of 9 users "[]" g, unfolded Let_def]
  have run: "\<forall>(mm :: ('m, 'e) MultiMap) envs b. b_gen b = g \<longrightarrow>
      map_sum id (\<lambda>(b', allKeys). (b_map b', allKeys)) (bench_run mm envs intn keys users b) =
      map_sum id (\<lambda>m. (m, ?rs)) (do_ops mm envs (b_calls b) (?qs @ map MDelete ?ds @ map MRead ?rs) (b_map b))"
  proof (intro allI impI)
    fix mm :: "('m, 'e) MultiMap" and envs and b :: "('m, 'g) bench" assume g: "b_gen b = g"
    show "map_sum id (\<lambda>(b', allKeys). (b_map b', allKeys)) (bench_run mm envs intn keys users b) =
        map_sum id (\<lambda>m. (m, ?rs)) (do_ops mm envs (b_calls b) (?qs @ map MDelete ?ds @ map MRead ?rs) (b_map b))"
      unfolding bench_run_is_ops [OF assms(2,3)] run_ops_def g
      by (cases "do_ops mm envs (b_calls b) (?qs @ map MDelete ?ds @ map MRead ?rs) (b_map b)") simp_all
  qed
  obtain q qs where q: "?qs = q # qs" using sound by (cases ?qs) auto
  then obtain k v where hd: "hd ?qs = MWrite k v"
    using choices_first_write [of 8 intn keys users g q qs] by (auto simp: eval_nat_numeral)
  have reads: "distinct ?rs" "set ?rs = set (written_keys ?qs)"
    by (simp_all add: run_reads_def run_writes_def firsts_distinct firsts_set)
  show ?thesis
  proof (intro exI conjI)
    show "hd ?qs = MWrite k v" by (rule hd)
    show "?ds = take (length (written_keys ?qs) div 2) (written_keys ?qs)"
      by (simp add: run_deletes_def run_writes_def Let_def)
    then show "set ?ds \<subseteq> set ?rs" using reads(2) by (auto dest: in_set_takeD)
  qed (use run sound reads in auto)
qed

text \<open>A source that counts, and two users.\<close>

definition demo_intn :: "nat intn" where
  "demo_intn n g = (g mod n, Suc g)"

lemma demo_intn_range: "in_range demo_intn"
  by (simp add: in_range_def demo_intn_def)

theorem bench_run_ops_witness:
  "\<exists>warm deleted reads.
    (\<forall>mm envs b. b_gen b = 0 \<longrightarrow>
      map_sum id (\<lambda>(b', allKeys). (b_map b', allKeys)) (bench_run mm envs demo_intn [''a'', ''b''] [''u''] b) =
      map_sum id (\<lambda>m. (m, reads))
        (do_ops (mm :: (PlaintextMultiMap, pm_env) MultiMap) envs (b_calls b) (warm @ map MDelete deleted @ map MRead reads) (b_map b))) \<and>
    length warm = 9 \<and> (\<exists>k v. hd warm = MWrite k v) \<and> set (written_keys warm) \<subseteq> set [''a'', ''b''] \<and>
    (\<forall>i k. i < 9 \<longrightarrow> warm ! i = MRead k \<longrightarrow> k \<in> set (written_keys (take i warm))) \<and>
    deleted = take (length (written_keys warm) div 2) (written_keys warm) \<and>
    distinct reads \<and> set reads = set (written_keys warm) \<and> set deleted \<subseteq> set reads"
  by (rule bench_run_ops [OF demo_intn_range]) simp_all

section \<open>A run on a multi-map that keeps its contract\<close>

primrec op_effect :: "mm_op \<Rightarrow> (string \<Rightarrow> string list) \<Rightarrow> string \<Rightarrow> string list" where
  "op_effect (MRead k) f = f"
| "op_effect (MWrite k v) f = f(k := f k @ [v])"
| "op_effect (MDelete k) f = f(k := [])"

context multi_map
begin

lemma do_op_law: "\<exists>m'. do_op mm E q m = Inr m' \<and> vals m' = op_effect q (vals m)"
proof (cases q)
  case (MRead k)
  with read_law [of E k m] show ?thesis by (elim exE) simp
next
  case (MWrite k v)
  with write_law [of E k v m] show ?thesis by simp
next
  case (MDelete k)
  with delete_law [of E k m] show ?thesis by simp
qed

lemma do_ops_law: "\<exists>m'. do_ops mm envs n qs m = Inr m' \<and> vals m' = fold op_effect qs (vals m)"
proof (induction qs arbitrary: n m)
  case (Cons q qs)
  from do_op_law [of "envs n" q m] obtain m1 where 1: "do_op mm (envs n) q m = Inr m1" "vals m1 = op_effect q (vals m)"
    by blast
  with Cons.IH [of "Suc n" m1] show ?case by simp
qed simp

end

lemma reads_effect: "fold op_effect (map MRead ks) f = f"
  by (induction ks arbitrary: f) simp_all

lemma deletes_effect: "fold op_effect (map MDelete ks) f k = (if k \<in> set ks then [] else f k)"
  by (induction ks arbitrary: f) simp_all

lemma writes_effect:
  assumes "\<forall>k. MDelete k \<notin> set qs"
  shows "f k \<noteq> [] \<or> k \<in> set (written_keys qs) \<Longrightarrow> fold op_effect qs f k \<noteq> []"
  using assms
proof (induction qs arbitrary: f)
  case (Cons q qs)
  have "op_effect q f k \<noteq> [] \<or> k \<in> set (written_keys qs)"
    using Cons.prems by (cases q) auto
  with Cons show ?case by simp
qed simp

lemma run_effect:
  assumes "in_range intn" and "keys \<noteq> []" and "k \<in> set (run_reads intn keys users g)"
  shows "fold op_effect (run_ops intn keys users g) f k = [] \<longleftrightarrow> k \<in> set (run_deletes intn keys users g)"
proof -
  let ?qs = "fst (choices 9 intn keys users [] g)"
  have "\<forall>k. MDelete k \<notin> set ?qs" using choices_sound [OF assms(1,2), of 9 users "[]" g] by (simp add: Let_def)
  moreover have "k \<in> set (written_keys ?qs)" using assms(3) by (simp add: run_reads_def run_writes_def firsts_set)
  ultimately have "fold op_effect ?qs f k \<noteq> []" by (intro writes_effect) auto
  then show ?thesis by (simp add: run_ops_def reads_effect deletes_effect)
qed

text \<open>C38: On the plaintext multi-map a run of the benchmark never fails, and of the keys it has written exactly
  those of the first half, which it deleted, hold no value at its end. So the reads of the last phase
  find values for the remaining keys only.\<close>

theorem plain_bench_run:
  assumes "in_range intn" and "keys \<noteq> []" and "users \<noteq> []"
  shows "\<exists>b' allKeys. bench_run plain_map envs intn keys users b = Inr (b', allKeys) \<and>
    allKeys \<noteq> [] \<and> set allKeys = set (b_written b') \<and>
    (\<forall>k \<in> set allKeys. gl (pm_store (b_map b')) k = [] \<longleftrightarrow>
      k \<in> set (take (length (b_written b') div 2) (b_written b')))"
proof -
  let ?g = "b_gen b"
  from plain.do_ops_law [of envs "b_calls b" "run_ops intn keys users ?g" "b_map b"] obtain m where
      m: "do_ops plain_map envs (b_calls b) (run_ops intn keys users ?g) (b_map b) = Inr m"
      "gl (pm_store m) = fold op_effect (run_ops intn keys users ?g) (gl (pm_store (b_map b)))"
    by blast
  have "run_writes intn keys users ?g \<noteq> []"
  proof -
    obtain q qs where q: "fst (choices 9 intn keys users [] ?g) = q # qs"
      using choices_sound [OF assms(1,2), of 9 users "[]" ?g] by (cases "fst (choices 9 intn keys users [] ?g)") (auto simp: Let_def)
    with choices_first_write [of 8 intn keys users ?g q qs] show ?thesis by (auto simp: run_writes_def eval_nat_numeral)
  qed
  moreover have "set (run_reads intn keys users ?g) = set (run_writes intn keys users ?g)"
    by (simp add: run_reads_def firsts_set)
  ultimately show ?thesis
    using run_effect [OF assms(1,2), of _ users ?g "gl (pm_store (b_map b))"] m
    by (auto simp: bench_run_is_ops [OF assms(2,3)] run_deletes_def Let_def)
qed

theorem plain_bench_run_witness:
  "\<exists>b' allKeys. bench_run plain_map (\<lambda>n. \<lparr>pm_nano = int n, pm_creates = True\<rparr>) demo_intn [''a'', ''b''] [''u'']
      \<lparr>b_map = \<lparr>pm_store = [], pm_tempDir = ''/tmp'', pm_files = []\<rparr>, b_gen = 0, b_calls = 0, b_written = []\<rparr> = Inr (b', allKeys) \<and>
    allKeys \<noteq> [] \<and> set allKeys = set (b_written b') \<and>
    (\<forall>k \<in> set allKeys. gl (pm_store (b_map b')) k = [] \<longleftrightarrow>
      k \<in> set (take (length (b_written b') div 2) (b_written b')))"
  by (rule plain_bench_run [OF demo_intn_range]) simp_all

end
