(* ===== verification/Spec2Isabelle.thy ===== *)
theory Spec2Isabelle
  imports Locker_Prelude LRU_Cache Min_Heap BST_Heap Go_Text Proxy Proxy_Rounds Proxy_Batch Proxy_Answers
    Path_ORAM GCM JSON_Codec HIRB_Store EMM_Server EMM_Laws EMM_Refine EMM_Runs EMM_Demo EMM_Properties EMM_Restart EMM_SelfTest
    Goroutines Secure Secure_Properties Plaintext EMM_Race EMM_Insecure
    Go_Float Bench_Stats Bench_Laws Bench_Maps Benchmark Bench_Properties
begin

text \<open>
  Locker: an oblivious key-value store. This development models the Go program (three servers, their
  libraries and a benchmark), with the C++ class and the Python handler right behind the Go code.

  The parts and how they interact.
  \<^item> \<open>mains/proxy.go\<close> is a batching proxy between clients and etcd. It keeps an LRU cache and a heap of
    last access times (\<open>BSTHeap\<close>, two min-heaps). A round (\<open>handleRequests\<close>) serves a batch of requests:
    hits are answered from the cache, misses are fetched together with dummy keys and the least
    recently used real keys, so that a fetch has a fixed size; what the cache evicts is written back.
  \<^item> \<open>secure.go\<close> is a server on the encrypted multi-map: \<open>handleRequests\<close> runs one goroutine per request, each
    of which calls the client \<open>libs/emm/EMM_client.go\<close>, which sends JSON to \<open>libs/emm/EMM_server.go\<close>. That server
    maps a key to an index through the HIRB (\<open>libs/hirb/HIRB.go\<close>, HTTP to \<open>deps/obliv/obliv_server.py\<close>), and keeps
    the value, sealed with AES-GCM, in the block of that index of an ORAM (\<open>libs/oram\<close>).
  \<^item> \<open>mains/plaintext.go\<close> is the same server directly on etcd.
  \<^item> \<open>mains/testing_emm.go\<close> compares the library \<open>libs/emm/EMM_insecure_client.go\<close> with a map in memory.

  The theories, in the order of their imports.
  \<^item> \<open>Locker_Prelude\<close>: bytes, the values of an \<open>interface{}\<close>, Go maps as association lists in the order of
    insertion (an iteration order is a parameter), and the fact collections the proofs use.
  \<^item> \<open>LRU_Cache\<close>: \<open>LRUCache\<close> on an explicit heap of linked entries; a nil dereference is \<open>None\<close>. It refines a
    bounded list, most recent first (the locale \<open>lru_store\<close>).
  \<^item> \<open>Min_Heap\<close>, \<open>BST_Heap\<close>: the heap and the index of access times; the sifts keep the heap order, popping is
    extraction of a minimum of the multiset. The locale \<open>min_queue\<close> states that contract.
  \<^item> \<open>Go_Text\<close>: \<open>fmt\<close> and \<open>strings\<close> as far as they are used. \<open>Proxy\<close>: \<open>getIndex\<close>, every stage of
    \<open>handleRequests\<close>, and the set-up of \<open>main\<close>. \<open>Proxy_Rounds\<close>, \<open>Proxy_Batch\<close>, \<open>Proxy_Answers\<close>: invariants over
    rounds, the size of a fetch, what clients are answered, and what is written to etcd.
  \<^item> \<open>Path_ORAM\<close>: \<open>PathORAM.go\<close> and \<open>PathORAM.cpp\<close>, with the int-to-size conversions of the C interface, and
    \<open>testORAM\<close>; the locale \<open>block_store\<close> states what a store of blocks promises. An access outside the blocks is a fault; bytes behind a buffer are a parameter.
  \<^item> \<open>GCM\<close>: GCM over a block cipher, as an instance of the locale \<open>aead\<close>. \<open>JSON_Codec\<close>: \<open>encoding/json\<close> on the values of the program, with the
    round trip of \<open>marshal\<close> and \<open>unmarshal\<close>. \<open>HIRB_Store\<close>: the HIRB client and \<open>do_POST\<close>; the locale \<open>dict_store\<close>
    is the contract of the oblivious dictionary, \<open>index_map\<close> and \<open>id_map\<close> what the server relies on.
  \<^item> \<open>EMM_Server\<close>: server and client. \<open>EMM_Laws\<close>, \<open>EMM_Refine\<close>, \<open>EMM_Runs\<close>: the server refines a table of keys,
    indices and 64 values; the client over the server makes the table's calls. \<open>EMM_Properties\<close>,
    \<open>EMM_Restart\<close>, \<open>EMM_SelfTest\<close>: round trips, losses, types, restarts, \<open>testEMM\<close>. \<open>EMM_Demo\<close>: the concrete cipher
    the witnesses use. \<open>EMM_Race\<close>: \<open>getOrCreateIndex\<close> in atomic steps that requests interleave.
    \<open>EMM_Insecure\<close>: the library client, step by step equal to the server.
  \<^item> \<open>Goroutines\<close>: goroutines as automata on a shared state, and the fan-out of a batch with its wait group;
    the locale \<open>goroutines\<close> proves once that a run ends and is a serial one. \<open>Secure\<close>, \<open>Secure_Properties\<close>,
    \<open>Plaintext\<close>: the two servers as instances of it.
  \<^item> \<open>Go_Float\<close>: float64 as rationals rounded to 53 bits. \<open>Bench_Stats\<close>, \<open>Bench_Laws\<close>: the helpers of the
    benchmark. \<open>Bench_Maps\<close>: its two multi-maps and the locale \<open>multi_map\<close>. \<open>Benchmark\<close>, \<open>Bench_Properties\<close>: the
    benchmark and the operations it makes.

  Conventions. A run-time panic, undefined C++ behaviour and the exit of \<open>log.Fatalf\<close> are values (\<open>None\<close>, or
  \<open>Inl\<close> of a \<open>fault\<close>); machine integers are words, or integers with the wrap-around written out. The only
  recursion on fuel is the JSON parser, with the length of its input as fuel: a text that parses with any fuel
  parses with that (\<open>fuel_enough\<close>), and a marshalled value is always parsed back
  (\<open>unmarshal_marshal\<close>). The heap sifts have termination proofs. Runs of goroutines are proved bounded and
  completable, so no statement holds only because nothing returns.

  Parameters, with what is assumed of them where a property needs it: the clock and SHA-256 (proxy; a
  64-character hash, injective on the keys of a round), etcd, the orders in which Go ranges over maps
  (permutations of the keys), AES (any function on 128-bit blocks), the random source, the oblivious
  dictionary (laws of a map), HTTP transport, files, and what the operating system reports.

  Not modelled: flags, HTTP handlers, etcd connections and log files of the four mains (glue);
  \<open>libs/oram/dummy.go\<close> (no code); the vendored \<open>deps/obliv\<close> and \<open>deps/PathORAM\<close> (third party; \<open>ORAMClass\<close> overrides the
  accesses of the latter). JSON numbers with a fraction or an exponent, \<open>strings.ToLower\<close> beyond ASCII, and
  infinities, NaN and subnormal floats are left out. Rounds of the proxy and the ORAM accesses of
  concurrent multi-map requests are atomic; only goroutines of one batch and the index lookup are
  interleaved.
\<close>

end
